(* ===== verification/Prelude.thy ===== *)
theory Prelude
  imports Main "HOL-Library.Word" "HOL-Library.Monad_Syntax"
begin

text \<open>
  Shared vocabulary of the development: the machine integer types of the C++ sources, byte
  buffers with checked accesses, and the generic lemmas the component theories rest on.

  A C++ buffer is a list of bytes. Every access is checked: an access outside the buffer, which
  is undefined behaviour in C++, is the value \<^const>\<open>None\<close> of the option monad. A parser
  that the C++ code writes as a member function returning \<open>bool\<close> (or a size) is a function
  into \<open>(bool \<times> object) option\<close>: \<open>Some (False, obj)\<close> is the code's own rejection,
  \<^const>\<open>None\<close> is a memory error, so that memory safety is a theorem and not an assumption.
\<close>

unbundle bit_operations_syntax

type_synonym u8 = "8 word"
type_synonym u16 = "16 word"
type_synonym u32 = "32 word"
type_synonym u64 = "64 word"
type_synonym bytes = "u8 list"

section \<open>Collections of rewrite rules\<close>

named_theorems wire_simps \<open>rewriting of checked buffer accesses on concatenated buffers\<close>
named_theorems wire_defs \<open>definitions of serializers and parsers\<close>

section \<open>Checked accesses to buffers\<close>

definition rd8 :: "bytes \<Rightarrow> nat \<Rightarrow> u8 option" where
  "rd8 buf i = (if i < length buf then Some (buf ! i) else None)"

definition write_bytes :: "bytes \<Rightarrow> nat \<Rightarrow> bytes \<Rightarrow> bytes option" where
  "write_bytes buf pos bs =
     (if pos + length bs \<le> length buf
      then Some (take pos buf @ bs @ drop (pos + length bs) buf) else None)"

text \<open>
  Unsigned subtraction at the width of \<open>size_t\<close> (64 bits on every supported target): it wraps
  when the subtrahend is larger.
\<close>

definition size_sub :: "nat \<Rightarrow> nat \<Rightarrow> nat" where
  "size_sub a b = (if b \<le> a then a - b else 2 ^ 64 + a - b)"

text \<open>Loops that read or write a run of fixed-size items at consecutive positions.\<close>

fun read_items :: "(bytes \<Rightarrow> nat \<Rightarrow> 'a option) \<Rightarrow> nat \<Rightarrow> nat \<Rightarrow> bytes \<Rightarrow> nat \<Rightarrow> 'a list option" where
  "read_items rd len 0 buf pos = Some []"
| "read_items rd len (Suc n) buf pos =
     do { x \<leftarrow> rd buf pos; xs \<leftarrow> read_items rd len n buf (pos + len); Some (x # xs) }"

fun write_items :: "(bytes \<Rightarrow> nat \<Rightarrow> 'a \<Rightarrow> bytes option) \<Rightarrow> nat \<Rightarrow> 'a list \<Rightarrow> bytes \<Rightarrow> nat \<Rightarrow>
    (bytes \<times> nat) option" where
  "write_items wr len [] buf pos = Some (buf, pos)"
| "write_items wr len (x # xs) buf pos =
     do { buf' \<leftarrow> wr buf pos x; write_items wr len xs buf' (pos + len) }"

section \<open>Generic lemmas\<close>

lemma rd8_append [wire_simps]:
  "rd8 (xs @ ys) i = (if i < length xs then Some (xs ! i) else rd8 ys (i - length xs))"
  by (auto simp: rd8_def nth_append)

lemma rd8_Cons [wire_simps]:
  "rd8 (x # xs) i = (if i = 0 then Some x else rd8 xs (i - 1))"
  by (cases i) (auto simp: rd8_def)

lemma rd8_Some_iff: "rd8 buf i = Some x \<longleftrightarrow> i < length buf \<and> buf ! i = x"
  by (auto simp: rd8_def)

lemma rd8_in [simp]: "i < length buf \<Longrightarrow> rd8 buf i = Some (buf ! i)"
  by (simp add: rd8_def)

lemma rd8_drop [simp]: "rd8 (drop k buf) i = rd8 buf (k + i)"
  by (auto simp: rd8_def)

lemma rd8_None_iff [simp]: "rd8 buf i = None \<longleftrightarrow> length buf \<le> i"
  by (auto simp: rd8_def)

lemma write_bytes_append [wire_simps]:
  assumes "pos = length pre" and "length bs = length mid"
  shows "write_bytes (pre @ mid @ post) pos bs = Some (pre @ bs @ post)"
  using assms by (simp add: write_bytes_def)

lemma write_bytes_Some_iff:
  "write_bytes buf pos bs = Some buf' \<longleftrightarrow>
     pos + length bs \<le> length buf \<and> buf' = take pos buf @ bs @ drop (pos + length bs) buf"
  by (auto simp: write_bytes_def)

lemma write_bytes_fits:
  "pos + length bs \<le> length buf \<Longrightarrow>
     write_bytes buf pos bs = Some (take pos buf @ bs @ drop (pos + length bs) buf)"
  by (simp add: write_bytes_def)

lemma write_bytes_length:
  "write_bytes buf pos bs = Some buf' \<Longrightarrow> length buf' = length buf"
  by (auto simp: write_bytes_Some_iff)

lemma size_sub_le [simp]: "b \<le> a \<Longrightarrow> size_sub a b = a - b"
  by (simp add: size_sub_def)

lemma buffer_split3:
  assumes "pos + n \<le> length buf"
  obtains pre mid post where "buf = pre @ mid @ post" "length pre = pos" "length mid = n"
proof
  show "buf = take pos buf @ take n (drop pos buf) @ drop n (drop pos buf)"
    by (metis append_take_drop_id)
qed (use assms in auto)

lemma split_at: "n \<le> length xs \<Longrightarrow> \<exists>a b. xs = a @ b \<and> length a = n \<and> length b = length xs - n"
  by (metis append_take_drop_id length_drop length_take min.absorb2)

lemma take_4_drop:
  assumes "p + 4 \<le> length xs"
  shows "xs = take p xs @ [xs ! p, xs ! (p + 1), xs ! (p + 2), xs ! (p + 3)] @ drop (p + 4) xs"
proof -
  have "drop p xs = [xs ! p, xs ! (p + 1), xs ! (p + 2), xs ! (p + 3)] @ drop (p + 4) xs"
    using assms Cons_nth_drop_Suc [of p xs] Cons_nth_drop_Suc [of "p + 1" xs]
      Cons_nth_drop_Suc [of "p + 2" xs] Cons_nth_drop_Suc [of "p + 3" xs]
    by (simp add: eval_nat_numeral)
  then show ?thesis by (metis append_take_drop_id)
qed

lemma int_mod_diff:
  assumes "0 \<le> x" "x < m" "0 \<le> y" "y < m"
  shows "(x - y) mod m = (if y \<le> x then x - y else x - y + (m :: int))"
proof (cases "y \<le> x")
  case True
  with assms show ?thesis by (simp add: mod_pos_pos_trivial)
next
  case False
  have "(x - y) mod m = (x - y + m) mod m" by simp
  also have "\<dots> = x - y + m" using False assms by (intro mod_pos_pos_trivial) auto
  finally show ?thesis using False by simp
qed

lemma int_mod_add:
  assumes "0 \<le> x" "x < m" "0 \<le> y" "y < m"
  shows "(x + y) mod m = (if x + y < m then x + y else x + y - (m :: int))"
proof (cases "x + y < m")
  case True
  with assms show ?thesis by (simp add: mod_pos_pos_trivial)
next
  case False
  have "(x + y) mod m = (x + y - m) mod m" by simp
  also have "\<dots> = x + y - m" using False assms by (intro mod_pos_pos_trivial) auto
  finally show ?thesis using False by simp
qed

lemma unat_of_nat_small: "k < 2 ^ LENGTH('a) \<Longrightarrow> unat (of_nat k :: 'a::len word) = k"
  by (simp add: unsigned_of_nat take_bit_nat_eq_self)

section \<open>Byte order\<close>

text \<open>Big-endian bytes of a value, most significant first, and their inverse.\<close>

definition be16_bytes :: "u16 \<Rightarrow> bytes" where
  "be16_bytes v = [ucast (drop_bit 8 v), ucast v]"

definition be32_bytes :: "u32 \<Rightarrow> bytes" where
  "be32_bytes v = [ucast (drop_bit 24 v), ucast (drop_bit 16 v), ucast (drop_bit 8 v), ucast v]"

definition be16_of :: "u8 \<Rightarrow> u8 \<Rightarrow> u16" where
  "be16_of a b = push_bit 8 (ucast a) OR ucast b"

definition be32_of :: "u8 \<Rightarrow> u8 \<Rightarrow> u8 \<Rightarrow> u8 \<Rightarrow> u32" where
  "be32_of a b c d =
     push_bit 24 (ucast a) OR push_bit 16 (ucast b) OR push_bit 8 (ucast c) OR ucast d"

definition rd16 :: "bytes \<Rightarrow> nat \<Rightarrow> u16 option" where
  "rd16 buf p = do { a \<leftarrow> rd8 buf p; b \<leftarrow> rd8 buf (p + 1); Some (be16_of a b) }"

definition rd32 :: "bytes \<Rightarrow> nat \<Rightarrow> u32 option" where
  "rd32 buf p =
     do { a \<leftarrow> rd8 buf p; b \<leftarrow> rd8 buf (p + 1); c \<leftarrow> rd8 buf (p + 2); d \<leftarrow> rd8 buf (p + 3);
          Some (be32_of a b c d) }"

lemma length_be_bytes [simp]:
  "length (be16_bytes v) = 2" "length (be32_bytes w) = 4"
  by (simp_all add: be16_bytes_def be32_bytes_def)

lemma be16_of_bytes [simp]: "be16_of (ucast (drop_bit 8 v)) (ucast v) = v"
proof (rule bit_word_eqI)
  fix n assume "n < LENGTH(16)"
  then show "bit (be16_of (ucast (drop_bit 8 v)) (ucast v)) n = bit v n"
    by (cases "8 \<le> n") (auto simp: be16_of_def bit_simps)
qed

lemma be32_of_bytes [simp]:
  "be32_of (ucast (drop_bit 24 v)) (ucast (drop_bit 16 v)) (ucast (drop_bit 8 v)) (ucast v) = v"
proof (rule bit_word_eqI)
  fix n assume n: "n < LENGTH(32)"
  consider "24 \<le> n" | "16 \<le> n" "n < 24" | "8 \<le> n" "n < 16" | "n < 8" by linarith
  then show "bit (be32_of (ucast (drop_bit 24 v)) (ucast (drop_bit 16 v))
      (ucast (drop_bit 8 v)) (ucast v)) n = bit v n"
    using n by cases (auto simp: be32_of_def bit_simps)
qed

lemma word_bits_eq_iff:
  "(a :: 'a::len word) = b \<longleftrightarrow> (\<forall>n < LENGTH('a). bit a n = bit b n)"
  by (auto intro: bit_word_eqI)

lemma u8_and_msb [simp]: "(x :: u8) AND 0x80 = 0 \<longleftrightarrow> \<not> bit x 7"
proof -
  have "(0x80 :: u8) = 2 ^ 7" by simp
  then show ?thesis by (simp only: and_exp_eq_0_iff_not_bit)
qed

lemma u8_and_32 [simp]: "(x :: u8) AND 0x20 = 0 \<longleftrightarrow> \<not> bit x 5"
proof -
  have "(0x20 :: u8) = 2 ^ 5" by simp
  then show ?thesis by (simp only: and_exp_eq_0_iff_not_bit)
qed

lemma bit_u8_ge [simp]: "8 \<le> n \<Longrightarrow> bit (b :: u8) n \<longleftrightarrow> False"
  using bit_imp_le_length [of b n] by auto

lemma be16_bytes_of [simp]: "be16_bytes (be16_of a b) = [a, b]"
  by (auto simp: be16_bytes_def be16_of_def bit_simps intro!: bit_word_eqI)

lemma unat_be16: "unat (be16_of a b) = unat a * 256 + unat b"
proof -
  define w where "w = (of_nat (unat a * 256 + unat b) :: u16)"
  have ab: "unat a < 256" "unat b < 256"
    using unsigned_less [of a, where 'a = nat] unsigned_less [of b, where 'a = nat] by simp_all
  then have w: "unat w = unat a * 256 + unat b"
    unfolding w_def by (intro unat_of_nat_small) simp
  have "ucast (drop_bit 8 w) = a" "ucast w = b"
    using ab by (simp_all add: word_unat_eq_iff unsigned_ucast_eq drop_bit_eq_div unat_div_distrib
        take_bit_eq_mod w)
  then have "be16_of a b = w" using be16_of_bytes [of w] by simp
  with w show ?thesis by simp
qed

lemma be32_bytes_of [simp]: "be32_bytes (be32_of a b c d) = [a, b, c, d]"
  by (auto simp: be32_bytes_def be32_of_def bit_simps intro!: bit_word_eqI)

lemma rd16_in: "p + 2 \<le> length buf \<Longrightarrow> rd16 buf p = Some (be16_of (buf ! p) (buf ! (p + 1)))"
  by (simp add: rd16_def)

lemma rd32_in:
  "p + 4 \<le> length buf \<Longrightarrow>
     rd32 buf p = Some (be32_of (buf ! p) (buf ! (p + 1)) (buf ! (p + 2)) (buf ! (p + 3)))"
  by (simp add: rd32_def)

lemma rd16_None_iff [simp]: "rd16 buf p = None \<longleftrightarrow> length buf < p + 2"
proof (cases "p + 2 \<le> length buf")
  case True
  then show ?thesis by (simp add: rd16_in)
next
  case False
  then show ?thesis by (cases "p < length buf") (auto simp: rd16_def rd8_def)
qed

lemma rd32_None_iff [simp]: "rd32 buf p = None \<longleftrightarrow> length buf < p + 4"
proof (cases "p + 4 \<le> length buf")
  case True
  then show ?thesis by (simp add: rd32_in)
next
  case False
  then show ?thesis by (auto simp: rd32_def rd8_def)
qed

lemma rd16_bytes [wire_simps]:
  "p = length pre \<Longrightarrow> rd16 (pre @ be16_bytes v @ post) p = Some v"
  by (simp add: rd16_in nth_append be16_bytes_def)

lemma rd32_bytes [wire_simps]:
  "p = length pre \<Longrightarrow> rd32 (pre @ be32_bytes v @ post) p = Some v"
  by (simp add: rd32_in nth_append be32_bytes_def)

lemma rd16_drop [simp]: "rd16 (drop k buf) p = rd16 buf (k + p)"
  by (simp add: rd16_def add.assoc)

lemma rd32_drop [simp]: "rd32 (drop k buf) p = rd32 buf (k + p)"
  by (simp add: rd32_def add.assoc)

lemma unat_Suc_less: "(a :: u32) < b \<Longrightarrow> unat (a + 1) = Suc (unat a) \<and> a + 1 \<le> b"
proof -
  assume "a < b"
  then have "unat a < unat b" by (simp add: word_less_nat_alt)
  moreover have "unat b < 2 ^ 32" by (rule order_less_le_trans [OF unsigned_less]) simp
  ultimately show ?thesis by (simp add: unat_word_ariths word_le_nat_alt)
qed

end
