(* ===== verification/Byte_IO.thy ===== *)
theory Byte_IO
  imports Prelude
begin

text \<open>
  The integer readers and writers of \<^verbatim>\<open>src/common/byte_io.h\<close>: \<open>ByteReader<T, B>\<close> and
  \<open>ByteWriter<T, B>\<close> for unsigned types in both byte orders, the hand-unrolled specializations
  for two, four and eight bytes, and the signed reader with its sign extension. The template
  type \<open>T\<close> is the word type, \<open>B\<close> the number of bytes. The theory shows that what a writer
  stores is what the reader of the same width and byte order returns, for every \<open>T\<close> and
  \<open>B\<close>, and that the unrolled specializations agree with the generic loops.
\<close>

section \<open>The generic loops\<close>

text \<open>
  The loop variable \<open>i\<close> of the source runs from 0 to \<open>B - 1\<close>; the argument \<open>k\<close> below is
  the number of iterations left, so \<open>i = B - k\<close>.
\<close>

fun read_be_loop :: "nat \<Rightarrow> nat \<Rightarrow> bytes \<Rightarrow> 'a::len word \<Rightarrow> 'a word option" where
  "read_be_loop B 0 data val = Some val"
| "read_be_loop B (Suc k) data val =
     do { x \<leftarrow> rd8 data (B - Suc k); read_be_loop B k data (val OR push_bit (k * 8) (ucast x)) }"

fun read_le_loop :: "nat \<Rightarrow> nat \<Rightarrow> bytes \<Rightarrow> 'a::len word \<Rightarrow> 'a word option" where
  "read_le_loop B 0 data val = Some val"
| "read_le_loop B (Suc k) data val =
     do { x \<leftarrow> rd8 data (B - Suc k);
          read_le_loop B k data (val OR push_bit ((B - Suc k) * 8) (ucast x)) }"

definition ReadBigEndian :: "nat \<Rightarrow> bytes \<Rightarrow> 'a::len word option" where
  "ReadBigEndian B data = read_be_loop B B data 0"

definition ReadLittleEndian :: "nat \<Rightarrow> bytes \<Rightarrow> 'a::len word option" where
  "ReadLittleEndian B data = read_le_loop B B data 0"

definition WriteBigEndian :: "nat \<Rightarrow> bytes \<Rightarrow> 'a::len word \<Rightarrow> bytes option" where
  "WriteBigEndian B data val =
     write_bytes data 0 (map (\<lambda>i. ucast (drop_bit ((B - 1 - i) * 8) val)) [0..<B])"

definition WriteLittleEndian :: "nat \<Rightarrow> bytes \<Rightarrow> 'a::len word \<Rightarrow> bytes option" where
  "WriteLittleEndian B data val =
     write_bytes data 0 (map (\<lambda>i. ucast (drop_bit (i * 8) val)) [0..<B])"

section \<open>Specializations\<close>

definition ReadBigEndian2 :: "bytes \<Rightarrow> 'a::len word option" where
  "ReadBigEndian2 data =
     do { a \<leftarrow> rd8 data 0; b \<leftarrow> rd8 data 1; Some (push_bit 8 (ucast a) OR ucast b) }"

definition ReadLittleEndian2 :: "bytes \<Rightarrow> 'a::len word option" where
  "ReadLittleEndian2 data =
     do { a \<leftarrow> rd8 data 0; b \<leftarrow> rd8 data 1; Some (ucast a OR push_bit 8 (ucast b)) }"

definition WriteBigEndian2 :: "bytes \<Rightarrow> 'a::len word \<Rightarrow> bytes option" where
  "WriteBigEndian2 data val = write_bytes data 0 [ucast (drop_bit 8 val), ucast val]"

definition WriteLittleEndian2 :: "bytes \<Rightarrow> 'a::len word \<Rightarrow> bytes option" where
  "WriteLittleEndian2 data val = write_bytes data 0 [ucast val, ucast (drop_bit 8 val)]"

definition ReadBigEndian4 :: "bytes \<Rightarrow> 'a::len word option" where
  "ReadBigEndian4 data =
     do { a \<leftarrow> rd8 data 0; b \<leftarrow> rd8 data 1; c \<leftarrow> rd8 data 2; d \<leftarrow> rd8 data 3;
          Some (push_bit 24 (ucast a) OR push_bit 16 (ucast b) OR push_bit 8 (ucast c) OR ucast d) }"

definition ReadLittleEndian4 :: "bytes \<Rightarrow> 'a::len word option" where
  "ReadLittleEndian4 data =
     do { a \<leftarrow> rd8 data 0; b \<leftarrow> rd8 data 1; c \<leftarrow> rd8 data 2; d \<leftarrow> rd8 data 3;
          Some (ucast a OR push_bit 8 (ucast b) OR push_bit 16 (ucast c) OR push_bit 24 (ucast d)) }"

definition WriteBigEndian4 :: "bytes \<Rightarrow> 'a::len word \<Rightarrow> bytes option" where
  "WriteBigEndian4 data val =
     write_bytes data 0
       [ucast (drop_bit 24 val), ucast (drop_bit 16 val), ucast (drop_bit 8 val), ucast val]"

definition WriteLittleEndian4 :: "bytes \<Rightarrow> 'a::len word \<Rightarrow> bytes option" where
  "WriteLittleEndian4 data val =
     write_bytes data 0
       [ucast val, ucast (drop_bit 8 val), ucast (drop_bit 16 val), ucast (drop_bit 24 val)]"

definition ReadBigEndian8 :: "bytes \<Rightarrow> 'a::len word option" where
  "ReadBigEndian8 data =
     do { a \<leftarrow> rd8 data 0; b \<leftarrow> rd8 data 1; c \<leftarrow> rd8 data 2; d \<leftarrow> rd8 data 3;
          e \<leftarrow> rd8 data 4; f \<leftarrow> rd8 data 5; g \<leftarrow> rd8 data 6; h \<leftarrow> rd8 data 7;
          Some (push_bit 56 (ucast a) OR push_bit 48 (ucast b) OR push_bit 40 (ucast c) OR
                push_bit 32 (ucast d) OR push_bit 24 (ucast e) OR push_bit 16 (ucast f) OR
                push_bit 8 (ucast g) OR ucast h) }"

definition WriteBigEndian8 :: "bytes \<Rightarrow> 'a::len word \<Rightarrow> bytes option" where
  "WriteBigEndian8 data val =
     write_bytes data 0
       [ucast (drop_bit 56 val), ucast (drop_bit 48 val), ucast (drop_bit 40 val),
        ucast (drop_bit 32 val), ucast (drop_bit 24 val), ucast (drop_bit 16 val),
        ucast (drop_bit 8 val), ucast val]"

section \<open>Signed reader\<close>

text \<open>
  \<open>sizeof_T\<close> is \<open>sizeof(T)\<close>; the word type is the unsigned counterpart \<open>U\<close> of \<open>T\<close> and the
  signed value is what \<^const>\<open>sint\<close> reads from it. \<open>ReinterpretAsSigned\<close> moves the highest bit
  by hand, which in two's complement leaves the bit pattern as it is. The mask of \<open>SignExtend\<close>
  is computed as \<open>1 << ...\<close> in \<open>int\<close>: a shift by 31 or more is undefined there, and \<^const>\<open>None\<close>
  here.
\<close>

definition SignExtend :: "nat \<Rightarrow> nat \<Rightarrow> 'a::len word \<Rightarrow> 'a word option" where
  "SignExtend sizeof_T B val =
     (let kMsb = (ucast (drop_bit ((B - 1) * 8) val) :: u8)
      in if kMsb AND 0x80 \<noteq> 0
         then (let shift = (B mod sizeof_T) * 8
               in if shift < 31
                  then (let kUsedBitsMask = push_bit shift 1 - 1
                        in Some (NOT kUsedBitsMask OR val))
                  else None)
         else Some val)"

definition ReinterpretAsSigned :: "'a::len word \<Rightarrow> int" where
  "ReinterpretAsSigned v =
     (let mask = push_bit (LENGTH('a) - 1) (1 :: 'a word)
      in if v AND mask \<noteq> 0 then uint (v AND NOT mask) + - (2 ^ (LENGTH('a) - 1)) else uint v)"

definition ReadBigEndianSigned :: "nat \<Rightarrow> nat \<Rightarrow> bytes \<Rightarrow> 'a::len itself \<Rightarrow> int option" where
  "ReadBigEndianSigned sizeof_T B data _ =
     do { u \<leftarrow> (ReadBigEndian B data :: 'a word option);
          u' \<leftarrow> (if B < sizeof_T then SignExtend sizeof_T B u else Some u);
          Some (ReinterpretAsSigned u') }"

definition WriteBigEndianSigned :: "nat \<Rightarrow> bytes \<Rightarrow> int \<Rightarrow> 'a::len itself \<Rightarrow> bytes option" where
  "WriteBigEndianSigned B data val _ = WriteBigEndian B data (word_of_int val :: 'a word)"

section \<open>What the loops compute\<close>

lemma bit_push_byte:
  "bit (push_bit (k * 8) (ucast (x :: u8)) :: 'a::len word) n \<longleftrightarrow>
     n div 8 = k \<and> n < LENGTH('a) \<and> bit x (n mod 8)"
proof (cases "k * 8 \<le> n \<and> n < k * 8 + 8")
  case True
  then have "n div 8 = k" and "n mod 8 = n - k * 8"
    by (auto simp: div_nat_eqI minus_mult_div_eq_mod [symmetric] mult.commute)
  with True show ?thesis by (auto simp: bit_simps mult.commute)
next
  case False
  then have "n div 8 \<noteq> k" by auto
  moreover have "\<not> bit (push_bit (k * 8) (ucast x) :: 'a word) n"
    using False by (auto simp: bit_simps)
  ultimately show ?thesis by simp
qed

lemma read_be_loop_bits:
  "k \<le> B \<Longrightarrow> B \<le> length data \<Longrightarrow>
     \<exists>r. read_be_loop B k data (val :: 'a::len word) = Some r \<and>
       (\<forall>n. bit r n \<longleftrightarrow> bit val n \<or>
          n div 8 < k \<and> n < LENGTH('a) \<and> bit (data ! (B - 1 - n div 8)) (n mod 8))"
proof (induction k arbitrary: val)
  case 0
  then show ?case by simp
next
  case (Suc k)
  then have "rd8 data (B - Suc k) = Some (data ! (B - Suc k))" by simp
  moreover obtain r where
    r: "read_be_loop B k data (val OR push_bit (k * 8) (ucast (data ! (B - Suc k)))) = Some r"
    and bits: "\<And>n. bit r n \<longleftrightarrow>
      bit (val OR push_bit (k * 8) (ucast (data ! (B - Suc k)))) n \<or>
      n div 8 < k \<and> n < LENGTH('a) \<and> bit (data ! (B - 1 - n div 8)) (n mod 8)"
    using Suc.IH [of "val OR push_bit (k * 8) (ucast (data ! (B - Suc k)))"] Suc.prems
    by auto
  ultimately show ?case
    by (auto simp: bits bit_or_iff bit_push_byte less_Suc_eq)
qed

lemma read_le_loop_bits:
  "k \<le> B \<Longrightarrow> B \<le> length data \<Longrightarrow>
     \<exists>r. read_le_loop B k data (val :: 'a::len word) = Some r \<and>
       (\<forall>n. bit r n \<longleftrightarrow> bit val n \<or>
          B - k \<le> n div 8 \<and> n div 8 < B \<and> n < LENGTH('a) \<and> bit (data ! (n div 8)) (n mod 8))"
proof (induction k arbitrary: val)
  case 0
  then show ?case by auto
next
  case (Suc k)
  let ?v = "val OR push_bit ((B - Suc k) * 8) (ucast (data ! (B - Suc k)))"
  have rd: "rd8 data (B - Suc k) = Some (data ! (B - Suc k))" using Suc.prems by simp
  obtain r where r: "read_le_loop B k data ?v = Some r"
    and bits: "\<And>n. bit r n \<longleftrightarrow> bit ?v n \<or>
      B - k \<le> n div 8 \<and> n div 8 < B \<and> n < LENGTH('a) \<and> bit (data ! (n div 8)) (n mod 8)"
    using Suc.IH [of ?v] Suc.prems by auto
  have range: "B - Suc k \<le> m \<and> m < B \<longleftrightarrow> m = B - Suc k \<or> B - k \<le> m \<and> m < B" for m
    using Suc.prems by auto
  have "bit r n \<longleftrightarrow> bit val n \<or> B - Suc k \<le> n div 8 \<and> n div 8 < B \<and> n < LENGTH('a) \<and>
      bit (data ! (n div 8)) (n mod 8)" for n
    using range [of "n div 8"] unfolding bits bit_or_iff bit_push_byte by metis
  with rd r show ?case by simp
qed

lemma bit_ReadBigEndian:
  assumes "B \<le> length data"
  obtains r :: "'a::len word" where "ReadBigEndian B data = Some r"
    and "\<And>n. bit r n \<longleftrightarrow> n div 8 < B \<and> n < LENGTH('a) \<and> bit (data ! (B - 1 - n div 8)) (n mod 8)"
  using read_be_loop_bits [of B B data "0 :: 'a word"] assms
  by (auto simp: ReadBigEndian_def)

lemma bit_ReadLittleEndian:
  assumes "B \<le> length data"
  obtains r :: "'a::len word" where "ReadLittleEndian B data = Some r"
    and "\<And>n. bit r n \<longleftrightarrow> n div 8 < B \<and> n < LENGTH('a) \<and> bit (data ! (n div 8)) (n mod 8)"
  using read_le_loop_bits [of B B data "0 :: 'a word"] assms
  by (auto simp: ReadLittleEndian_def)

lemma div8_less_iff: "n div 8 < B \<longleftrightarrow> n < 8 * (B :: nat)"
  by (simp add: less_mult_imp_div_less div_less_iff_less_mult mult.commute)

section \<open>Round trips\<close>

lemma big_endian_bytes:
  assumes "B \<le> length data"
  shows "\<exists>buf. WriteBigEndian B data (val :: 'a::len word) = Some buf \<and>
    length buf = length data \<and> drop B buf = drop B data \<and>
    ReadBigEndian B buf = Some (take_bit (8 * B) val)"
proof -
  let ?bs = "map (\<lambda>i. ucast (drop_bit ((B - 1 - i) * 8) val) :: u8) [0..<B]"
  let ?buf = "?bs @ drop B data"
  have w: "WriteBigEndian B data val = Some ?buf"
    using assms by (simp add: WriteBigEndian_def write_bytes_def)
  obtain r :: "'a word" where r: "ReadBigEndian B ?buf = Some r"
    and bits: "\<And>n. bit r n \<longleftrightarrow>
      n div 8 < B \<and> n < LENGTH('a) \<and> bit (?buf ! (B - 1 - n div 8)) (n mod 8)"
    using bit_ReadBigEndian [of B ?buf] by auto
  have "r = take_bit (8 * B) val"
  proof (rule bit_word_eqI)
    fix n assume "n < LENGTH('a)"
    then show "bit r n \<longleftrightarrow> bit (take_bit (8 * B) val) n"
      by (cases "n div 8 < B")
        (auto simp: bits nth_append bit_simps div8_less_iff mult.commute)
  qed
  with w r assms show ?thesis by auto
qed


text \<open>
  C40: what \<open>WriteBigEndian<T, B>\<close> stores, \<open>ReadBigEndian<T, B>\<close> reads back: the low \<open>8 B\<close> bits
  of the value, hence the value itself when \<open>B\<close> is \<open>sizeof(T)\<close>; the bytes behind the \<open>B\<close>
  written ones are untouched. Stated for every word type and every \<open>B\<close>.
\<close>

theorem big_endian_roundtrip:
  assumes "B \<le> length data"
  shows "\<exists>buf. WriteBigEndian B data (val :: 'a::len word) = Some buf \<and>
    length buf = length data \<and> drop B buf = drop B data \<and>
    ReadBigEndian B buf = Some (take_bit (8 * B) val)"
  using assms by (rule big_endian_bytes)

theorem big_endian_roundtrip_witness:
  "3 \<le> length [0, 0, 0, 7 :: u8] \<and>
   (\<exists>buf. WriteBigEndian 3 [0, 0, 0, 7] (0x12345678 :: u32) = Some buf \<and>
      length buf = length [0, 0, 0, 7 :: u8] \<and> drop 3 buf = drop 3 [0, 0, 0, 7] \<and>
      ReadBigEndian 3 buf = Some (0x345678 :: u32))"
  using big_endian_roundtrip [of 3 "[0, 0, 0, 7]" "0x12345678 :: u32"] by simp

text \<open>
  The same for the little-endian pair.
\<close>

theorem little_endian_roundtrip:
  assumes "B \<le> length data"
  shows "\<exists>buf. WriteLittleEndian B data (val :: 'a::len word) = Some buf \<and>
    length buf = length data \<and> drop B buf = drop B data \<and>
    ReadLittleEndian B buf = Some (take_bit (8 * B) val)"
proof -
  let ?bs = "map (\<lambda>i. ucast (drop_bit (i * 8) val) :: u8) [0..<B]"
  let ?buf = "?bs @ drop B data"
  have w: "WriteLittleEndian B data val = Some ?buf"
    using assms by (simp add: WriteLittleEndian_def write_bytes_def)
  obtain r :: "'a word" where r: "ReadLittleEndian B ?buf = Some r"
    and bits: "\<And>n. bit r n \<longleftrightarrow>
      n div 8 < B \<and> n < LENGTH('a) \<and> bit (?buf ! (n div 8)) (n mod 8)"
    using bit_ReadLittleEndian [of B ?buf] by auto
  have "r = take_bit (8 * B) val"
  proof (rule bit_word_eqI)
    fix n assume "n < LENGTH('a)"
    then show "bit r n \<longleftrightarrow> bit (take_bit (8 * B) val) n"
      by (cases "n div 8 < B")
        (auto simp: bits nth_append bit_simps div8_less_iff mult.commute)
  qed
  with w r assms show ?thesis by auto
qed

theorem little_endian_roundtrip_witness:
  "4 \<le> length [0, 0, 0, 0 :: u8] \<and>
   (\<exists>buf. WriteLittleEndian 4 [0, 0, 0, 0] (0x12345678 :: u32) = Some buf \<and>
      length buf = length [0, 0, 0, 0 :: u8] \<and> drop 4 buf = drop 4 [0, 0, 0, 0] \<and>
      ReadLittleEndian 4 buf = Some (0x12345678 :: u32))"
  using little_endian_roundtrip [of 4 "[0, 0, 0, 0]" "0x12345678 :: u32"] by simp

section \<open>The unrolled specializations agree with the loops\<close>

lemma upt_unroll: "[0..<2] = [0, 1]" "[0..<4] = [0, 1, 2, 3]" "[0..<8] = [0, 1, 2, 3, 4, 5, 6, 7]"
  by (simp_all add: upt_rec)

lemma read_specializations:
  "ReadBigEndian2 data = (ReadBigEndian 2 data :: 'a::len word option)"
  "ReadLittleEndian2 data = (ReadLittleEndian 2 data :: 'a word option)"
  "ReadBigEndian4 data = (ReadBigEndian 4 data :: 'a word option)"
  "ReadLittleEndian4 data = (ReadLittleEndian 4 data :: 'a word option)"
  "ReadBigEndian8 data = (ReadBigEndian 8 data :: 'a word option)"
  by (simp_all add: ReadBigEndian2_def ReadLittleEndian2_def ReadBigEndian4_def ReadLittleEndian4_def
      ReadBigEndian8_def ReadBigEndian_def ReadLittleEndian_def numeral_eq_Suc or.assoc)

lemma write_specializations:
  "WriteBigEndian2 data val = WriteBigEndian 2 data val"
  "WriteLittleEndian2 data val = WriteLittleEndian 2 data val"
  "WriteBigEndian4 data val = WriteBigEndian 4 data val"
  "WriteLittleEndian4 data val = WriteLittleEndian 4 data val"
  "WriteBigEndian8 data val = WriteBigEndian 8 data val"
  by (simp_all add: WriteBigEndian2_def WriteLittleEndian2_def WriteBigEndian4_def
      WriteLittleEndian4_def WriteBigEndian8_def WriteBigEndian_def WriteLittleEndian_def upt_unroll)

text \<open>
  The two-, four- and eight-byte specializations that the RTP and RTCP code uses compute the
  same function as the generic loops, on every buffer, including the short ones.
\<close>

theorem byte_io_specializations:
  "ReadBigEndian2 data = (ReadBigEndian 2 data :: 'a::len word option) \<and>
   ReadLittleEndian2 data = (ReadLittleEndian 2 data :: 'a word option) \<and>
   ReadBigEndian4 data = (ReadBigEndian 4 data :: 'a word option) \<and>
   ReadLittleEndian4 data = (ReadLittleEndian 4 data :: 'a word option) \<and>
   ReadBigEndian8 data = (ReadBigEndian 8 data :: 'a word option) \<and>
   WriteBigEndian2 data (val :: 'a word) = WriteBigEndian 2 data val \<and>
   WriteLittleEndian2 data val = WriteLittleEndian 2 data val \<and>
   WriteBigEndian4 data val = WriteBigEndian 4 data val \<and>
   WriteLittleEndian4 data val = WriteLittleEndian 4 data val \<and>
   WriteBigEndian8 data val = WriteBigEndian 8 data val"
  by (simp add: read_specializations write_specializations)

section \<open>Signed values\<close>

lemma ReinterpretAsSigned_sint: "ReinterpretAsSigned (v :: 'a::len word) = sint v"
proof -
  let ?N = "LENGTH('a) - Suc 0"
  have test: "v AND 2 ^ ?N = 0 \<longleftrightarrow> \<not> bit v ?N"
    by (rule and_exp_eq_0_iff_not_bit)
  have low: "v AND NOT (2 ^ ?N) = take_bit ?N v"
    by (rule bit_word_eqI) (auto simp: bit_simps)
  have "sint v = take_bit ?N (uint v) - of_bool (bit v ?N) * 2 ^ ?N"
    by (simp add: sint_uint signed_take_bit_eq_concat_bit concat_bit_eq push_bit_eq_mult
        bit_uint_iff)
  moreover have "take_bit ?N (uint v) = uint v" if "\<not> bit v ?N"
  proof (rule bit_eqI)
    fix n
    show "bit (take_bit ?N (uint v)) n \<longleftrightarrow> bit (uint v) n"
      using that bit_imp_le_length [of v n] by (cases "n = ?N") (auto simp: bit_simps)
  qed
  ultimately show ?thesis
    by (simp add: ReinterpretAsSigned_def Let_def test low unsigned_take_bit_eq)
qed

lemma SignExtend_bits:
  assumes "0 < B" "B < sizeof_T" "B \<le> 3" and len: "LENGTH('a) = 8 * sizeof_T"
  shows "SignExtend sizeof_T B (take_bit (8 * B) (word_of_int k :: 'a::len word)) =
    Some (word_of_int (signed_take_bit (8 * B - 1) k))"
proof -
  let ?u = "take_bit (8 * B) (word_of_int k :: 'a word)"
  have B8: "(B - Suc 0) * 8 + 7 = 8 * B - Suc 0" "B mod sizeof_T = B" using assms by auto
  have msb: "(ucast (drop_bit ((B - 1) * 8) ?u) :: u8) AND 0x80 \<noteq> 0 \<longleftrightarrow>
      bit ?u (8 * B - 1)"
    by (auto simp: bit_simps B8)
  have u: "bit ?u n \<longleftrightarrow> n < 8 * B \<and> n < LENGTH('a) \<and> bit k n" for n
    by (auto simp: bit_simps)
  have ext: "NOT (push_bit (8 * B) 1 - 1) OR ?u = word_of_int (signed_take_bit (8 * B - 1) k)"
    if "bit ?u (8 * B - 1)"
  proof (rule bit_word_eqI)
    fix n assume "n < LENGTH('a)"
    then show "bit (NOT (push_bit (8 * B) 1 - 1) OR ?u) n \<longleftrightarrow>
        bit (word_of_int (signed_take_bit (8 * B - 1) k) :: 'a word) n"
      using that assms
      by (cases "n = 8 * B - Suc 0")
        (auto simp: bit_simps min_def push_bit_eq_mult simp flip: mask_eq_exp_minus_1)
  qed
  have "?u = word_of_int (signed_take_bit (8 * B - 1) k)" if "\<not> bit ?u (8 * B - 1)"
  proof (rule bit_word_eqI)
    fix n assume "n < LENGTH('a)"
    then show "bit ?u n \<longleftrightarrow> bit (word_of_int (signed_take_bit (8 * B - 1) k) :: 'a word) n"
      using that assms
      by (cases "n = 8 * B - Suc 0") (auto simp: u bit_word_of_int_iff bit_signed_take_bit_iff min_def)
  qed
  with ext show ?thesis
    using assms unfolding SignExtend_def Let_def msb B8(2) mult.commute [of B 8] by auto
qed

text \<open>
  A signed value that fits into \<open>B\<close> bytes survives being written with \<open>B\<close> bytes and read
  back with sign extension, for \<open>B\<close> up to three bytes and for the full width of the type. (The
  code reads the 24-bit RTCP loss counters and RTP extension fields.)
\<close>

theorem signed_big_endian_roundtrip:
  assumes "B \<le> length data" and "0 < B" and "LENGTH('a::len) = 8 * sizeof_T"
    and "B \<le> 3 \<and> B < sizeof_T \<or> B = sizeof_T"
    and "- (2 ^ (8 * B - 1)) \<le> k" and "k < 2 ^ (8 * B - 1)"
  shows "\<exists>buf. WriteBigEndianSigned B data k TYPE('a) = Some buf \<and>
    ReadBigEndianSigned sizeof_T B buf TYPE('a) = Some k"
proof -
  obtain buf where w: "WriteBigEndian B data (word_of_int k :: 'a word) = Some buf"
    and r: "ReadBigEndian B buf = Some (take_bit (8 * B) (word_of_int k :: 'a word))"
    using big_endian_bytes [OF assms(1), of "word_of_int k :: 'a word"] by auto
  have k: "signed_take_bit (8 * B - 1) k = k"
    using assms(5,6) by (simp add: signed_take_bit_int_eq_self)
  have "min (LENGTH('a) - 1) (8 * B - 1) = 8 * B - 1" using assms(3,4) by auto
  then have "signed_take_bit (LENGTH('a) - 1) k = k"
    by (metis k signed_take_bit_signed_take_bit)
  then have "sint (word_of_int k :: 'a word) = k"
    by (simp only: sint_sbintrunc')
  then show ?thesis
    using assms(2-4) w r k
    by (auto simp: WriteBigEndianSigned_def ReadBigEndianSigned_def ReinterpretAsSigned_sint
        SignExtend_bits take_bit_word_eq_self)
qed

theorem signed_big_endian_roundtrip_witness:
  "- (2 ^ 23) \<le> (-5 :: int) \<and> (-5 :: int) < 2 ^ 23 \<and>
   (\<exists>buf. WriteBigEndianSigned 3 [0, 0, 0] (-5) TYPE(32) = Some buf \<and>
      ReadBigEndianSigned 4 3 buf TYPE(32) = Some (-5))"
  using signed_big_endian_roundtrip [where 'a = 32, of 3 "[0, 0, 0]" 4 "-5"] by simp

end
