(* ===== verification/Seq_Num.thy ===== *)
theory Seq_Num
  imports Prelude
begin

text \<open>
  Wrapping sequence numbers: \<^verbatim>\<open>src/common/rtc_base/numerics/mod_ops.h\<close>,
  \<^verbatim>\<open>sequence_number_util.h\<close>, \<^verbatim>\<open>sequence_number_unwrapper.h\<close> and
  \<^verbatim>\<open>src/common/sequence_number_compare.h\<close>. The template type \<open>T\<close> is the word type. The
  variants with a modulus \<open>M > 0\<close> carry the suffix \<open>M\<close>; those with \<open>M == 0\<close> wrap at the width
  of \<open>T\<close>. Where C++ promotes \<open>uint8_t\<close> and \<open>uint16_t\<close> operands to \<open>int\<close> before it subtracts, a
  separate definition with the suffix \<open>promoted\<close> computes the difference in the integers.

  The theory shows that the comparisons are total and antisymmetric, that the two independent
  implementations of "newer" agree, that inside a window of half the number space they order
  numbers like the integers, and that the unwrapper reconstructs the original counter.
\<close>

section \<open>Modular arithmetic (mod\_ops.h)\<close>

definition Add :: "u64 \<Rightarrow> u64 \<Rightarrow> u64 \<Rightarrow> u64" where
  "Add M a b = (let t = M - b mod M; res = a - t in if t > a then res + M else res)"

definition Subtract :: "u64 \<Rightarrow> u64 \<Rightarrow> u64 \<Rightarrow> u64" where
  "Subtract M a b = (let sub = b mod M in if a < sub then M - (sub - a) else a - sub)"

definition ForwardDiffM :: "'a::len word \<Rightarrow> 'a word \<Rightarrow> 'a word \<Rightarrow> 'a word" where
  "ForwardDiffM M a b = (if a \<le> b then b - a else M - (a - b))"

definition ForwardDiff :: "'a::len word \<Rightarrow> 'a word \<Rightarrow> 'a word" where
  "ForwardDiff a b = b - a"

definition ReverseDiffM :: "'a::len word \<Rightarrow> 'a word \<Rightarrow> 'a word \<Rightarrow> 'a word" where
  "ReverseDiffM M a b = (if b \<le> a then a - b else M - (b - a))"

definition ReverseDiff :: "'a::len word \<Rightarrow> 'a word \<Rightarrow> 'a word" where
  "ReverseDiff a b = a - b"

definition MinDiffM :: "'a::len word \<Rightarrow> 'a word \<Rightarrow> 'a word \<Rightarrow> 'a word" where
  "MinDiffM M a b = min (ForwardDiffM M a b) (ReverseDiffM M a b)"

definition MinDiff :: "'a::len word \<Rightarrow> 'a word \<Rightarrow> 'a word" where
  "MinDiff a b = min (ForwardDiff a b) (ReverseDiff a b)"

section \<open>Ordering (sequence\_number\_util.h)\<close>

definition AheadOrAtM :: "'a::len word \<Rightarrow> 'a word \<Rightarrow> 'a word \<Rightarrow> bool" where
  "AheadOrAtM M a b =
     (let maxDist = M div 2
      in if M AND 1 = 0 \<and> MinDiffM M a b = maxDist then b < a
         else ForwardDiffM M b a \<le> maxDist)"

text \<open>\<open>std::numeric_limits<T>::max() / 2 + T(1)\<close>\<close>

definition half :: "'a::len word" where
  "half = (- 1) div 2 + 1"

definition AheadOrAt :: "'a::len word \<Rightarrow> 'a word \<Rightarrow> bool" where
  "AheadOrAt a b = (if a - b = half then b < a else ForwardDiff b a < half)"

definition AheadOrAt_promoted :: "'a::len word \<Rightarrow> 'a word \<Rightarrow> bool" where
  "AheadOrAt_promoted a b =
     (if uint a - uint b = uint (half :: 'a word) then b < a else ForwardDiff b a < half)"

definition AheadOf :: "'a::len word \<Rightarrow> 'a word \<Rightarrow> bool" where
  "AheadOf a b \<longleftrightarrow> a \<noteq> b \<and> AheadOrAt a b"

definition DescendingSeqNumComp :: "'a::len word \<Rightarrow> 'a word \<Rightarrow> bool" where
  "DescendingSeqNumComp a b = AheadOf b a"

section \<open>The other comparison (sequence\_number\_compare.h)\<close>

text \<open>\<open>(std::numeric_limits<U>::max() >> 1) + 1\<close>\<close>

definition kBreakpoint :: "'a::len word" where
  "kBreakpoint = drop_bit 1 (- 1) + 1"

definition IsNewer :: "'a::len word \<Rightarrow> 'a word \<Rightarrow> bool" where
  "IsNewer value prev_value =
     (if value - prev_value = kBreakpoint then prev_value < value
      else value \<noteq> prev_value \<and> value - prev_value < kBreakpoint)"

definition IsNewer_promoted :: "'a::len word \<Rightarrow> 'a word \<Rightarrow> bool" where
  "IsNewer_promoted value prev_value =
     (if uint value - uint prev_value = uint (kBreakpoint :: 'a word) then prev_value < value
      else value \<noteq> prev_value \<and> value - prev_value < kBreakpoint)"

definition LatestSequenceNumber :: "u16 \<Rightarrow> u16 \<Rightarrow> u16" where
  "LatestSequenceNumber s1 s2 = (if IsNewer_promoted s1 s2 then s1 else s2)"

definition LatestTimestamp :: "u32 \<Rightarrow> u32 \<Rightarrow> u32" where
  "LatestTimestamp t1 t2 = (if IsNewer t1 t2 then t1 else t2)"

section \<open>Unwrapper (sequence\_number\_unwrapper.h)\<close>

record 'v unwrapper =
  last_unwrapped :: int
  last_value :: "'v option"

definition unwrapper_init :: "'a::len word unwrapper" where
  "unwrapper_init = \<lparr>last_unwrapped = 0, last_value = None\<rparr>"

definition Delta :: "'a::len word \<Rightarrow> 'a word \<Rightarrow> int" where
  "Delta lst new =
     (let kBackwardAdjustment = 2 ^ LENGTH('a); result = uint (ForwardDiff lst new)
      in if \<not> AheadOrAt new lst then result - kBackwardAdjustment else result)"

definition Unwrap :: "'a::len word unwrapper \<Rightarrow> 'a word \<Rightarrow> int \<times> 'a word unwrapper" where
  "Unwrap u value =
     (let lu = (case last_value u of None \<Rightarrow> uint value
                | Some lv \<Rightarrow> last_unwrapped u + Delta lv value)
      in (lu, u\<lparr>last_unwrapped := lu, last_value := Some value\<rparr>))"

definition PeekUnwrap :: "'a::len word unwrapper \<Rightarrow> 'a word \<Rightarrow> int" where
  "PeekUnwrap u value =
     (case last_value u of None \<Rightarrow> uint value | Some lv \<Rightarrow> last_unwrapped u + Delta lv value)"

definition Reset :: "'a::len word unwrapper \<Rightarrow> 'a word unwrapper" where
  "Reset u = u\<lparr>last_unwrapped := 0, last_value := None\<rparr>"

fun Unwrap_all :: "'a::len word unwrapper \<Rightarrow> 'a word list \<Rightarrow> int list" where
  "Unwrap_all u [] = []"
| "Unwrap_all u (v # vs) = (let (x, u') = Unwrap u v in x # Unwrap_all u' vs)"

section \<open>Half of the number space\<close>

lemma uint_half: "uint (half :: 'a::len word) = 2 ^ (LENGTH('a) - 1)"
proof -
  obtain n where n: "LENGTH('a) = Suc n" by (metis len_gt_0 not0_implies_Suc neq0_conv)
  have "uint (- 1 :: 'a word) = 2 ^ Suc n - 1"
    by (simp add: n unsigned_minus_1_eq_mask mask_eq_exp_minus_1)
  then have "uint ((- 1 :: 'a word) div 2) = (2 ^ Suc n - 1) div uint (2 :: 'a word)"
    by (simp only: uint_div_distrib)
  also have "\<dots> = 2 ^ n - 1"
    using n by (cases n) simp_all
  finally have "uint (half :: 'a word) = 2 ^ n mod 2 ^ Suc n"
    by (simp only: half_def uint_word_ariths(1) n) simp
  then show ?thesis by (simp add: n)
qed

lemma kBreakpoint_half: "kBreakpoint = (half :: 'a::len word)"
  by (simp add: kBreakpoint_def half_def drop_bit_eq_div)

lemma uint_diff_cases:
  "uint (a - b :: 'a::len word) =
     (if b \<le> a then uint a - uint b else uint a - uint b + 2 ^ LENGTH('a))"
  by (simp add: uint_sub_if' word_le_def)

lemma uint_bounds: "0 \<le> uint (a :: 'a::len word)" "uint a < 2 ^ LENGTH('a)"
  by simp_all

lemma double_half: "2 * (2 :: int) ^ (LENGTH('a::len) - 1) = 2 ^ LENGTH('a)"
  by (metis len_gt_0 power_Suc Suc_pred' power_eq_if len_not_eq_0)

text \<open>The distance that decides every comparison: between minus half and half of the space.\<close>

definition sdist :: "'a::len word \<Rightarrow> 'a word \<Rightarrow> int" where
  "sdist a b =
     (let d = uint a - uint b; h = 2 ^ (LENGTH('a) - 1)
      in if d < - h then d + 2 ^ LENGTH('a) else if h < d then d - 2 ^ LENGTH('a) else d)"

lemmas cmp_defs = AheadOrAt_def AheadOrAt_promoted_def AheadOf_def IsNewer_def IsNewer_promoted_def
  DescendingSeqNumComp_def ForwardDiff_def kBreakpoint_half word_less_def uint_half

lemma uint_window:
  fixes a b :: "'a::len word"
  obtains x y h :: int where "uint a = x" "uint b = y" "2 ^ (LENGTH('a) - Suc 0) = h"
    "2 ^ LENGTH('a) = 2 * h" "0 \<le> x" "x < 2 * h" "0 \<le> y" "y < 2 * h" "0 < h"
  using uint_bounds [of a] uint_bounds [of b] double_half [where 'a = 'a] by fastforce

lemma word_diff_half_iff:
  "(a - b :: 'a::len word) = half \<longleftrightarrow> \<bar>uint a - uint b\<bar> = 2 ^ (LENGTH('a) - 1)"
  by (rule uint_window [of a b]) (auto simp: word_uint_eq_iff uint_half uint_diff_cases word_le_def)

lemma AheadOrAt_sdist: "AheadOrAt a b \<longleftrightarrow> 0 \<le> sdist a b"
  by (rule uint_window [of a b])
    (auto simp: AheadOrAt_def word_diff_half_iff sdist_def Let_def ForwardDiff_def word_less_def
      uint_half uint_diff_cases word_le_def)

lemma AheadOrAt_promoted_sdist: "AheadOrAt_promoted a b \<longleftrightarrow> 0 \<le> sdist a b"
  by (rule uint_window [of a b])
    (auto simp: AheadOrAt_promoted_def sdist_def Let_def ForwardDiff_def word_less_def
      uint_half uint_diff_cases word_le_def)

lemma IsNewer_sdist: "IsNewer a b \<longleftrightarrow> 0 < sdist a b"
  by (rule uint_window [of a b])
    (auto simp: IsNewer_def kBreakpoint_half word_diff_half_iff sdist_def Let_def word_less_def
      uint_half uint_diff_cases word_le_def word_uint_eq_iff)

lemma IsNewer_promoted_sdist: "IsNewer_promoted a b \<longleftrightarrow> 0 < sdist a b"
  by (rule uint_window [of a b])
    (auto simp: IsNewer_promoted_def kBreakpoint_half sdist_def Let_def word_less_def
      uint_half uint_diff_cases word_le_def word_uint_eq_iff)

lemma sdist_0_iff: "sdist a b = 0 \<longleftrightarrow> a = b"
  by (rule uint_window [of a b]) (auto simp: sdist_def Let_def word_uint_eq_iff)

lemma sdist_antisym: "sdist a b = - sdist b a"
  by (rule uint_window [of a b]) (auto simp: sdist_def Let_def)

lemma AheadOf_sdist: "AheadOf a b \<longleftrightarrow> 0 < sdist a b"
  using sdist_0_iff [of a b] by (auto simp: AheadOf_def AheadOrAt_sdist)

section \<open>Ordering\<close>

text \<open>
  Any two distinct sequence numbers are ordered, one way only: of two distinct numbers exactly
  one is ahead of the other, also when they are half the number space apart.
\<close>

theorem AheadOf_total_antisym:
  "a \<noteq> b \<longleftrightarrow> (AheadOf a b \<noteq> AheadOf (b :: 'a::len word) a)"
  using sdist_antisym [of a b] sdist_0_iff [of a b] by (auto simp: AheadOf_sdist)

text \<open>
  The comparison of \<open>sequence_number_util.h\<close> and the one of \<open>sequence_number_compare.h\<close>
  decide the same relation, whether or not the operands are promoted to \<open>int\<close>.
\<close>

theorem AheadOf_IsNewer:
  "IsNewer a b = AheadOf a (b :: 'a::len word) \<and> IsNewer_promoted a b = AheadOf a b \<and>
   AheadOrAt_promoted a b = AheadOrAt a b"
  by (simp add: IsNewer_sdist IsNewer_promoted_sdist AheadOf_sdist AheadOrAt_promoted_sdist
      AheadOrAt_sdist)

lemma sdist_bounds: "\<bar>sdist a (b :: 'a::len word)\<bar> \<le> 2 ^ (LENGTH('a) - 1)"
  by (rule uint_window [of a b]) (auto simp: sdist_def Let_def)

lemma sdist_dvd: "2 ^ LENGTH('a) dvd sdist a (b :: 'a::len word) - (uint a - uint b)"
  by (simp add: sdist_def Let_def)

lemma uint_word_of_int_dvd: "2 ^ LENGTH('a) dvd uint (word_of_int i :: 'a::len word) - i"
  by (simp add: unsigned_of_int take_bit_eq_mod mod_eq_dvd_iff [symmetric])

lemma sdist_window:
  assumes "\<bar>i - j\<bar> < 2 ^ (LENGTH('a) - 1)"
  shows "sdist (word_of_int i :: 'a::len word) (word_of_int j) = i - j"
proof -
  let ?a = "word_of_int i :: 'a word" and ?b = "word_of_int j :: 'a word"
  let ?e = "sdist ?a ?b - (i - j)"
  have "?e = (sdist ?a ?b - (uint ?a - uint ?b)) + (uint ?a - i) - (uint ?b - j)" by simp
  then have dvd: "2 ^ LENGTH('a) dvd ?e"
    by (metis dvd_add dvd_diff sdist_dvd uint_word_of_int_dvd)
  have "\<bar>?e\<bar> < 2 ^ LENGTH('a)"
    using assms sdist_bounds [of ?a ?b] double_half [where 'a = 'a] by linarith
  with dvd have "?e = 0"
    using dvd_imp_le_int [of ?e "2 ^ LENGTH('a)"] by fastforce
  then show ?thesis by simp
qed

text \<open>
  Inside any window of less than half the number space the comparison is the order of the
  integers, wherever the window lies with respect to the wrap-around. This is what makes
  \<open>DescendingSeqNumComp\<close> usable as the key order of the NACK lists.
\<close>

theorem AheadOf_window:
  assumes "\<bar>i - j\<bar> < 2 ^ (LENGTH('a) - 1)"
  shows "(AheadOf (word_of_int i :: 'a::len word) (word_of_int j) \<longleftrightarrow> j < i) \<and>
    (DescendingSeqNumComp (word_of_int i :: 'a word) (word_of_int j) \<longleftrightarrow> i < j)"
  using sdist_window [OF assms] sdist_antisym [of "word_of_int i :: 'a word" "word_of_int j"]
  by (auto simp: AheadOf_sdist DescendingSeqNumComp_def)

theorem AheadOf_window_witness:
  "AheadOf (word_of_int 65540 :: u16) (word_of_int 65530) \<and>
   DescendingSeqNumComp (word_of_int 65530 :: u16) (word_of_int 65540)"
  using AheadOf_window [where 'a = 16, of 65540 65530] AheadOf_window [where 'a = 16, of 65530 65540]
  by simp

section \<open>Unwrapping\<close>

lemma Delta_sdist: "Delta lst new = (if sdist new lst = - (2 ^ (LENGTH('a) - 1))
    then - (2 ^ (LENGTH('a) - 1)) else sdist (new :: 'a::len word) lst)"
  by (rule uint_window [of new lst])
    (auto simp: Delta_def AheadOrAt_sdist sdist_def Let_def ForwardDiff_def uint_diff_cases word_le_def)

lemma Delta_eq_sdist: "Delta lst new = sdist new lst"
  by (simp add: Delta_sdist)

lemma PeekUnwrap_Unwrap: "PeekUnwrap u v = fst (Unwrap u v)"
  by (simp add: PeekUnwrap_def Unwrap_def Let_def)

definition unwrapper_ok :: "'a::len word unwrapper \<Rightarrow> bool" where
  "unwrapper_ok u \<longleftrightarrow>
     (case last_value u of None \<Rightarrow> last_unwrapped u = 0 | Some v \<Rightarrow> word_of_int (last_unwrapped u) = v)"

text \<open>
  The unwrapper keeps its invariant (the unwrapped value is congruent to the last value seen)
  and the value it returns is the representative of the new number nearest to the previous one:
  congruent to it and at most half the number space away.
\<close>

theorem Unwrap_nearest:
  assumes "unwrapper_ok u" and "Unwrap u (v :: 'a::len word) = (x, u')"
  shows "unwrapper_ok u' \<and> word_of_int x = v \<and>
    (last_value u \<noteq> None \<longrightarrow> \<bar>x - last_unwrapped u\<bar> \<le> 2 ^ (LENGTH('a) - 1))"
proof (cases "last_value u")
  case None
  with assms show ?thesis by (auto simp: Unwrap_def unwrapper_ok_def Let_def)
next
  case (Some lv)
  then have x: "x = last_unwrapped u + sdist v lv" and u': "last_value u' = Some v" "last_unwrapped u' = x"
    using assms(2) by (auto simp: Unwrap_def Delta_eq_sdist Let_def)
  have lv: "word_of_int (last_unwrapped u) = lv"
    using assms(1) Some by (simp add: unwrapper_ok_def)
  have "(word_of_int x :: 'a word) = v"
  proof -
    obtain k where "sdist v lv - (uint v - uint lv) = 2 ^ LENGTH('a) * k"
      using sdist_dvd [of v lv] by (auto simp: dvd_def)
    then have "sdist v lv = uint v - uint lv + 2 ^ LENGTH('a) * k" by simp
    then have "(word_of_int (sdist v lv) :: 'a word) = v - lv"
      by (simp add: wi_hom_syms)
    then show ?thesis by (simp add: x lv wi_hom_add [symmetric])
  qed
  then show ?thesis
    using sdist_bounds [of v lv] u' Some by (auto simp: unwrapper_ok_def x)
qed

theorem Unwrap_nearest_witness:
  "unwrapper_ok (\<lparr>last_unwrapped = 65535, last_value = Some (65535 :: u16)\<rparr>) \<and>
   (word_of_int 65538 :: u16) = 2"
  using Unwrap_nearest [of "\<lparr>last_unwrapped = 65535, last_value = Some (65535 :: u16)\<rparr>" 2 65538
      "\<lparr>last_unwrapped = 65538, last_value = Some (2 :: u16)\<rparr>"]
  by (simp add: unwrapper_ok_def Unwrap_def Delta_eq_sdist sdist_def)

text \<open>A counter that never jumps by half the number space or more between two observations.\<close>

fun small_jumps :: "int \<Rightarrow> int \<Rightarrow> int list \<Rightarrow> bool" where
  "small_jumps h t [] = True"
| "small_jumps h t (s # ss) = (\<bar>s - t\<bar> < h \<and> small_jumps h s ss)"

lemma Unwrap_all_tracks:
  assumes "small_jumps (2 ^ (LENGTH('a) - 1)) t ts"
    and "last_value u = Some (word_of_int t :: 'a::len word)" and "last_unwrapped u = t"
  shows "Unwrap_all u (map word_of_int ts) = ts"
  using assms
proof (induction ts arbitrary: t u)
  case Nil
  then show ?case by simp
next
  case (Cons s ss)
  then have "Delta (word_of_int t :: 'a word) (word_of_int s) = s - t"
    by (simp add: Delta_eq_sdist sdist_window)
  with Cons.prems Cons.IH [of s "u\<lparr>last_unwrapped := s, last_value := Some (word_of_int s)\<rparr>"]
  show ?case by (simp add: Unwrap_def Let_def)
qed

text \<open>
  C39: the unwrapper refines an unbounded counter: if the sender's real counter starts in the range
  of the type and moves by less than half the number space between two received packets (in
  either direction), then the unwrapped numbers are exactly the counter's values, however often
  the transmitted number wraps.
\<close>

theorem Unwrap_all_counter:
  assumes "0 \<le> t" and "t < 2 ^ LENGTH('a::len)"
    and "small_jumps (2 ^ (LENGTH('a) - 1)) t ts"
  shows "Unwrap_all unwrapper_init (map word_of_int (t # ts) :: 'a word list) = t # ts"
proof -
  have "uint (word_of_int t :: 'a word) = t"
    using assms(1,2) by (simp add: unsigned_of_int take_bit_int_eq_self)
  then show ?thesis
    using Unwrap_all_tracks [OF assms(3)] by (simp add: Unwrap_def unwrapper_init_def Let_def)
qed

theorem Unwrap_all_counter_witness:
  "small_jumps (2 ^ 15) 65000 [65535, 65536, 98000, 97990] \<and>
   Unwrap_all unwrapper_init
     (map word_of_int [65000, 65535, 65536, 98000, 97990] :: u16 list) =
     [65000, 65535, 65536, 98000, 97990]"
  using Unwrap_all_counter [where 'a = 16, of 65000 "[65535, 65536, 98000, 97990]"] by simp

section \<open>Modular arithmetic\<close>

text \<open>
  \<open>Add<M>\<close> and \<open>Subtract<M>\<close> are addition and subtraction modulo \<open>M\<close> for a first operand
  below \<open>M\<close> and any second operand, although they compute in wrapping \<open>unsigned long\<close>.
\<close>

theorem Add_Subtract_mod:
  assumes "0 < M" and "a < M"
  shows "uint (Add M a b) = (uint a + uint b) mod uint M \<and>
    uint (Subtract M a b) = (uint a - uint b) mod uint M"
proof -
  define m x r where "m = uint M" and "x = uint a" and "r = uint b mod uint M"
  have b: "uint (b mod M) = r" by (simp add: r_def uint_mod_distrib)
  have ineq: "0 \<le> r" "r < m" "0 \<le> x" "x < m" "m < 2 ^ 64"
    using assms uint_lt2p [of M] unfolding m_def x_def r_def by (simp_all add: word_less_def)
  have "(x + uint b) mod m = (x + r) mod m" and "(x - uint b) mod m = (x - r) mod m"
    by (simp_all add: r_def m_def mod_simps)
  then have eqs: "(x + uint b) mod m = (if x + r < m then x + r else x + r - m)"
      "(x - uint b) mod m = (if r \<le> x then x - r else x - r + m)"
    using int_mod_add [of x m r] int_mod_diff [of x m r] ineq by simp_all
  define t where "t = M - b mod M"
  have t: "uint t = m - r"
    using ineq by (simp add: t_def uint_sub_if' b flip: m_def)
  have "uint (Add M a b) = (if x + r < m then x + r else x + r - m)"
    using ineq
    by (simp add: Add_def Let_def word_less_def uint_sub_if' uint_plus_if' t flip: m_def x_def t_def)
  moreover have "uint (Subtract M a b) = (if r \<le> x then x - r else x - r + m)"
    using ineq by (simp add: Subtract_def Let_def word_less_def uint_sub_if' b flip: m_def x_def)
  ultimately show ?thesis by (simp only: eqs flip: m_def x_def)
qed

theorem Add_Subtract_mod_witness:
  "(0 :: u64) < 100 \<and> (97 :: u64) < 100 \<and> uint (Add 100 97 205) = 2 \<and>
   uint (Subtract 100 97 198) = 99"
  using Add_Subtract_mod [of 100 97 205] Add_Subtract_mod [of 100 97 198] by simp

text \<open>
  With a modulus, the comparison of numbers below \<open>M\<close> is decided by the forward distance
  modulo \<open>M\<close>; at the exact half of an even modulus the larger number is ahead.
\<close>

theorem AheadOrAtM_distance:
  assumes "a < M" and "b < M"
  shows "AheadOrAtM M a (b :: 'a::len word) \<longleftrightarrow>
    (let d = (uint a - uint b) mod uint M
     in 2 * d < uint M \<or> 2 * d = uint M \<and> b < a)"
proof -
  define m x y where "m = uint M" and "x = uint a" and "y = uint b"
  have ineq: "0 \<le> y" "y < m" "0 \<le> x" "x < m" "m < 2 ^ LENGTH('a)"
    using assms uint_lt2p [of M] unfolding m_def x_def y_def by (simp_all add: word_less_def)
  have d: "(x - y) mod m = (if y \<le> x then x - y else x - y + m)"
    using ineq by (intro int_mod_diff) auto
  have fwd: "uint (ForwardDiffM M b a) = (x - y) mod m"
    and rev: "uint (ForwardDiffM M a b) = (if x \<le> y then y - x else y - x + m)"
    using ineq d
    by (auto simp: ForwardDiffM_def uint_sub_if' word_le_def simp flip: m_def x_def y_def)
  have "M AND 1 = 0 \<longleftrightarrow> \<not> bit (uint M) 0"
    using and_exp_eq_0_iff_not_bit [of M 0] by (simp add: bit_uint_iff)
  then have even_M: "M AND 1 = 0 \<longleftrightarrow> even m" by (simp add: m_def bit_0)
  have half_M: "uint (M div 2) = m div 2"
  proof (cases "LENGTH('a) = 1")
    case True
    then show ?thesis using ineq by (auto simp: uint_div_distrib m_def)
  next
    case False
    then have "1 < LENGTH('a)" using len_gt_0 [where 'a = 'a] by linarith
    then show ?thesis by (simp add: uint_div_distrib m_def)
  qed
  have minM: "uint (MinDiffM M a b) = min (uint (ForwardDiffM M a b)) (uint (ForwardDiffM M b a))"
    by (simp add: MinDiffM_def ReverseDiffM_def ForwardDiffM_def min_def word_le_def)
  have "AheadOrAtM M a b \<longleftrightarrow>
      (if even m \<and> min (uint (ForwardDiffM M a b)) ((x - y) mod m) = m div 2 then y < x
       else (x - y) mod m \<le> m div 2)"
    by (simp add: AheadOrAtM_def Let_def word_uint_eq_iff [of "MinDiffM M a b"] word_le_def
        word_less_def minM fwd half_M even_M flip: x_def y_def)
  also have "\<dots> \<longleftrightarrow> 2 * ((x - y) mod m) < m \<or> 2 * ((x - y) mod m) = m \<and> y < x"
    unfolding d rev using ineq by (auto simp: min_def elim!: evenE oddE split: if_splits)
  finally show ?thesis by (simp add: Let_def word_less_def flip: m_def x_def y_def)
qed

theorem AheadOrAtM_distance_witness:
  "AheadOrAtM (100 :: u16) 5 97"
  using AheadOrAtM_distance [of "5 :: u16" 100 97] by simp

end
