(* ===== verification/Wire_Codec.thy ===== *)
theory Wire_Codec
  imports Prelude
begin

text \<open>
  The interface between a packet that carries a run of fixed-size items (report blocks, NACK
  items, FIR requests, DLRR entries) and the code of one item. An item provider promises: the
  encoding of an item has the fixed length, reading the encoding of a valid item anywhere inside
  a buffer gives the item back, and reading anywhere with enough bytes left succeeds. The clients
  get the facts about whole runs: \<open>read_items\<close> never leaves the buffer and inverts
  \<open>write_items\<close>.
\<close>

locale item_codec =
  fixes enc :: "'a \<Rightarrow> bytes"
    and rd :: "bytes \<Rightarrow> nat \<Rightarrow> 'a option"
    and len :: nat
    and valid :: "'a \<Rightarrow> bool"
  assumes enc_length: "length (enc x) = len"
    and rd_enc: "valid x \<Longrightarrow> rd (pre @ enc x @ post) (length pre) = Some x"
    and rd_total: "pos + len \<le> length buf \<Longrightarrow> \<exists>x. rd buf pos = Some x \<and> valid x"
begin

lemma enc_run_length: "length (concat (map enc xs)) = len * length xs"
  by (induction xs) (simp_all add: enc_length)

lemma read_run:
  "\<forall>x \<in> set xs. valid x \<Longrightarrow>
     read_items rd len (length xs) (pre @ concat (map enc xs) @ post) (length pre) = Some xs"
proof (induction xs arbitrary: pre)
  case Nil
  then show ?case by simp
next
  case (Cons x xs)
  have "read_items rd len (length xs) ((pre @ enc x) @ concat (map enc xs) @ post)
      (length (pre @ enc x)) = Some xs"
    using Cons.prems by (intro Cons.IH) simp
  then show ?case
    using Cons.prems rd_enc [of x pre "concat (map enc xs) @ post"] by (simp add: enc_length)
qed

lemma read_run_total:
  "pos + len * n \<le> length buf \<Longrightarrow>
     \<exists>xs. read_items rd len n buf pos = Some xs \<and> length xs = n \<and> (\<forall>x \<in> set xs. valid x)"
proof (induction n arbitrary: pos)
  case 0
  then show ?case by simp
next
  case (Suc n)
  obtain x where "rd buf pos = Some x" "valid x"
    using rd_total [of pos buf] Suc.prems by auto
  moreover obtain xs where "read_items rd len n buf (pos + len) = Some xs" "length xs = n"
    "\<forall>x \<in> set xs. valid x"
    using Suc.IH [of "pos + len"] Suc.prems by auto
  ultimately show ?case by simp
qed

lemma write_run:
  "length mid = len * length xs \<Longrightarrow>
     write_items (\<lambda>buf pos x. write_bytes buf pos (enc x)) len xs (pre @ mid @ post) (length pre) =
     Some (pre @ concat (map enc xs) @ post, length pre + len * length xs)"
proof (induction xs arbitrary: pre mid)
  case Nil
  then show ?case by simp
next
  case (Cons x xs)
  obtain m1 m2 where mid: "mid = m1 @ m2" "length m1 = len" "length m2 = len * length xs"
    using Cons.prems by (metis append_take_drop_id diff_add_inverse length_Cons length_append
        length_drop add_diff_cancel_left' mult_Suc_right length_take min.absorb2 le_add1)
  have "write_items (\<lambda>buf pos x. write_bytes buf pos (enc x)) len xs ((pre @ enc x) @ m2 @ post)
      (length (pre @ enc x)) =
    Some ((pre @ enc x) @ concat (map enc xs) @ post, length (pre @ enc x) + len * length xs)"
    using mid(3) by (rule Cons.IH)
  moreover have "write_bytes (pre @ mid @ post) (length pre) (enc x) =
      Some ((pre @ enc x) @ m2 @ post)"
    using write_bytes_append [of "length pre" pre "enc x" m1 "m2 @ post"] mid
    by (simp add: enc_length)
  ultimately show ?case by (simp add: enc_length algebra_simps)
qed

end

end
