(* ===== verification/Rtcp_Header.thy ===== *)
theory Rtcp_Header
  imports Wire_Codec Byte_IO
begin

text \<open>
  The RTCP common header (\<^verbatim>\<open>src/rtcp/rtcp_packet/rtcp_common_header.cpp\<close>), the base class
  \<open>RtcpPacket\<close> (\<^verbatim>\<open>rtcp_packet.cpp\<close>) with its header writer and its fragmentation callback, and
  the sender/media SSRC pair of every feedback packet (\<^verbatim>\<open>rtp_feedback.cpp\<close>).

  \<open>payload_size_\<close> (a \<open>uint32_t\<close>) is a natural number: it is at most 262140, see
  \<open>header_parse_safe\<close>. The pointer \<open>payload_\<close> is the list of the bytes from it to the end of
  the buffer.
\<close>

section \<open>RtcpCommonHeader\<close>

definition kHeaderSizeBytes :: nat where "kHeaderSizeBytes = 4"

record rtcp_common_header =
  packet_type :: u8
  count_or_format :: u8
  padding_size :: u8
  payload_size :: nat
  payload :: bytes

definition header_init :: rtcp_common_header where
  "header_init =
     \<lparr>packet_type = 0, count_or_format = 0, padding_size = 0, payload_size = 0, payload = []\<rparr>"

definition packet_size :: "rtcp_common_header \<Rightarrow> nat" where
  "packet_size h = kHeaderSizeBytes + payload_size h + unat (padding_size h)"

definition NextPacket :: "rtcp_common_header \<Rightarrow> bytes" where
  "NextPacket h = drop (payload_size h + unat (padding_size h)) (payload h)"

text \<open>A null buffer pointer is \<^const>\<open>None\<close>; the result is the number of bytes written.\<close>

definition RtcpCommonHeader_Create ::
  "u8 \<Rightarrow> u8 \<Rightarrow> u8 \<Rightarrow> u8 \<Rightarrow> u16 \<Rightarrow> bytes option \<Rightarrow> (nat \<times> bytes option) option" where
  "RtcpCommonHeader_Create version has_padding fmt payload_type length_in_words_minus_one buffer =
     (case buffer of None \<Rightarrow> Some (0, None)
      | Some buf \<Rightarrow>
          do { buf' \<leftarrow> write_bytes buf 0
                 [push_bit 6 version OR push_bit 5 has_padding OR fmt,
                  payload_type,
                  ucast (drop_bit 8 length_in_words_minus_one),
                  ucast length_in_words_minus_one];
               Some (4, Some buf') })"

definition RtcpCommonHeader_Parse ::
  "rtcp_common_header \<Rightarrow> bytes \<Rightarrow> nat \<Rightarrow> (bool \<times> rtcp_common_header) option" where
  "RtcpCommonHeader_Parse h buffer size_bytes =
     (if size_bytes < kHeaderSizeBytes then Some (False, h)
      else do {
        b0 \<leftarrow> rd8 buffer 0;
        if drop_bit 6 b0 \<noteq> 2 then Some (False, h)
        else do {
          b1 \<leftarrow> rd8 buffer 1; b2 \<leftarrow> rd8 buffer 2; b3 \<leftarrow> rd8 buffer 3;
          let has_padding = (b0 AND 0x20 \<noteq> 0);
          let h1 = h\<lparr>count_or_format := b0 AND 0x1F, packet_type := b1,
                     payload_size := unat (be16_of b2 b3) * 4,
                     payload := drop kHeaderSizeBytes buffer, padding_size := 0\<rparr>;
          if size_bytes < kHeaderSizeBytes + payload_size h1 then Some (False, h1)
          else if \<not> has_padding then Some (True, h1)
          else if payload_size h1 = 0 then Some (False, h1)
          else do {
            pad \<leftarrow> rd8 (payload h1) (payload_size h1 - 1);
            let h2 = h1\<lparr>padding_size := pad\<rparr>;
            if pad = 0 then Some (False, h2)
            else if payload_size h2 < unat pad then Some (False, h2)
            else Some (True, h2\<lparr>payload_size := payload_size h2 - unat pad\<rparr>)
          }
        }
      })"

section \<open>RtcpPacket\<close>

definition kHeaderLength :: nat where "kHeaderLength = 4"

text \<open>
  Writing a packet goes through a buffer, a write position and the list of the datagrams that the
  callback has received so far.
\<close>

record writer =
  wbuf :: bytes
  windex :: nat
  sent :: "bytes list"

definition OnBufferFull :: "writer \<Rightarrow> bool \<times> writer" where
  "OnBufferFull w =
     (if windex w = 0 then (False, w)
      else (True, w\<lparr>sent := sent w @ [take (windex w) (wbuf w)], windex := 0\<rparr>))"

text \<open>The two \<open>LOG_FATAL\<close> calls only log. \<open>length\<close> is a \<open>size_t\<close>; its low 16 bits are written.\<close>

definition CreateHeader :: "nat \<Rightarrow> u8 \<Rightarrow> nat \<Rightarrow> bool \<Rightarrow> writer \<Rightarrow> writer option" where
  "CreateHeader fmt pt len padding w =
     do { buf \<leftarrow> write_bytes (wbuf w) (windex w)
            [push_bit 6 2 OR (if padding then push_bit 5 1 else 0) OR of_nat fmt,
             pt, of_nat (len div 256), of_nat len];
          Some (w\<lparr>wbuf := buf, windex := windex w + kHeaderLength\<rparr>) }"

definition HeaderLength :: "nat \<Rightarrow> nat" where
  "HeaderLength block_length =
     (if block_length = 0 \<or> block_length mod 4 \<noteq> 0 then 2 ^ 64 - 1
      else (block_length - kHeaderLength) div 4)"

section \<open>RtpFeedback\<close>

definition kCommonFeedbackLength :: nat where "kCommonFeedbackLength = 8"

definition ParseCommonFeedback :: "bytes \<Rightarrow> (u32 \<times> u32) option" where
  "ParseCommonFeedback pl =
     do { sender \<leftarrow> ReadBigEndian4 pl; media \<leftarrow> ReadBigEndian4 (drop 4 pl); Some (sender, media) }"

definition CreateCommonFeedback :: "u32 \<Rightarrow> u32 \<Rightarrow> writer \<Rightarrow> writer option" where
  "CreateCommonFeedback sender media w =
     do { b1 \<leftarrow> write_bytes (wbuf w) (windex w) (be32_bytes sender);
          b2 \<leftarrow> write_bytes b1 (windex w + 4) (be32_bytes media);
          Some (w\<lparr>wbuf := b2, windex := windex w + kCommonFeedbackLength\<rparr>) }"

lemmas rtcp_consts [simp] =
  kHeaderSizeBytes_def kHeaderLength_def kCommonFeedbackLength_def

section \<open>Reading through the byte readers\<close>

lemma ReadBigEndian4_rd32 [simp]: "(ReadBigEndian4 data :: u32 option) = rd32 data 0"
  by (simp add: ReadBigEndian4_def rd32_def be32_of_def numeral_eq_Suc)

lemma ReadBigEndian2_rd16 [simp]: "(ReadBigEndian2 data :: u16 option) = rd16 data 0"
  by (simp add: ReadBigEndian2_def rd16_def be16_of_def)

lemma ParseCommonFeedback_total:
  "8 \<le> length pl \<Longrightarrow> \<exists>s m. ParseCommonFeedback pl = Some (s, m)"
  by (simp add: ParseCommonFeedback_def rd32_in)

lemma ParseCommonFeedback_bytes [wire_simps]:
  "ParseCommonFeedback (be32_bytes s @ be32_bytes m @ post) = Some (s, m)"
  using rd32_bytes [of 0 "[]" s "be32_bytes m @ post"] rd32_bytes [of 0 "[]" m post]
  by (simp add: ParseCommonFeedback_def)

section \<open>Header bytes\<close>

definition hdr4 :: "u8 \<Rightarrow> u8 \<Rightarrow> u16 \<Rightarrow> bytes" where
  "hdr4 fmt pt len = [push_bit 6 2 OR fmt, pt] @ be16_bytes len"

lemma length_hdr4 [simp]: "length (hdr4 fmt pt len) = 4"
  by (simp add: hdr4_def)

lemma u8_small_bits: "x < 32 \<Longrightarrow> bit (x :: u8) n \<Longrightarrow> n < 5"
proof -
  assume "x < 32" and "bit x n"
  then have "take_bit 5 x = x" by (simp add: take_bit_eq_mod mod_word_less)
  with \<open>bit x n\<close> show "n < 5" by (metis bit_take_bit_iff)
qed

lemma header_byte0:
  assumes "fmt < (32 :: u8)"
  shows "drop_bit 6 (push_bit 6 2 OR fmt) = 2" "(push_bit 6 2 OR fmt) AND 0x20 = 0"
    "(push_bit 6 2 OR fmt) AND 0x1F = fmt"
proof -
  have c: "(0x1F :: u8) = mask 5"
    by (simp add: mask_eq_exp_minus_1)
  have hi: "\<not> bit fmt n" if "5 \<le> n" for n using u8_small_bits [OF assms, of n] that by auto
  show "drop_bit 6 (push_bit 6 2 OR fmt) = 2"
    by (rule bit_word_eqI) (auto simp: bit_simps hi)
  show "(push_bit 6 2 OR fmt) AND 0x20 = 0"
    unfolding u8_and_32 by (simp add: bit_simps hi)
  have "(push_bit 6 v OR fmt) AND 0x1F = fmt" for v
    unfolding c by (rule bit_word_eqI) (auto simp: bit_simps dest: u8_small_bits [OF assms])
  then show "(push_bit 6 2 OR fmt) AND 0x1F = fmt" .
qed

lemma parse_hdr4:
  assumes "fmt < 32" and "4 + 4 * unat len \<le> size_bytes"
  shows "RtcpCommonHeader_Parse h (hdr4 fmt pt len @ body) size_bytes =
    Some (True, h\<lparr>count_or_format := fmt, packet_type := pt, payload_size := 4 * unat len,
                  payload := body, padding_size := 0\<rparr>)"
  using assms header_byte0 [OF assms(1)]
  by (simp add: RtcpCommonHeader_Parse_def hdr4_def be16_bytes_def Let_def wire_simps mult.commute)

section \<open>Properties\<close>

lemma header_parse_facts:
  assumes "size_bytes \<le> length buffer"
  shows "\<exists>ok h'. RtcpCommonHeader_Parse h buffer size_bytes = Some (ok, h') \<and>
    (ok \<longrightarrow> packet_size h' \<le> size_bytes \<and> packet_size h' mod 4 = 0 \<and>
       payload h' = drop 4 buffer \<and> payload_size h' + unat (padding_size h') \<le> 262140 \<and>
       payload_size h' + unat (padding_size h') \<le> length (payload h') \<and> unat (count_or_format h') < 32)"
proof (cases "size_bytes < 4")
  case True
  then show ?thesis by (auto simp: RtcpCommonHeader_Parse_def)
next
  case False
  with assms have len: "4 \<le> length buffer" by simp
  define n where "n = unat (be16_of (buffer ! 2) (buffer ! 3))"
  have n: "n < 65536" using unsigned_less [of "be16_of (buffer ! 2) (buffer ! 3)", where 'a = nat] by (simp add: n_def)
  have fmt: "unat ((buffer ! 0) AND 0x1F) < 32"
  proof -
    have "(buffer ! 0) AND 0x1F \<le> 0x1F" by (rule word_and_le1)
    then show ?thesis by (simp add: word_le_nat_alt)
  qed
  have rds: "rd8 buffer 0 = Some (buffer ! 0)" "rd8 buffer (Suc 0) = Some (buffer ! Suc 0)"
      "rd8 buffer 2 = Some (buffer ! 2)" "rd8 buffer 3 = Some (buffer ! 3)"
    using len by (auto simp: rd8_def)
  note unfold = RtcpCommonHeader_Parse_def rds Let_def packet_size_def
  consider "drop_bit 6 (buffer ! 0) \<noteq> 2"
    | "drop_bit 6 (buffer ! 0) = 2" "size_bytes < 4 + n * 4"
    | "drop_bit 6 (buffer ! 0) = 2" "4 + n * 4 \<le> size_bytes" "\<not> bit (buffer ! 0) 5"
    | "drop_bit 6 (buffer ! 0) = 2" "4 + n * 4 \<le> size_bytes" "bit (buffer ! 0) 5" "n = 0"
    | "drop_bit 6 (buffer ! 0) = 2" "4 + n * 4 \<le> size_bytes" "bit (buffer ! 0) 5" "0 < n"
    by linarith
  then show ?thesis
  proof cases
    case 5
    define pad where "pad = buffer ! (4 + (n * 4 - 1))"
    have "rd8 buffer (4 + (n * 4 - 1)) = Some pad"
      using 5 assms unfolding pad_def by (intro rd8_in) linarith
    with 5 False show ?thesis using assms n fmt
      by (cases "pad = 0"; cases "n * 4 < unat pad") (simp_all add: unfold ex_bool_eq flip: n_def)
  qed (use False assms n fmt in \<open>simp_all add: unfold ex_bool_eq flip: n_def\<close>)
qed

text \<open>
  Parsing the RTCP header of an arbitrary datagram never reads outside it, and a header that
  is accepted describes a packet that lies inside the datagram: header, payload and padding fit
  into the given size, and the payload fits into 16 bits worth of words. Rejections are the
  code's own.
\<close>

theorem header_parse_safe:
  assumes "size_bytes \<le> length buffer"
  shows "\<exists>ok h'. RtcpCommonHeader_Parse h buffer size_bytes = Some (ok, h') \<and>
    (ok \<longrightarrow> packet_size h' \<le> size_bytes \<and> packet_size h' mod 4 = 0 \<and>
       payload h' = drop 4 buffer \<and> payload_size h' + unat (padding_size h') \<le> 262140 \<and>
       payload_size h' + unat (padding_size h') \<le> length (payload h') \<and> unat (count_or_format h') < 32)"
  using assms by (rule header_parse_facts)

theorem header_parse_safe_witness:
  "\<exists>ok h'. RtcpCommonHeader_Parse header_init [0xA1, 200, 0, 1, 9, 9, 9, 2] 8 = Some (ok, h')"
  using header_parse_safe [of 8 "[0xA1, 200, 0, 1, 9, 9, 9, 2]" header_init] by auto

text \<open>
  A header written by \<open>RtcpCommonHeader::Create\<close> with version 2, no padding and a count
  below 32 is accepted by \<open>Parse\<close> on any datagram that holds the declared number of words, with
  the written fields, and the payload starts right behind the four header bytes.
\<close>

theorem header_create_parse:
  assumes "length buf \<ge> 4" and "fmt < 32" and "4 + 4 * unat len \<le> length buf"
  shows "\<exists>buf'. RtcpCommonHeader_Create 2 0 fmt pt len (Some buf) = Some (4, Some buf') \<and>
    drop 4 buf' = drop 4 buf \<and>
    RtcpCommonHeader_Parse h buf' (length buf) =
      Some (True, h\<lparr>count_or_format := fmt, packet_type := pt, payload_size := 4 * unat len,
                    payload := drop 4 buf, padding_size := 0\<rparr>)"
proof -
  have hdr: "[push_bit 6 2 OR push_bit 5 0 OR fmt, pt, ucast (drop_bit 8 len), ucast len] =
      hdr4 fmt pt len"
    by (simp add: hdr4_def be16_bytes_def)
  have "RtcpCommonHeader_Create 2 0 fmt pt len (Some buf) =
      Some (4, Some (hdr4 fmt pt len @ drop 4 buf))"
    using assms(1) unfolding RtcpCommonHeader_Create_def hdr by (simp add: write_bytes_def)
  with assms show ?thesis by (simp add: parse_hdr4)
qed

theorem header_create_parse_witness:
  "\<exists>buf'. RtcpCommonHeader_Create 2 0 3 201 1 (Some [0, 0, 0, 0, 1, 2, 3, 4]) = Some (4, Some buf') \<and>
    drop 4 buf' = [1, 2, 3, 4] \<and>
    RtcpCommonHeader_Parse header_init buf' (length [0, 0, 0, 0, 1, 2, 3, 4 :: u8]) =
      Some (True, header_init\<lparr>count_or_format := 3, packet_type := 201, payload_size := 4,
                    payload := [1, 2, 3, 4], padding_size := 0\<rparr>)"
  using header_create_parse [of "[0, 0, 0, 0, 1, 2, 3, 4]" 3 1 201 header_init] by simp

section \<open>The base class writer\<close>

lemma CreateHeader_hdr4 [wire_simps]:
  assumes "wbuf w = pre @ mid @ post" and "windex w = length pre" and "length mid = 4"
    and "len < 65536"
  shows "CreateHeader fmt pt len False w =
    Some (w\<lparr>wbuf := pre @ hdr4 (of_nat fmt) pt (of_nat len) @ post, windex := length pre + 4\<rparr>)"
proof -
  have hi: "(of_nat (len div 256) :: u8) = ucast (drop_bit 8 (of_nat len :: u16))"
    using assms(4)
    by (simp add: word_unat_eq_iff unsigned_ucast_eq unsigned_drop_bit_eq drop_bit_eq_div
        unsigned_of_nat take_bit_eq_mod unat_div_distrib)
  have lo: "(of_nat len :: u8) = ucast (of_nat len :: u16)"
    by (simp add: word_unat_eq_iff unsigned_ucast_eq unsigned_of_nat take_bit_take_bit)
  have "[push_bit 6 2 OR of_nat fmt, pt, of_nat (len div 256), of_nat len] =
      hdr4 (of_nat fmt) pt (of_nat len)"
    unfolding hi lo by (simp add: hdr4_def be16_bytes_def)
  then show ?thesis
    using assms by (simp add: CreateHeader_def write_bytes_append)
qed

lemma CreateCommonFeedback_bytes [wire_simps]:
  assumes "wbuf w = pre @ mid @ post" and "windex w = length pre" and "length mid = 8"
  shows "CreateCommonFeedback s m w =
    Some (w\<lparr>wbuf := pre @ be32_bytes s @ be32_bytes m @ post, windex := length pre + 8\<rparr>)"
proof -
  obtain m1 m2 where "mid = m1 @ m2" "length m1 = 4" "length m2 = 4"
    using split_at [of 4 mid] assms(3) by auto
  then show ?thesis
    using write_bytes_append [of "length pre" pre "be32_bytes s" m1 "m2 @ post"]
      write_bytes_append [of "length pre + 4" "pre @ be32_bytes s" "be32_bytes m" m2 post] assms
    by (simp add: CreateCommonFeedback_def)
qed

text \<open>
  Every feedback packet is a header, the two SSRCs and a run of items; what \<open>Create\<close> of such a
  packet writes, for any item code.
\<close>

definition feedback_bytes :: "('a \<Rightarrow> bytes) \<Rightarrow> nat \<Rightarrow> u8 \<Rightarrow> nat \<Rightarrow> u32 \<Rightarrow> u32 \<Rightarrow> 'a list \<Rightarrow> bytes" where
  "feedback_bytes enc fmt pt words s m items =
     hdr4 (of_nat fmt) pt (of_nat words) @ be32_bytes s @ be32_bytes m @ concat (map enc items)"

context item_codec
begin

lemma length_feedback_bytes: "length (feedback_bytes enc fmt pt words s m items) = 12 + len * length items"
  by (simp add: feedback_bytes_def enc_run_length)

lemma feedback_write:
  assumes "wbuf w = pre @ mid @ post" and "windex w = length pre"
    and "length mid = 12 + len * length items" and "words < 65536"
  shows "\<exists>w1 w2. CreateHeader fmt pt words False w = Some w1 \<and>
    CreateCommonFeedback s m w1 = Some w2 \<and>
    write_items (\<lambda>buf pos x. write_bytes buf pos (enc x)) len items (wbuf w2) (windex w2) =
      Some (pre @ feedback_bytes enc fmt pt words s m items @ post, length pre + (12 + len * length items)) \<and>
    sent w2 = sent w"
proof -
  obtain m1 m2 m3 where mid: "mid = m1 @ m2 @ m3"
    "length m1 = 4" "length m2 = 8" "length m3 = len * length items"
    using split_at [of 4 mid] split_at [of 8 "drop 4 mid"] assms(3) by (auto simp: append_eq_conv_conj)
  let ?h = "hdr4 (of_nat fmt) pt (of_nat words) :: bytes"
  let ?w1 = "w\<lparr>wbuf := pre @ ?h @ m2 @ m3 @ post, windex := length pre + 4\<rparr>"
  let ?w2 = "w\<lparr>wbuf := pre @ ?h @ be32_bytes s @ be32_bytes m @ m3 @ post, windex := length pre + 12\<rparr>"
  have "CreateHeader fmt pt words False w = Some ?w1"
    using CreateHeader_hdr4 [of w pre m1 "m2 @ m3 @ post"] assms mid by simp
  moreover have "CreateCommonFeedback s m ?w1 = Some ?w2"
    using CreateCommonFeedback_bytes [of ?w1 "pre @ ?h" m2 "m3 @ post"] mid by simp
  moreover have "write_items (\<lambda>buf pos x. write_bytes buf pos (enc x)) len items (wbuf ?w2) (windex ?w2) =
    Some (pre @ feedback_bytes enc fmt pt words s m items @ post, length pre + (12 + len * length items))"
    using write_run [of m3 items "pre @ ?h @ be32_bytes s @ be32_bytes m" post] mid(4)
    by (simp add: feedback_bytes_def)
  ultimately show ?thesis by fastforce
qed

lemma feedback_parse:
  assumes "fmt < 32" and "length items * len = 4 * k" and "k < 65534" and "\<forall>x \<in> set items. valid x"
  shows "\<exists>h. RtcpCommonHeader_Parse h0 (feedback_bytes enc fmt pt (2 + k) s m items @ rest)
        (12 + 4 * k + length rest) = Some (True, h) \<and>
      packet_size h = 12 + 4 * k \<and> payload_size h = 8 + 4 * k \<and> NextPacket h = rest \<and>
      packet_type h = pt \<and> count_or_format h = of_nat fmt \<and>
      ParseCommonFeedback (payload h) = Some (s, m) \<and>
      read_items rd len (length items) (payload h) 8 = Some items"
proof -
  let ?body = "be32_bytes s @ be32_bytes m @ concat (map enc items) @ rest"
  have u: "unat (of_nat (2 + k) :: u16) = 2 + k"
    using assms(3) by (intro unat_of_nat_small) simp
  have f: "(of_nat fmt :: u8) < 32"
    using assms(1) by (simp add: word_less_nat_alt unat_of_nat_small)
  have "RtcpCommonHeader_Parse h0 (hdr4 (of_nat fmt) pt (of_nat (2 + k)) @ ?body) (12 + 4 * k + length rest) =
    Some (True, h0\<lparr>count_or_format := of_nat fmt, packet_type := pt,
      payload_size := 4 * (2 + k), payload := ?body, padding_size := 0\<rparr>)"
    by (subst parse_hdr4) (simp_all only: u f, simp_all)
  moreover have "read_items rd len (length items) ?body 8 = Some items"
    using read_run [OF assms(4), of "be32_bytes s @ be32_bytes m" rest] by simp
  moreover have "length (concat (map enc items)) = 4 * k"
    using assms(2) by (simp add: enc_run_length mult.commute)
  ultimately show ?thesis
    by (simp add: feedback_bytes_def packet_size_def NextPacket_def ParseCommonFeedback_bytes)
qed

end

end
