(* ===== verification/Rtcp_Reports.thy ===== *)
theory Rtcp_Reports
  imports Rtcp_Header
begin

text \<open>
  RTCP report blocks, receiver reports and sender reports
  (\<^verbatim>\<open>src/rtcp/rtcp_packet/rtcp_report_block.{h,cpp}\<close>, \<^verbatim>\<open>receiver_report.{h,cpp}\<close>,
  \<^verbatim>\<open>sender_report.{h,cpp}\<close>). The object's fields are a record, \<open>Build\<close> and \<open>Parse\<close> pass it
  through. The member \<open>buffer_\<close> is \<^const>\<open>None\<close> for the null pointer.
\<close>

section \<open>Report block\<close>

record report_block =
  sender_ssrc :: u32
  source_ssrc :: u32
  fraction_lost :: u8
  cumulative_lost :: int \<comment> \<open>\<open>int32_t\<close>\<close>
  extended_high_seq_num :: u32
  jitter :: u32
  last_sr :: u32
  delay_since_last_sr :: u32
  report_block_timestamp_utc :: int
  report_block_timestamp :: int
  last_rtt :: int
  sum_rtt :: int
  num_rtts :: nat

definition report_block_init :: report_block where
  "report_block_init =
     \<lparr>sender_ssrc = 0, source_ssrc = 0, fraction_lost = 0, cumulative_lost = 0,
      extended_high_seq_num = 0, jitter = 0, last_sr = 0, delay_since_last_sr = 0,
      report_block_timestamp_utc = 0, report_block_timestamp = 0, last_rtt = 0, sum_rtt = 0,
      num_rtts = 0\<rparr>"

definition kLength :: nat where "kLength = 24"

definition SetCumulativeLost :: "report_block \<Rightarrow> int \<Rightarrow> bool \<times> report_block" where
  "SetCumulativeLost rb lost =
     (if lost \<ge> 2 ^ 23 \<or> lost < - (2 ^ 23) then (False, rb)
      else (True, rb\<lparr>cumulative_lost := lost\<rparr>))"

definition report_block_bytes :: "report_block \<Rightarrow> bytes" where
  "report_block_bytes rb =
     be32_bytes (source_ssrc rb) @
     [fraction_lost rb,
      word_of_int (drop_bit 16 (cumulative_lost rb)),
      word_of_int (drop_bit 8 (cumulative_lost rb)),
      word_of_int (cumulative_lost rb)] @
     be32_bytes (extended_high_seq_num rb) @ be32_bytes (jitter rb) @
     be32_bytes (last_sr rb) @ be32_bytes (delay_since_last_sr rb)"

definition ReportBlock_Create :: "bytes \<Rightarrow> nat \<Rightarrow> report_block \<Rightarrow> bytes option" where
  "ReportBlock_Create buffer pos rb = write_bytes buffer pos (report_block_bytes rb)"

definition ReportBlock_Parse :: "report_block \<Rightarrow> bytes \<Rightarrow> nat \<Rightarrow> report_block option" where
  "ReportBlock_Parse rb buffer pos =
     do { src \<leftarrow> rd32 buffer pos;
          fl \<leftarrow> rd8 buffer (pos + 4);
          c5 \<leftarrow> rd8 buffer (pos + 5); c6 \<leftarrow> rd8 buffer (pos + 6); c7 \<leftarrow> rd8 buffer (pos + 7);
          let c = (push_bit 16 (ucast c5) OR push_bit 8 (ucast c6) OR ucast c7 :: u32);
          let c' = (if c AND 0x800000 \<noteq> 0 then c OR 0xFF000000 else c);
          ehs \<leftarrow> rd32 buffer (pos + 8);
          j \<leftarrow> rd32 buffer (pos + 12);
          lsr \<leftarrow> rd32 buffer (pos + 16);
          dlsr \<leftarrow> rd32 buffer (pos + 20);
          Some (rb\<lparr>source_ssrc := src, fraction_lost := fl, cumulative_lost := sint c',
                   extended_high_seq_num := ehs, jitter := j, last_sr := lsr,
                   delay_since_last_sr := dlsr\<rparr>) }"

definition SetReportBlock :: "report_block \<Rightarrow> u32 \<Rightarrow> report_block \<Rightarrow> int \<Rightarrow> int \<Rightarrow> report_block" where
  "SetReportBlock rb ssrc other utc now =
     rb\<lparr>sender_ssrc := ssrc, source_ssrc := source_ssrc other,
        fraction_lost := fraction_lost other, cumulative_lost := cumulative_lost other,
        extended_high_seq_num := extended_high_seq_num other, jitter := jitter other,
        report_block_timestamp_utc := utc, report_block_timestamp := now\<rparr>"

definition AddRoundTripTimeSample :: "report_block \<Rightarrow> int \<Rightarrow> report_block" where
  "AddRoundTripTimeSample rb rtt =
     rb\<lparr>last_rtt := rtt, sum_rtt := sum_rtt rb + rtt, num_rtts := num_rtts rb + 1\<rparr>"

definition HasRtt :: "report_block \<Rightarrow> bool" where
  "HasRtt rb \<longleftrightarrow> num_rtts rb \<noteq> 0"

section \<open>Receiver report\<close>

definition DEFAULT_RTCP_HEADER_SIZE :: nat where "DEFAULT_RTCP_HEADER_SIZE = 4"
definition DEFAULT_RR_SIZE :: nat where "DEFAULT_RR_SIZE = 4"
definition DEFAULT_SR_SIZE :: nat where "DEFAULT_SR_SIZE = 24"

record receiver_report =
  rr_sender_ssrc :: u32
  rr_header :: rtcp_common_header
  rr_reports :: "report_block list"
  rr_buffer :: "bytes option"
  rr_size :: nat

definition RR_SetReportBlock :: "receiver_report \<Rightarrow> report_block \<Rightarrow> receiver_report" where
  "RR_SetReportBlock rr rb = rr\<lparr>rr_reports := rr_reports rr @ [rb]\<rparr>"

definition RR_SetReportBlocks :: "receiver_report \<Rightarrow> report_block list \<Rightarrow> receiver_report" where
  "RR_SetReportBlocks rr rbs = rr\<lparr>rr_reports := rbs\<rparr>"

text \<open>
  \<open>new uint8_t[n]\<close> leaves the bytes unspecified; \<open>fresh\<close> is that content. The result is the
  returned pointer (\<^const>\<open>None\<close> for \<open>nullptr\<close>) with the bytes behind it, and the object.
\<close>

definition RR_Build :: "(nat \<Rightarrow> bytes) \<Rightarrow> receiver_report \<Rightarrow> (bytes option \<times> receiver_report) option" where
  "RR_Build fresh rr =
     (if length (rr_reports rr) > 0x1f then Some (None, rr)
      else do {
        let buffer_size = DEFAULT_RTCP_HEADER_SIZE + DEFAULT_RR_SIZE + length (rr_reports rr) * kLength;
        let rr1 = (if buffer_size \<noteq> rr_size rr
                   then rr\<lparr>rr_buffer := Some (fresh buffer_size), rr_size := buffer_size\<rparr> else rr);
        (pos, buf) \<leftarrow> RtcpCommonHeader_Create 2 0 (of_nat (length (rr_reports rr))) 201
                       (of_nat ((buffer_size - DEFAULT_RTCP_HEADER_SIZE) div 4)) (rr_buffer rr1);
        b0 \<leftarrow> buf;
        b1 \<leftarrow> write_bytes b0 pos (be32_bytes (rr_sender_ssrc rr));
        (b2, _) \<leftarrow> write_items ReportBlock_Create kLength (rr_reports rr) b1 (pos + 4);
        Some (Some b2, rr1\<lparr>rr_buffer := Some b2\<rparr>)
      })"

definition RR_Parse :: "receiver_report \<Rightarrow> rtcp_common_header \<Rightarrow> (nat \<times> receiver_report) option" where
  "RR_Parse rr packet =
     (let rr0 = rr\<lparr>rr_reports := []\<rparr>;
          report_count = unat (count_or_format packet);
          required = DEFAULT_RR_SIZE + report_count * kLength
      in if payload_size packet < required then Some (0, rr0)
         else do {
           ssrc \<leftarrow> rd32 (payload packet) 0;
           rbs \<leftarrow> read_items (ReportBlock_Parse report_block_init) kLength report_count (payload packet) 4;
           Some (4 + report_count * kLength,
                 rr0\<lparr>rr_header := packet, rr_sender_ssrc := ssrc, rr_reports := rbs\<rparr>)
         })"

section \<open>Sender report\<close>

record sender_info =
  si_sender_ssrc :: u32
  ntp_ts_msw :: u32
  ntp_ts_lsw :: u32
  rtp_ts :: u32
  sender_packet_count :: u32
  sender_octet_count :: u32

record sender_report =
  sr_sender_ssrc :: u32
  sr_header :: rtcp_common_header
  sr_info :: sender_info
  sr_reports :: "report_block list"
  sr_buffer :: "bytes option"
  sr_size :: nat

definition SR_SetSenderSsrc :: "sender_report \<Rightarrow> u32 \<Rightarrow> sender_report" where
  "SR_SetSenderSsrc sr ssrc =
     sr\<lparr>sr_sender_ssrc := ssrc, sr_info := (sr_info sr)\<lparr>si_sender_ssrc := ssrc\<rparr>\<rparr>"

definition SR_SetNtpTimestamp :: "sender_report \<Rightarrow> u64 \<Rightarrow> sender_report" where
  "SR_SetNtpTimestamp sr ntp =
     sr\<lparr>sr_info := (sr_info sr)\<lparr>ntp_ts_msw := ucast (drop_bit 32 ntp), ntp_ts_lsw := ucast ntp\<rparr>\<rparr>"

definition SR_NtpTimestamp :: "sender_report \<Rightarrow> u64" where
  "SR_NtpTimestamp sr = push_bit 32 (ucast (ntp_ts_msw (sr_info sr))) OR ucast (ntp_ts_lsw (sr_info sr))"

definition SR_CompactNtpTimestamp :: "sender_report \<Rightarrow> u32" where
  "SR_CompactNtpTimestamp sr =
     push_bit 16 (ntp_ts_msw (sr_info sr)) OR drop_bit 16 (ntp_ts_lsw (sr_info sr))"

definition SR_SetReportBlock :: "sender_report \<Rightarrow> report_block \<Rightarrow> sender_report" where
  "SR_SetReportBlock sr rb = sr\<lparr>sr_reports := sr_reports sr @ [rb]\<rparr>"

definition sender_info_bytes :: "sender_info \<Rightarrow> bytes" where
  "sender_info_bytes si =
     be32_bytes (si_sender_ssrc si) @ be32_bytes (ntp_ts_msw si) @ be32_bytes (ntp_ts_lsw si) @
     be32_bytes (rtp_ts si) @ be32_bytes (sender_packet_count si) @ be32_bytes (sender_octet_count si)"

definition SR_Build :: "(nat \<Rightarrow> bytes) \<Rightarrow> sender_report \<Rightarrow> (bytes option \<times> sender_report) option" where
  "SR_Build fresh sr =
     (if length (sr_reports sr) > 0x1f then Some (None, sr)
      else do {
        let buffer_size = DEFAULT_RTCP_HEADER_SIZE + DEFAULT_SR_SIZE + length (sr_reports sr) * kLength;
        let sr1 = (if buffer_size \<noteq> sr_size sr
                   then sr\<lparr>sr_buffer := Some (fresh buffer_size), sr_size := buffer_size\<rparr> else sr);
        (pos, buf) \<leftarrow> RtcpCommonHeader_Create 2 0 (of_nat (length (sr_reports sr))) 200
                       (of_nat ((buffer_size - DEFAULT_RTCP_HEADER_SIZE) div 4)) (sr_buffer sr1);
        b0 \<leftarrow> buf;
        b1 \<leftarrow> write_bytes b0 pos (sender_info_bytes (sr_info sr));
        (b2, _) \<leftarrow> write_items ReportBlock_Create kLength (sr_reports sr) b1 (pos + 24);
        Some (Some b2, sr1\<lparr>sr_buffer := Some b2\<rparr>)
      })"

definition SR_Parse :: "sender_report \<Rightarrow> rtcp_common_header \<Rightarrow> (bool \<times> sender_report) option" where
  "SR_Parse sr packet =
     (let sr0 = sr\<lparr>sr_reports := []\<rparr>;
          report_count = unat (count_or_format packet);
          required = DEFAULT_SR_SIZE + report_count * kLength;
          p = payload packet
      in if payload_size packet < required then Some (False, sr0)
         else do {
           ssrc \<leftarrow> rd32 p 0; msw \<leftarrow> rd32 p 4; lsw \<leftarrow> rd32 p 8; ts \<leftarrow> rd32 p 12;
           pc \<leftarrow> rd32 p 16; oc \<leftarrow> rd32 p 20;
           rbs \<leftarrow> read_items (ReportBlock_Parse report_block_init) kLength report_count p 24;
           let pos = 24 + report_count * kLength;
           Some (pos = required,
                 sr0\<lparr>sr_header := packet, sr_sender_ssrc := ssrc,
                     sr_info := \<lparr>si_sender_ssrc = ssrc, ntp_ts_msw = msw, ntp_ts_lsw = lsw,
                       rtp_ts = ts, sender_packet_count = pc, sender_octet_count = oc\<rparr>,
                     sr_reports := rbs\<rparr>)
         })"

lemmas report_consts [simp] =
  kLength_def DEFAULT_RTCP_HEADER_SIZE_def DEFAULT_RR_SIZE_def DEFAULT_SR_SIZE_def

section \<open>The 24-bit loss counter\<close>

lemma sign_extend24:
  fixes c :: u32
  assumes "\<And>n. 24 \<le> n \<Longrightarrow> \<not> bit c n"
  shows "sint (if c AND 0x800000 \<noteq> 0 then c OR 0xFF000000 else c) = signed_take_bit 23 (uint c)"
proof -
  have "(0x800000 :: u32) = 2 ^ 23" by simp
  then have t: "c AND 0x800000 = 0 \<longleftrightarrow> \<not> bit c 23"
    by (simp only: and_exp_eq_0_iff_not_bit)
  have m: "(0xFF000000 :: u32) = NOT (mask 24)"
    by (simp add: mask_eq_exp_minus_1)
  show ?thesis
  proof (rule bit_eqI)
    fix n
    show "bit (sint (if c AND 0x800000 \<noteq> 0 then c OR 0xFF000000 else c)) n =
        bit (signed_take_bit 23 (uint c)) n"
      using assms [of n] assms [of 31]
      by (cases "n = 23"; cases "n < 24"; cases "n < 31")
        (auto simp: t m bit_simps min_def)
  qed
qed

lemma loss_bytes_roundtrip:
  assumes "- (2 ^ 23) \<le> k" and "k < 2 ^ 23"
  defines "c \<equiv> push_bit 16 (ucast (word_of_int (drop_bit 16 k) :: u8)) OR
    push_bit 8 (ucast (word_of_int (drop_bit 8 k) :: u8)) OR ucast (word_of_int k :: u8) :: u32"
  shows "sint (if c AND 0x800000 \<noteq> 0 then c OR 0xFF000000 else c) = k"
proof -
  have bits: "bit c n \<longleftrightarrow> n < 24 \<and> bit k n" for n
  proof -
    consider "24 \<le> n" | "16 \<le> n" "n < 24" | "8 \<le> n" "n < 16" | "n < 8" by linarith
    then show ?thesis by cases (auto simp: c_def bit_simps)
  qed
  have "uint c = take_bit 24 k"
    by (rule bit_eqI) (auto simp: bit_simps bits)
  then have "sint (if c AND 0x800000 \<noteq> 0 then c OR 0xFF000000 else c) = signed_take_bit 23 k"
    using sign_extend24 [of c] by (simp add: bits signed_take_bit_take_bit)
  then show ?thesis
    using assms(1,2) by (simp add: signed_take_bit_int_eq_self)
qed

section \<open>Report blocks as wire items\<close>

text \<open>A block as it comes off the wire: the local bookkeeping fields are at their initial values.\<close>

definition block_on_wire :: "report_block \<Rightarrow> bool" where
  "block_on_wire rb \<longleftrightarrow>
     - (2 ^ 23) \<le> cumulative_lost rb \<and> cumulative_lost rb < 2 ^ 23 \<and>
     sender_ssrc rb = 0 \<and> report_block_timestamp_utc rb = 0 \<and> report_block_timestamp rb = 0 \<and>
     last_rtt rb = 0 \<and> sum_rtt rb = 0 \<and> num_rtts rb = 0"

lemma length_report_block_bytes [simp]: "length (report_block_bytes rb) = 24"
  by (simp add: report_block_bytes_def)

lemma ReportBlock_Parse_in:
  assumes "pos + 24 \<le> length buffer"
  shows "\<exists>rb'. ReportBlock_Parse rb buffer pos = Some rb' \<and>
    - (2 ^ 23) \<le> cumulative_lost rb' \<and> cumulative_lost rb' < 2 ^ 23 \<and>
    sender_ssrc rb' = sender_ssrc rb \<and>
    report_block_timestamp_utc rb' = report_block_timestamp_utc rb \<and>
    report_block_timestamp rb' = report_block_timestamp rb \<and>
    last_rtt rb' = last_rtt rb \<and> sum_rtt rb' = sum_rtt rb \<and> num_rtts rb' = num_rtts rb"
proof -
  define c :: u32 where "c = push_bit 16 (ucast (buffer ! (pos + 5))) OR
    push_bit 8 (ucast (buffer ! (pos + 6))) OR ucast (buffer ! (pos + 7))"
  have "\<not> bit c n" if "24 \<le> n" for n
    using that by (auto simp: c_def bit_simps)
  from sign_extend24 [OF this]
  have "- (2 ^ 23) \<le> sint (if c AND 0x800000 \<noteq> 0 then c OR 0xFF000000 else c) \<and>
      sint (if c AND 0x800000 \<noteq> 0 then c OR 0xFF000000 else c) < 2 ^ 23"
    by (metis signed_take_bit_int_greater_eq_minus_exp signed_take_bit_int_less_exp)
  then show ?thesis
    using assms
    by (cases "c AND 0x800000 = 0") (simp_all add: ReportBlock_Parse_def rd32_in Let_def flip: c_def)
qed

lemma ReportBlock_Parse_bytes:
  assumes "- (2 ^ 23) \<le> cumulative_lost rb" and "cumulative_lost rb < 2 ^ 23"
  shows "ReportBlock_Parse r (pre @ report_block_bytes rb @ post) (length pre) =
    Some (r\<lparr>source_ssrc := source_ssrc rb, fraction_lost := fraction_lost rb,
            cumulative_lost := cumulative_lost rb,
            extended_high_seq_num := extended_high_seq_num rb, jitter := jitter rb,
            last_sr := last_sr rb, delay_since_last_sr := delay_since_last_sr rb\<rparr>)"
proof -
  let ?buf = "pre @ report_block_bytes rb @ post"
  have "rd32 ?buf (length pre) = Some (source_ssrc rb)"
    "rd32 ?buf (length pre + 8) = Some (extended_high_seq_num rb)"
    "rd32 ?buf (length pre + 12) = Some (jitter rb)"
    "rd32 ?buf (length pre + 16) = Some (last_sr rb)"
    "rd32 ?buf (length pre + 20) = Some (delay_since_last_sr rb)"
    by (simp_all add: rd32_in nth_append report_block_bytes_def be32_bytes_def)
  moreover have "rd8 ?buf (length pre + 4) = Some (fraction_lost rb)"
    "rd8 ?buf (length pre + 5) = Some (word_of_int (drop_bit 16 (cumulative_lost rb)))"
    "rd8 ?buf (length pre + 6) = Some (word_of_int (drop_bit 8 (cumulative_lost rb)))"
    "rd8 ?buf (length pre + 7) = Some (word_of_int (cumulative_lost rb))"
    by (simp_all add: nth_append report_block_bytes_def be32_bytes_def)
  ultimately show ?thesis
    using loss_bytes_roundtrip [OF assms] by (simp add: ReportBlock_Parse_def Let_def)
qed

interpretation report_codec: item_codec report_block_bytes "ReportBlock_Parse report_block_init" 24
  block_on_wire
proof
  show "length (report_block_bytes rb) = 24" for rb by simp
next
  fix rb pre post assume "block_on_wire rb"
  then show "ReportBlock_Parse report_block_init (pre @ report_block_bytes rb @ post) (length pre) = Some rb"
    by (simp add: ReportBlock_Parse_bytes block_on_wire_def report_block_init_def)
next
  fix pos buf assume "pos + 24 \<le> length (buf :: bytes)"
  then show "\<exists>rb. ReportBlock_Parse report_block_init buf pos = Some rb \<and> block_on_wire rb"
    using ReportBlock_Parse_in [of pos buf report_block_init]
    by (auto simp: block_on_wire_def report_block_init_def)
qed

lemma ReportBlock_Create_eta:
  "ReportBlock_Create = (\<lambda>buf pos rb. write_bytes buf pos (report_block_bytes rb))"
  by (simp add: fun_eq_iff ReportBlock_Create_def)

text \<open>
  A report block that \<open>Create\<close> writes anywhere into a buffer is read back by \<open>Parse\<close> field by
  field, including a negative cumulative loss; the 24-bit range is the one \<open>SetCumulativeLost\<close>
  admits. The local fields of the receiving object are left alone.
\<close>

theorem report_block_roundtrip:
  assumes "pos + 24 \<le> length buffer" and "SetCumulativeLost rb0 lost = (True, rb)"
  shows "\<exists>buffer'. ReportBlock_Create buffer pos rb = Some buffer' \<and> length buffer' = length buffer \<and>
    ReportBlock_Parse r buffer' pos =
      Some (r\<lparr>source_ssrc := source_ssrc rb0, fraction_lost := fraction_lost rb0,
              cumulative_lost := lost, extended_high_seq_num := extended_high_seq_num rb0,
              jitter := jitter rb0, last_sr := last_sr rb0,
              delay_since_last_sr := delay_since_last_sr rb0\<rparr>)"
proof -
  have rb: "rb = rb0\<lparr>cumulative_lost := lost\<rparr>" "- (2 ^ 23) \<le> lost" "lost < 2 ^ 23"
    using assms(2) by (auto simp: SetCumulativeLost_def split: if_splits)
  obtain pre mid post where b: "buffer = pre @ mid @ post" "length pre = pos" "length mid = 24"
    using assms(1) by (rule buffer_split3)
  then have "ReportBlock_Create buffer pos rb = Some (pre @ report_block_bytes rb @ post)"
    by (simp add: ReportBlock_Create_def write_bytes_append)
  then show ?thesis
    using ReportBlock_Parse_bytes [of rb r pre post] rb b by simp
qed

theorem report_block_roundtrip_witness:
  "SetCumulativeLost (report_block_init\<lparr>jitter := 7\<rparr>) (-3) =
     (True, report_block_init\<lparr>jitter := 7, cumulative_lost := -3\<rparr>) \<and>
   (\<exists>buffer'. ReportBlock_Create (replicate 30 0) 5 (report_block_init\<lparr>jitter := 7, cumulative_lost := -3\<rparr>) =
        Some buffer' \<and>
      ReportBlock_Parse report_block_init buffer' 5 =
        Some (report_block_init\<lparr>jitter := 7, cumulative_lost := -3\<rparr>))"
proof -
  have set: "SetCumulativeLost (report_block_init\<lparr>jitter := 7\<rparr>) (-3) =
     (True, report_block_init\<lparr>jitter := 7, cumulative_lost := -3\<rparr>)"
    by (simp add: SetCumulativeLost_def)
  show ?thesis
    using report_block_roundtrip [OF _ set, of 5 "replicate 30 0" report_block_init] set
    by (auto simp: report_block_init_def)
qed

section \<open>Receiver reports\<close>

text \<open>The buffer of a report object is null with size 0 or holds \<open>size_\<close> bytes.\<close>

definition buffer_ok :: "bytes option \<Rightarrow> nat \<Rightarrow> bool" where
  "buffer_ok b n \<longleftrightarrow> (case b of None \<Rightarrow> n = 0 | Some bs \<Rightarrow> length bs = n)"

lemma Create_fresh_header:
  assumes "length b = n" and "4 \<le> n"
  shows "RtcpCommonHeader_Create 2 0 fmt pt len (Some b) = Some (4, Some (hdr4 fmt pt len @ drop 4 b))"
proof -
  have hdr: "[push_bit 6 2 OR push_bit 5 0 OR fmt, pt, ucast (drop_bit 8 len), ucast len] =
      hdr4 fmt pt len"
    by (simp add: hdr4_def be16_bytes_def)
  show ?thesis
    using assms unfolding RtcpCommonHeader_Create_def hdr by (simp add: write_bytes_def)
qed

lemma report_body_written:
  assumes "length b = 4 + length info + 24 * length rbs"
  shows "do { b1 \<leftarrow> write_bytes (hdr4 fmt pt len @ drop 4 b) 4 info;
              (b2, _) \<leftarrow> write_items ReportBlock_Create 24 rbs b1 (4 + length info);
              f b2 } =
    f (hdr4 fmt pt len @ info @ concat (map report_block_bytes rbs))"
proof -
  let ?h = "hdr4 fmt pt len"
  have "write_bytes (?h @ drop 4 b) 4 info = Some ((?h @ info) @ drop (4 + length info) b @ [])"
    using assms by (simp add: write_bytes_def add.commute)
  moreover have "write_items ReportBlock_Create 24 rbs ((?h @ info) @ drop (4 + length info) b @ [])
      (length (?h @ info)) =
    Some ((?h @ info) @ concat (map report_block_bytes rbs) @ [], length (?h @ info) + 24 * length rbs)"
    unfolding ReportBlock_Create_eta using assms by (intro report_codec.write_run) simp
  ultimately show ?thesis by simp
qed

lemma RR_Build_bytes:
  assumes "buffer_ok (rr_buffer rr) (rr_size rr)" and "\<And>n. length (fresh n) = n"
    and n: "length (rr_reports rr) \<le> 31"
  defines "b \<equiv> hdr4 (of_nat (length (rr_reports rr))) 201 (of_nat (1 + 6 * length (rr_reports rr))) @
    be32_bytes (rr_sender_ssrc rr) @ concat (map report_block_bytes (rr_reports rr))"
  shows "RR_Build fresh rr =
    Some (Some b, rr\<lparr>rr_buffer := Some b, rr_size := 8 + 24 * length (rr_reports rr)\<rparr>)"
proof -
  let ?n = "8 + length (rr_reports rr) * 24"
  define rr1 where "rr1 = (if ?n \<noteq> rr_size rr
    then rr\<lparr>rr_buffer := Some (fresh ?n), rr_size := ?n\<rparr> else rr)"
  obtain b0 where b0: "rr_buffer rr1 = Some b0" "length b0 = ?n"
    using assms(1,2)
    by (cases "?n = rr_size rr") (auto simp: rr1_def buffer_ok_def split: option.splits)
  have rr1: "rr1\<lparr>rr_buffer := Some x\<rparr> = rr\<lparr>rr_buffer := Some x, rr_size := ?n\<rparr>" for x
    by (simp add: rr1_def)
  have words: "(8 + length (rr_reports rr) * 24 - 4) div 4 = 1 + 6 * length (rr_reports rr)" by simp
  show ?thesis
    using n report_body_written [of b0 "be32_bytes (rr_sender_ssrc rr)" "rr_reports rr"
        "of_nat (length (rr_reports rr))" 201 "of_nat (1 + 6 * length (rr_reports rr))"
        "\<lambda>b2. Some (Some b2, rr1\<lparr>rr_buffer := Some b2\<rparr>)"]
    using b0 unfolding RR_Build_def words
    by (simp add: Create_fresh_header words rr1 b_def mult.commute flip: rr1_def)
qed

lemma RR_Parse_bytes:
  assumes "\<forall>rb \<in> set rbs. block_on_wire rb" and "length rbs \<le> 31"
    and "count_or_format h = of_nat (length rbs)" and "payload_size h = 4 + 24 * length rbs"
    and "payload h = be32_bytes ssrc @ concat (map report_block_bytes rbs)"
  shows "RR_Parse rr h = Some (4 + 24 * length rbs,
    rr\<lparr>rr_header := h, rr_sender_ssrc := ssrc, rr_reports := rbs\<rparr>)"
proof -
  have n: "unat (of_nat (length rbs) :: u8) = length rbs"
    using assms(2) by (simp add: unsigned_of_nat take_bit_nat_eq_self)
  have "read_items (ReportBlock_Parse report_block_init) 24 (length rbs)
      (be32_bytes ssrc @ concat (map report_block_bytes rbs) @ []) (length (be32_bytes ssrc)) = Some rbs"
    by (rule report_codec.read_run) (rule assms(1))
  then show ?thesis
    using rd32_bytes [of 0 "[]" ssrc] assms by (simp add: RR_Parse_def n Let_def mult.commute)
qed

lemma header_of_report:
  assumes "k \<le> 31" and "length body = 4 * m" and "m < 65536"
  shows "RtcpCommonHeader_Parse h (hdr4 (of_nat k) pt (of_nat m) @ body)
      (length (hdr4 (of_nat k) pt (of_nat m) @ body)) =
    Some (True, h\<lparr>count_or_format := of_nat k, packet_type := pt, payload_size := length body,
                  payload := body, padding_size := 0\<rparr>)"
proof -
  have "unat (of_nat k :: u8) = k" "unat (of_nat m :: u16) = m"
    using assms by (simp_all add: unsigned_of_nat take_bit_nat_eq_self)
  then show ?thesis
    using parse_hdr4 [of "of_nat k" "of_nat m" "4 + length body" h pt body] assms
    by (simp add: word_less_nat_alt)
qed

text \<open>
  C37: a receiver report with at most 31 blocks always builds: whatever the object's buffer held
  before, \<open>Build\<close> returns a packet of exactly \<open>8 + 24 n\<close> bytes without writing outside it, the
  common header parser accepts it, and \<open>ReceiverReport::Parse\<close> on the result returns the number of
  payload bytes consumed and restores the sender SSRC and all report blocks.
\<close>

theorem receiver_report_roundtrip:
  assumes "buffer_ok (rr_buffer rr) (rr_size rr)" and "\<forall>n. length (fresh n) = n"
    and "length (rr_reports rr) \<le> 31" and "\<forall>rb \<in> set (rr_reports rr). block_on_wire rb"
  shows "\<exists>b rr' h'. RR_Build fresh rr = Some (Some b, rr') \<and> rr_buffer rr' = Some b \<and>
    buffer_ok (rr_buffer rr') (rr_size rr') \<and>
    length b = 8 + 24 * length (rr_reports rr) \<and>
    RtcpCommonHeader_Parse h b (length b) = Some (True, h') \<and> packet_type h' = 201 \<and>
    packet_size h' = length b \<and>
    (\<forall>rr2. RR_Parse rr2 h' = Some (payload_size h',
       rr2\<lparr>rr_header := h', rr_sender_ssrc := rr_sender_ssrc rr, rr_reports := rr_reports rr\<rparr>))"
proof -
  let ?n = "length (rr_reports rr)"
  let ?body = "be32_bytes (rr_sender_ssrc rr) @ concat (map report_block_bytes (rr_reports rr))"
  let ?b = "hdr4 (of_nat ?n) 201 (of_nat (1 + 6 * ?n)) @ ?body"
  have len: "length ?body = 4 * (1 + 6 * ?n)"
    by (simp add: report_codec.enc_run_length)
  have build: "RR_Build fresh rr = Some (Some ?b, rr\<lparr>rr_buffer := Some ?b, rr_size := 8 + 24 * ?n\<rparr>)"
    using assms(1-3) by (intro RR_Build_bytes) auto
  have parse: "RtcpCommonHeader_Parse h ?b (length ?b) =
    Some (True, h\<lparr>count_or_format := of_nat ?n, packet_type := 201, payload_size := length ?body,
                  payload := ?body, padding_size := 0\<rparr>)"
    using len assms(3) by (intro header_of_report) auto
  show ?thesis
    using build parse len RR_Parse_bytes [OF assms(4,3)]
    by (fastforce simp: packet_size_def buffer_ok_def report_codec.enc_run_length)
qed

theorem receiver_report_roundtrip_witness:
  "\<exists>b rr' h'. RR_Build (\<lambda>n. replicate n 0)
      \<lparr>rr_sender_ssrc = 42, rr_header = header_init,
       rr_reports = [report_block_init\<lparr>source_ssrc := 7, cumulative_lost := -1\<rparr>],
       rr_buffer = None, rr_size = 0\<rparr> = Some (Some b, rr') \<and>
    length b = 32 \<and> RtcpCommonHeader_Parse header_init b (length b) = Some (True, h') \<and>
    packet_size h' = 32"
proof -
  let ?rr = "\<lparr>rr_sender_ssrc = 42, rr_header = header_init,
       rr_reports = [report_block_init\<lparr>source_ssrc := 7, cumulative_lost := -1\<rparr>],
       rr_buffer = None, rr_size = 0\<rparr>"
  have hyps: "buffer_ok (rr_buffer ?rr) (rr_size ?rr)" "\<forall>n. length (replicate n (0 :: u8)) = n"
    "length (rr_reports ?rr) \<le> 31" "\<forall>rb \<in> set (rr_reports ?rr). block_on_wire rb"
    by (simp_all add: buffer_ok_def block_on_wire_def report_block_init_def)
  from receiver_report_roundtrip [OF hyps, of header_init] show ?thesis
    by (elim exE conjE) (intro exI conjI, assumption, simp, assumption, simp)
qed

section \<open>Sender reports\<close>

lemma length_sender_info_bytes [simp]: "length (sender_info_bytes si) = 24"
  by (simp add: sender_info_bytes_def)

lemma SR_Build_bytes:
  assumes "buffer_ok (sr_buffer sr) (sr_size sr)" and "\<And>n. length (fresh n) = n"
    and n: "length (sr_reports sr) \<le> 31"
  defines "b \<equiv> hdr4 (of_nat (length (sr_reports sr))) 200 (of_nat (6 + 6 * length (sr_reports sr))) @
    sender_info_bytes (sr_info sr) @ concat (map report_block_bytes (sr_reports sr))"
  shows "SR_Build fresh sr =
    Some (Some b, sr\<lparr>sr_buffer := Some b, sr_size := 28 + 24 * length (sr_reports sr)\<rparr>)"
proof -
  let ?n = "28 + length (sr_reports sr) * 24"
  define sr1 where "sr1 = (if ?n \<noteq> sr_size sr
    then sr\<lparr>sr_buffer := Some (fresh ?n), sr_size := ?n\<rparr> else sr)"
  obtain b0 where b0: "sr_buffer sr1 = Some b0" "length b0 = ?n"
    using assms(1,2)
    by (cases "?n = sr_size sr") (auto simp: sr1_def buffer_ok_def split: option.splits)
  have sr1: "sr1\<lparr>sr_buffer := Some x\<rparr> = sr\<lparr>sr_buffer := Some x, sr_size := ?n\<rparr>" for x
    by (simp add: sr1_def)
  have words: "(28 + length (sr_reports sr) * 24 - 4) div 4 = 6 + 6 * length (sr_reports sr)" by simp
  show ?thesis
    using n report_body_written [of b0 "sender_info_bytes (sr_info sr)" "sr_reports sr"
        "of_nat (length (sr_reports sr))" 200 "of_nat (6 + 6 * length (sr_reports sr))"
        "\<lambda>b2. Some (Some b2, sr1\<lparr>sr_buffer := Some b2\<rparr>)"]
    using b0 unfolding SR_Build_def words
    by (simp add: Create_fresh_header words sr1 b_def mult.commute flip: sr1_def)
qed

lemma SR_Parse_bytes:
  assumes "\<forall>rb \<in> set rbs. block_on_wire rb" and "length rbs \<le> 31"
    and "count_or_format h = of_nat (length rbs)" and "payload_size h = 24 + 24 * length rbs"
    and "payload h = sender_info_bytes si @ concat (map report_block_bytes rbs)"
  shows "SR_Parse sr h = Some (True,
    sr\<lparr>sr_header := h, sr_sender_ssrc := si_sender_ssrc si, sr_info := si, sr_reports := rbs\<rparr>)"
proof -
  have n: "unat (of_nat (length rbs) :: u8) = length rbs"
    using assms(2) by (simp add: unsigned_of_nat take_bit_nat_eq_self)
  let ?p = "sender_info_bytes si @ concat (map report_block_bytes rbs) @ []"
  have "read_items (ReportBlock_Parse report_block_init) 24 (length rbs) ?p
      (length (sender_info_bytes si)) = Some rbs"
    by (rule report_codec.read_run) (rule assms(1))
  moreover have "rd32 ?p 0 = Some (si_sender_ssrc si)" "rd32 ?p 4 = Some (ntp_ts_msw si)"
    "rd32 ?p 8 = Some (ntp_ts_lsw si)" "rd32 ?p 12 = Some (rtp_ts si)"
    "rd32 ?p 16 = Some (sender_packet_count si)" "rd32 ?p 20 = Some (sender_octet_count si)"
    by (simp_all add: rd32_in nth_append sender_info_bytes_def be32_bytes_def)
  ultimately show ?thesis
    using assms by (simp add: SR_Parse_def n Let_def mult.commute)
qed

text \<open>
  C38: the same for sender reports: built without a memory error, \<open>28 + 24 n\<close> bytes long, accepted by
  the header parser, and \<open>SenderReport::Parse\<close> restores the sender info (SSRC, both NTP words, RTP
  timestamp, packet and octet counts) and all report blocks.
\<close>

theorem sender_report_roundtrip:
  assumes "buffer_ok (sr_buffer sr) (sr_size sr)" and "\<forall>n. length (fresh n) = n"
    and "length (sr_reports sr) \<le> 31" and "\<forall>rb \<in> set (sr_reports sr). block_on_wire rb"
  shows "\<exists>b sr' h'. SR_Build fresh sr = Some (Some b, sr') \<and> sr_buffer sr' = Some b \<and>
    buffer_ok (sr_buffer sr') (sr_size sr') \<and>
    length b = 28 + 24 * length (sr_reports sr) \<and>
    RtcpCommonHeader_Parse h b (length b) = Some (True, h') \<and> packet_type h' = 200 \<and>
    packet_size h' = length b \<and>
    (\<forall>sr2. SR_Parse sr2 h' = Some (True,
       sr2\<lparr>sr_header := h', sr_sender_ssrc := si_sender_ssrc (sr_info sr), sr_info := sr_info sr,
           sr_reports := sr_reports sr\<rparr>))"
proof -
  let ?n = "length (sr_reports sr)"
  let ?body = "sender_info_bytes (sr_info sr) @ concat (map report_block_bytes (sr_reports sr))"
  let ?b = "hdr4 (of_nat ?n) 200 (of_nat (6 + 6 * ?n)) @ ?body"
  have len: "length ?body = 4 * (6 + 6 * ?n)"
    by (simp add: report_codec.enc_run_length)
  have build: "SR_Build fresh sr = Some (Some ?b, sr\<lparr>sr_buffer := Some ?b, sr_size := 28 + 24 * ?n\<rparr>)"
    using assms(1-3) by (intro SR_Build_bytes) auto
  have parse: "RtcpCommonHeader_Parse h ?b (length ?b) =
    Some (True, h\<lparr>count_or_format := of_nat ?n, packet_type := 200, payload_size := length ?body,
                  payload := ?body, padding_size := 0\<rparr>)"
    using len assms(3) by (intro header_of_report) auto
  show ?thesis
    using build parse len SR_Parse_bytes [OF assms(4,3)]
    by (fastforce simp: packet_size_def buffer_ok_def report_codec.enc_run_length)
qed

theorem sender_report_roundtrip_witness:
  "\<exists>b sr' h'. SR_Build (\<lambda>n. replicate n 0)
      \<lparr>sr_sender_ssrc = 42, sr_header = header_init,
       sr_info = \<lparr>si_sender_ssrc = 42, ntp_ts_msw = 1, ntp_ts_lsw = 2, rtp_ts = 3,
         sender_packet_count = 4, sender_octet_count = 5\<rparr>,
       sr_reports = [], sr_buffer = Some [0], sr_size = 1\<rparr> = Some (Some b, sr') \<and>
    length b = 28 \<and> RtcpCommonHeader_Parse header_init b (length b) = Some (True, h') \<and>
    packet_size h' = 28"
proof -
  let ?sr = "\<lparr>sr_sender_ssrc = 42, sr_header = header_init,
       sr_info = \<lparr>si_sender_ssrc = 42, ntp_ts_msw = 1, ntp_ts_lsw = 2, rtp_ts = 3,
         sender_packet_count = 4, sender_octet_count = 5\<rparr>,
       sr_reports = [], sr_buffer = Some [0], sr_size = 1\<rparr>"
  have hyps: "buffer_ok (sr_buffer ?sr) (sr_size ?sr)" "\<forall>n. length (replicate n (0 :: u8)) = n"
    "length (sr_reports ?sr) \<le> 31" "\<forall>rb \<in> set (sr_reports ?sr). block_on_wire rb"
    by (simp_all add: buffer_ok_def)
  from sender_report_roundtrip [OF hyps, of header_init] show ?thesis
    by (elim exE conjE) (intro exI conjI, assumption, simp, assumption, simp)
qed

section \<open>Reports from the network\<close>

text \<open>
  Whatever bytes arrive, handing a datagram through the common header parser and, when that
  accepts it, to \<open>ReceiverReport::Parse\<close> and \<open>SenderReport::Parse\<close> never reads outside the
  datagram. Both either reject and leave the report list empty, or deliver exactly as many
  blocks as the header announces, each with a loss count in the 24-bit range.
\<close>

theorem report_parse_safe:
  assumes "size_bytes \<le> length buffer"
    and "RtcpCommonHeader_Parse h0 buffer size_bytes = Some (True, h)"
  shows "(\<exists>n rr'. RR_Parse rr h = Some (n, rr') \<and>
       (if n = 0 then rr_reports rr' = []
        else n = 4 + 24 * unat (count_or_format h) \<and> n \<le> payload_size h \<and>
          length (rr_reports rr') = unat (count_or_format h) \<and> (\<forall>rb \<in> set (rr_reports rr'). block_on_wire rb))) \<and>
    (\<exists>ok sr'. SR_Parse sr h = Some (ok, sr') \<and>
       (if ok then length (sr_reports sr') = unat (count_or_format h) \<and>
          sr_sender_ssrc sr' = si_sender_ssrc (sr_info sr') \<and> (\<forall>rb \<in> set (sr_reports sr'). block_on_wire rb)
        else sr_reports sr' = []))"
proof
  have fits: "payload_size h \<le> length (payload h)"
    using header_parse_facts [OF assms(1), of h0] assms(2) by auto
  let ?k = "unat (count_or_format h)"
  show "\<exists>n rr'. RR_Parse rr h = Some (n, rr') \<and>
       (if n = 0 then rr_reports rr' = []
        else n = 4 + 24 * ?k \<and> n \<le> payload_size h \<and>
          length (rr_reports rr') = ?k \<and> (\<forall>rb \<in> set (rr_reports rr'). block_on_wire rb))"
  proof (cases "payload_size h < 4 + ?k * 24")
    case False
    with fits obtain rbs where "read_items (ReportBlock_Parse report_block_init) 24 ?k (payload h) 4 = Some rbs"
      "length rbs = ?k" "\<forall>rb \<in> set rbs. block_on_wire rb"
      using report_codec.read_run_total [of 4 ?k "payload h"] by auto
    with False fits show ?thesis by (simp add: RR_Parse_def Let_def rd32_in)
  qed (simp add: RR_Parse_def)
  show "\<exists>ok sr'. SR_Parse sr h = Some (ok, sr') \<and>
       (if ok then length (sr_reports sr') = ?k \<and>
          sr_sender_ssrc sr' = si_sender_ssrc (sr_info sr') \<and> (\<forall>rb \<in> set (sr_reports sr'). block_on_wire rb)
        else sr_reports sr' = [])"
  proof (cases "payload_size h < 24 + ?k * 24")
    case False
    with fits obtain rbs where "read_items (ReportBlock_Parse report_block_init) 24 ?k (payload h) 24 = Some rbs"
      "length rbs = ?k" "\<forall>rb \<in> set rbs. block_on_wire rb"
      using report_codec.read_run_total [of 24 ?k "payload h"] by auto
    with False fits show ?thesis by (auto simp: SR_Parse_def Let_def rd32_in)
  qed (auto simp: SR_Parse_def)
qed

theorem report_parse_safe_witness:
  "\<exists>n rr'. RR_Parse
      \<lparr>rr_sender_ssrc = 0, rr_header = header_init, rr_reports = [], rr_buffer = None, rr_size = 0\<rparr>
      (header_init\<lparr>count_or_format := 1, packet_type := 201, payload_size := 4,
         payload := [1, 2, 3, 4], padding_size := 0\<rparr>) = Some (n, rr')"
  using report_parse_safe [of 8 "[0x81, 201, 0, 1, 1, 2, 3, 4]" header_init
      "header_init\<lparr>count_or_format := 1, packet_type := 201, payload_size := 4,
         payload := [1, 2, 3, 4], padding_size := 0\<rparr>"]
  by (simp add: RtcpCommonHeader_Parse_def Let_def be16_of_def wire_simps) blast

end
