(* ===== verification/Rtcp_Nack.thy ===== *)
theory Rtcp_Nack
  imports Rtcp_Header Seq_Num
begin

text \<open>
  Generic NACK feedback (\<^verbatim>\<open>src/rtcp/nack.cpp\<close>): the packing of a list of lost sequence
  numbers into (first id, bitmask of the 16 following ids) items, its inverse, parsing, and
  serialization with fragmentation over several datagrams.
\<close>

section \<open>Model\<close>

definition kNackItemLength :: nat where "kNackItemLength = 4"

record packed_nack =
  first_pid :: u16
  bitmask :: u16

record nack =
  nk_sender_ssrc :: u32
  nk_media_ssrc :: u32
  packed :: "packed_nack list"
  packet_ids :: "u16 list"

text \<open>The inner loop of \<open>Pack\<close>: the bitmask and the ids that are left.\<close>

fun pack_mask :: "u16 \<Rightarrow> u16 \<Rightarrow> u16 list \<Rightarrow> u16 \<times> u16 list" where
  "pack_mask first bm [] = (bm, [])"
| "pack_mask first bm (x # xs) =
     (let shift = x - first - 1 in
      if shift \<le> 15 then pack_mask first (bm OR push_bit (unat shift) 1) xs
      else (bm, x # xs))"

lemma pack_mask_rest: "length (snd (pack_mask first bm xs)) \<le> length xs"
  by (induction first bm xs rule: pack_mask.induct) (auto simp: Let_def)

function pack_items :: "u16 list \<Rightarrow> packed_nack list" where
  "pack_items [] = []"
| "pack_items (x # xs) =
     (let (bm, rest) = pack_mask x 0 xs
      in \<lparr>first_pid = x, bitmask = bm\<rparr> # pack_items rest)"
  by pat_completeness auto
termination
  by (relation "measure length")
     (auto simp: less_Suc_eq_le, metis pack_mask_rest snd_conv)

text \<open>\<open>Pack\<close> appends to \<open>packed_\<close>; it does not clear it.\<close>

definition Pack :: "nack \<Rightarrow> nack" where
  "Pack nk = nk\<lparr>packed := packed nk @ pack_items (packet_ids nk)\<rparr>"

definition SetPacketIds :: "nack \<Rightarrow> u16 list \<Rightarrow> nack" where
  "SetPacketIds nk nack_list = Pack (nk\<lparr>packet_ids := nack_list\<rparr>)"

text \<open>The inner loop of \<open>Unpack\<close>, which shifts the bitmask out.\<close>

function unpack_mask :: "u16 \<Rightarrow> u16 \<Rightarrow> u16 list" where
  "unpack_mask pid bm =
     (if bm = 0 then []
      else (if bm AND 1 \<noteq> 0 then [pid] else []) @ unpack_mask (pid + 1) (drop_bit 1 bm))"
  by pat_completeness auto
termination
  by (relation "measure (\<lambda>(pid, bm). unat bm)")
     (auto simp: drop_bit_eq_div word_unat_eq_iff unat_div_distrib)

declare unpack_mask.simps [simp del]

definition unpack_item :: "packed_nack \<Rightarrow> u16 list" where
  "unpack_item item = first_pid item # unpack_mask (first_pid item + 1) (bitmask item)"

definition Unpack :: "nack \<Rightarrow> nack" where
  "Unpack nk = nk\<lparr>packet_ids := packet_ids nk @ concat (map unpack_item (packed nk))\<rparr>"

definition read_nack_item :: "bytes \<Rightarrow> nat \<Rightarrow> packed_nack option" where
  "read_nack_item buf pos =
     do { pid \<leftarrow> ReadBigEndian2 (drop pos buf); blp \<leftarrow> ReadBigEndian2 (drop (pos + 2) buf);
          Some \<lparr>first_pid = pid, bitmask = blp\<rparr> }"

definition Nack_Parse :: "nack \<Rightarrow> rtcp_common_header \<Rightarrow> (bool \<times> nack) option" where
  "Nack_Parse nk packet =
     (if payload_size packet < kCommonFeedbackLength + kNackItemLength then Some (False, nk)
      else do {
        let nack_items = (payload_size packet - kCommonFeedbackLength) div kNackItemLength;
        (sender, media) \<leftarrow> ParseCommonFeedback (payload packet);
        items \<leftarrow> read_items read_nack_item kNackItemLength nack_items (payload packet) kCommonFeedbackLength;
        Some (True, Unpack (nk\<lparr>nk_sender_ssrc := sender, nk_media_ssrc := media,
                               packet_ids := [], packed := items\<rparr>))
      })"

definition Nack_BlockLength :: "nack \<Rightarrow> nat" where
  "Nack_BlockLength nk =
     kHeaderLength + kCommonFeedbackLength + length (packed nk) * kNackItemLength"

definition nack_item_bytes :: "packed_nack \<Rightarrow> bytes" where
  "nack_item_bytes item = be16_bytes (first_pid item) @ be16_bytes (bitmask item)"

definition kNackHeaderLength :: nat where
  "kNackHeaderLength = kHeaderLength + kCommonFeedbackLength"

text \<open>
  The loop of \<open>Create\<close> over the items not yet written. \<open>max_length - *index\<close> is an unsigned
  subtraction. An iteration either flushes the buffer or writes one feedback packet.
\<close>

function nack_create_loop ::
  "u32 \<Rightarrow> u32 \<Rightarrow> nat \<Rightarrow> packed_nack list \<Rightarrow> writer \<Rightarrow> (bool \<times> writer) option" where
  "nack_create_loop sender media max_length items w =
     (if items = [] then Some (True, w)
      else
        let bytes_left_in_buffer = size_sub max_length (windex w) in
        if bytes_left_in_buffer < kNackHeaderLength + kNackItemLength then
          (if fst (OnBufferFull w)
           then nack_create_loop sender media max_length items (snd (OnBufferFull w))
           else Some (False, w))
        else
          let num_nack_fields =
                min ((bytes_left_in_buffer - kNackHeaderLength) div kNackItemLength) (length items);
              payload_size_bytes = kCommonFeedbackLength + num_nack_fields * kNackItemLength
          in do {
            w1 \<leftarrow> CreateHeader 1 205 (payload_size_bytes div 4) False w;
            w2 \<leftarrow> CreateCommonFeedback sender media w1;
            (buf, pos) \<leftarrow> write_items (\<lambda>buf pos item. write_bytes buf pos (nack_item_bytes item))
                           kNackItemLength (take num_nack_fields items) (wbuf w2) (windex w2);
            nack_create_loop sender media max_length (drop num_nack_fields items)
              (w2\<lparr>wbuf := buf, windex := pos\<rparr>)
          })"
  by pat_completeness auto
termination
  by (relation "measures [\<lambda>(s, m, l, items, w). length items, \<lambda>(s, m, l, items, w). windex w]")
     (auto simp: OnBufferFull_def kNackHeaderLength_def kNackItemLength_def split: if_splits)

declare nack_create_loop.simps [simp del]

definition Nack_Create :: "nack \<Rightarrow> nat \<Rightarrow> writer \<Rightarrow> (bool \<times> writer) option" where
  "Nack_Create nk max_length w =
     nack_create_loop (nk_sender_ssrc nk) (nk_media_ssrc nk) max_length (packed nk) w"

lemmas nack_consts [simp] = kNackItemLength_def kNackHeaderLength_def

section \<open>Packing and unpacking\<close>

text \<open>Unpacking a bitmask lists the positions of its set bits in ascending order.\<close>

lemma drop_bit_Suc_bits: "bit (drop_bit (Suc 0) (m :: u16)) = (\<lambda>i. bit m (Suc i))"
  by (rule ext) (simp add: bit_simps)

lemma unpack_mask_bits:
  "\<forall>i \<ge> n. \<not> bit m i \<Longrightarrow> unpack_mask pid m = map (\<lambda>i. pid + of_nat i) (filter (bit m) [0..<n])"
proof (induction n arbitrary: pid m)
  case 0
  then have "m = 0" by (auto intro: bit_word_eqI)
  then show ?case by (simp add: unpack_mask.simps)
next
  case (Suc n)
  have "\<forall>i \<ge> n. \<not> bit (drop_bit 1 m) i"
    using Suc.prems by (simp add: bit_simps)
  from Suc.IH [OF this, of "pid + 1"]
  have ih: "unpack_mask (pid + 1) (drop_bit 1 m) =
      map (\<lambda>i. pid + of_nat i) (filter (bit m) (map Suc [0..<n]))"
    by (simp add: filter_map o_def drop_bit_Suc_bits add.assoc)
  have upt: "[0..<Suc n] = 0 # map Suc [0..<n]"
    by (metis map_Suc_upt upt_conv_Cons zero_less_Suc)
  show ?case
  proof (cases "m = 0")
    case True
    then show ?thesis by (simp add: unpack_mask.simps)
  next
    case False
    then have "unpack_mask pid m =
        (if m AND 1 \<noteq> 0 then [pid] else []) @ unpack_mask (pid + 1) (drop_bit 1 m)"
      by (subst unpack_mask.simps) simp
    also have "(m AND 1 \<noteq> 0) = bit m 0"
      by (simp add: and_one_eq bit_0 mod2_eq_if)
    finally show ?thesis unfolding ih upt by simp
  qed
qed

lemma unpack_mask_16: "unpack_mask pid m = map (\<lambda>i. pid + of_nat i) (filter (bit m) [0..<16])"
  using bit_imp_le_length [of m] by (intro unpack_mask_bits) (auto simp: not_le [symmetric])

text \<open>The distance of an id behind the first one, as \<open>Pack\<close> computes it.\<close>

definition nack_shift :: "u16 \<Rightarrow> u16 \<Rightarrow> nat" where
  "nack_shift first x = unat (x - first - 1)"

lemma nack_shift_inv: "x = first + 1 + of_nat (nack_shift first x)"
  by (simp add: nack_shift_def)

lemma pack_mask_split:
  "pack_mask first m xs = (m', rest) \<Longrightarrow>
     \<exists>ys. xs = ys @ rest \<and> (\<forall>y \<in> set ys. nack_shift first y \<le> 15) \<and>
       (\<forall>i < 16. bit m' i = (bit m i \<or> i \<in> nack_shift first ` set ys))"
proof (induction first m xs rule: pack_mask.induct)
  case (2 first m x xs)
  show ?case
  proof (cases "x - first - 1 \<le> 15")
    case True
    then obtain ys where ys: "xs = ys @ rest" "\<forall>y \<in> set ys. nack_shift first y \<le> 15"
      "\<forall>i < 16. bit m' i = (bit (m OR push_bit (nack_shift first x) 1) i \<or> i \<in> nack_shift first ` set ys)"
      using 2 by (auto simp: nack_shift_def Let_def)
    have "nack_shift first x \<le> 15" using True by (simp add: nack_shift_def word_le_nat_alt)
    with ys show ?thesis
      by (intro exI [of _ "x # ys"]) (auto simp: bit_simps)
  next
    case False
    with 2(2) show ?thesis by simp
  qed
qed simp

lemma pack_mask_unpack_set:
  assumes "pack_mask first 0 xs = (m', rest)"
  shows "\<exists>ys. xs = ys @ rest \<and> set (unpack_mask (first + 1) m') = set ys"
proof -
  obtain ys where ys: "xs = ys @ rest" "\<forall>y \<in> set ys. nack_shift first y \<le> 15"
    "\<forall>i < 16. bit m' i = (i \<in> nack_shift first ` set ys)"
    using pack_mask_split [OF assms] by auto
  have "set (unpack_mask (first + 1) m') = (\<lambda>i. first + 1 + of_nat i) ` {i. i < 16 \<and> bit m' i}"
    by (auto simp: unpack_mask_16)
  also have "{i. i < 16 \<and> bit m' i} = nack_shift first ` set ys" using ys by fastforce
  also have "(\<lambda>i. first + 1 + of_nat i) ` nack_shift first ` set ys = set ys"
    using nack_shift_inv [of _ first] by (force simp: image_image)
  finally show ?thesis using ys(1) by blast
qed

lemma unpack_pack_set: "set (concat (map unpack_item (pack_items ids))) = set ids"
proof (induction ids rule: pack_items.induct)
  case (2 x xs)
  obtain m rest where pm: "pack_mask x 0 xs = (m, rest)" by fastforce
  obtain ys where "xs = ys @ rest" "set (unpack_mask (x + 1) m) = set ys"
    using pack_mask_unpack_set [OF pm] by blast
  then show ?case using 2 pm by (auto simp: unpack_item_def)
qed simp

text \<open>On ascending lists (in the wrap-around order) the packing is lossless.\<close>

definition ascending_ids :: "u16 list \<Rightarrow> bool" where
  "ascending_ids = successively (\<lambda>a b. AheadOf b a)"

lemma AheadOf_shift_less:
  assumes "AheadOf b a" and "nack_shift f a \<le> 15" and "nack_shift f b \<le> 15"
  shows "nack_shift f a < nack_shift f b"
proof -
  have "sdist b a = int (nack_shift f b) - int (nack_shift f a)"
    using sdist_window [where 'a = 16, of "uint f + 1 + int (nack_shift f b)" "uint f + 1 + int (nack_shift f a)"]
      assms(2,3) by (simp flip: nack_shift_inv)
  with assms(1) show ?thesis by (simp add: AheadOf_sdist)
qed

lemma pack_mask_unpack_exact:
  assumes "pack_mask first 0 xs = (m', rest)" and "ascending_ids xs"
  shows "\<exists>ys. xs = ys @ rest \<and> unpack_mask (first + 1) m' = ys"
proof -
  obtain ys where ys: "xs = ys @ rest" "\<forall>y \<in> set ys. nack_shift first y \<le> 15"
    "\<forall>i < 16. bit m' i = (i \<in> nack_shift first ` set ys)"
    using pack_mask_split [OF assms(1)] by auto
  have "successively (\<lambda>a b. AheadOf b a) ys"
    using assms(2) ys(1) by (simp add: ascending_ids_def successively_append_iff)
  then have "successively (<) (map (nack_shift first) ys)"
    using ys(2) by (auto simp: successively_map intro: AheadOf_shift_less successively_mono)
  then have strict: "sorted_wrt (<) (map (nack_shift first) ys)"
    by (simp add: successively_conv_sorted_wrt)
  have "filter (bit m') [0..<16] = map (nack_shift first) ys"
  proof (rule sorted_distinct_set_unique)
    show "set (filter (bit m') [0..<16]) = set (map (nack_shift first) ys)" using ys by fastforce
  qed (use strict in \<open>auto simp: strict_sorted_iff intro: sorted_wrt_filter\<close>)
  then have "unpack_mask (first + 1) m' = ys"
    using nack_shift_inv [of _ first] by (simp add: unpack_mask_16 o_def)
  with ys(1) show ?thesis by blast
qed

lemma unpack_pack_exact: "ascending_ids ids \<Longrightarrow> concat (map unpack_item (pack_items ids)) = ids"
proof (induction ids rule: pack_items.induct)
  case (2 x xs)
  obtain m rest where pm: "pack_mask x 0 xs = (m, rest)" by fastforce
  have asc: "ascending_ids xs" using "2.prems" by (cases xs) (auto simp: ascending_ids_def)
  obtain ys where ys: "xs = ys @ rest" "unpack_mask (x + 1) m = ys"
    using pack_mask_unpack_exact [OF pm asc] by blast
  have "ascending_ids rest" using asc ys(1) by (simp add: ascending_ids_def successively_append_iff)
  then show ?case using "2.IH" pm ys by (simp add: unpack_item_def)
qed simp

text \<open>
  C32: packing a list of lost packet ids and unpacking the items returns the same set of ids, for
  every list (also with duplicates and out of order), and the very same list when the ids ascend
  in the wrap-around order of sequence numbers.
\<close>

theorem nack_pack_unpack:
  assumes "packed nk = []"
  shows "let items = packed (SetPacketIds nk ids);
             ids' = packet_ids (Unpack (nk\<lparr>packed := items, packet_ids := []\<rparr>))
         in set ids' = set ids \<and> (ascending_ids ids \<longrightarrow> ids' = ids)"
  using assms unpack_pack_set [of ids] unpack_pack_exact [of ids]
  by (simp add: Unpack_def SetPacketIds_def Pack_def)

theorem nack_pack_unpack_witness:
  "ascending_ids [65534, 65535, 3, 20] \<and>
   packet_ids (Unpack \<lparr>nk_sender_ssrc = 1, nk_media_ssrc = 2,
      packed = [\<lparr>first_pid = 65534, bitmask = 0x11\<rparr>, \<lparr>first_pid = 20, bitmask = 0\<rparr>],
      packet_ids = []\<rparr>) = [65534, 65535, 3, 20]"
proof -
  have "AheadOf (65535 :: u16) 65534" "AheadOf (3 :: u16) 65535" "AheadOf (20 :: u16) 3"
    by (simp_all add: AheadOf_def AheadOrAt_def half_def ForwardDiff_def)
  then have asc: "ascending_ids [65534, 65535, 3, 20]" by (simp add: ascending_ids_def)
  show ?thesis
    using asc nack_pack_unpack [of "\<lparr>nk_sender_ssrc = 1, nk_media_ssrc = 2, packed = [], packet_ids = []\<rparr>"
        "[65534, 65535, 3, 20]"]
    by (simp add: SetPacketIds_def Pack_def Let_def)
qed

section \<open>Items on the wire\<close>

lemma read_nack_item_rd: "read_nack_item buf pos =
   do { pid \<leftarrow> rd16 buf pos; blp \<leftarrow> rd16 buf (pos + 2); Some \<lparr>first_pid = pid, bitmask = blp\<rparr> }"
  by (simp add: read_nack_item_def)

interpretation nack_codec: item_codec nack_item_bytes read_nack_item 4 "\<lambda>_. True"
proof
  fix x pre post
  show "read_nack_item (pre @ nack_item_bytes x @ post) (length pre) = Some x"
    using rd16_bytes [of "length pre" pre "first_pid x" "be16_bytes (bitmask x) @ post"]
      rd16_bytes [of "length pre + 2" "pre @ be16_bytes (first_pid x)" "bitmask x" post]
    by (simp add: read_nack_item_rd nack_item_bytes_def)
next
  fix pos :: nat and buf :: bytes assume "pos + 4 \<le> length buf"
  then show "\<exists>x. read_nack_item buf pos = Some x \<and> True"
    by (simp add: read_nack_item_rd rd16_in)
qed (simp add: nack_item_bytes_def)

text \<open>The bytes of one feedback packet.\<close>

definition nack_packet :: "u32 \<Rightarrow> u32 \<Rightarrow> packed_nack list \<Rightarrow> bytes" where
  "nack_packet s m items = feedback_bytes nack_item_bytes 1 205 (2 + length items) s m items"

lemma length_nack_packet [simp]: "length (nack_packet s m items) = 12 + 4 * length items"
  by (simp add: nack_packet_def nack_codec.length_feedback_bytes)

lemma nack_packet_parse:
  assumes "items \<noteq> []" and "length items < 65534"
  shows "\<exists>h. RtcpCommonHeader_Parse h0 (nack_packet s m items @ rest)
        (length (nack_packet s m items) + length rest) = Some (True, h) \<and>
      packet_size h = length (nack_packet s m items) \<and> NextPacket h = rest \<and>
      packet_type h = 205 \<and> count_or_format h = 1 \<and>
      Nack_Parse nk h = Some (True, nk\<lparr>nk_sender_ssrc := s, nk_media_ssrc := m, packed := items,
         packet_ids := concat (map unpack_item items)\<rparr>)"
proof -
  obtain h where h: "RtcpCommonHeader_Parse h0 (nack_packet s m items @ rest)
        (12 + 4 * length items + length rest) = Some (True, h)"
      "packet_size h = 12 + 4 * length items" "payload_size h = 8 + 4 * length items"
      "NextPacket h = rest" "packet_type h = 205" "count_or_format h = 1"
      "ParseCommonFeedback (payload h) = Some (s, m)"
      "read_items read_nack_item 4 (length items) (payload h) 8 = Some items"
    using nack_codec.feedback_parse [of 1 items "length items" h0 205 s m rest] assms(2)
    unfolding nack_packet_def by auto
  have "0 < length items" using assms(1) by simp
  with h show ?thesis by (intro exI [of _ h]) (auto simp: Nack_Parse_def Unpack_def Let_def)
qed

section \<open>Fragmentation\<close>

text \<open>
  What \<open>Create\<close> hands out: the datagrams given to the callback, followed by the one still in the
  buffer. Each is a run of complete feedback packets, the first one behind the bytes that were
  already in the buffer.
\<close>

definition datagrams :: "writer \<Rightarrow> bytes list" where
  "datagrams w = sent w @ [take (windex w) (wbuf w)]"

definition nack_run :: "u32 \<Rightarrow> u32 \<Rightarrow> packed_nack list list \<Rightarrow> bytes" where
  "nack_run s m chunks = concat (map (nack_packet s m) chunks)"

definition fragments_ok ::
  "u32 \<Rightarrow> u32 \<Rightarrow> nat \<Rightarrow> packed_nack list \<Rightarrow> writer \<Rightarrow> writer \<Rightarrow> bool" where
  "fragments_ok s m max_length items w w' \<longleftrightarrow>
     (\<exists>g gs. datagrams w' = sent w @ (take (windex w) (wbuf w) @ nack_run s m g) # map (nack_run s m) gs \<and>
        concat (concat (g # gs)) = items \<and>
        (\<forall>c \<in> set (concat (g # gs)). c \<noteq> [] \<and> length c < 65534) \<and>
        (\<forall>d \<in> set (drop (length (sent w)) (datagrams w')). length d \<le> max_length))"

lemma nack_create_loop_ok:
  assumes "16 \<le> max_length" and "max_length \<le> 262144"
    and "max_length \<le> length (wbuf w)" and "windex w \<le> max_length"
  shows "\<exists>w'. nack_create_loop s m max_length items w = Some (True, w') \<and>
    fragments_ok s m max_length items w w'"
  using assms
proof (induction s m max_length items w rule: nack_create_loop.induct)
  case (1 s m max_length items w)
  let ?left = "max_length - windex w"
  consider "items = []" | "items \<noteq> []" "?left < 16" | "items \<noteq> []" "16 \<le> ?left" by linarith
  then show ?case
  proof cases
    case 1
    then show ?thesis using "1.prems"
      by (auto simp: nack_create_loop.simps fragments_ok_def datagrams_def nack_run_def
          intro!: exI [of _ "[]"])
  next
    case 2
    let ?w1 = "w\<lparr>sent := sent w @ [take (windex w) (wbuf w)], windex := 0\<rparr>"
    have full: "OnBufferFull w = (True, ?w1)" using 2 "1.prems" by (auto simp: OnBufferFull_def)
    then obtain w' where w': "nack_create_loop s m max_length items ?w1 = Some (True, w')"
      "fragments_ok s m max_length items ?w1 w'"
      using "1.IH"(1) 2 "1.prems" by auto
    then obtain g gs where g: "datagrams w' = sent w @ take (windex w) (wbuf w) # nack_run s m g # map (nack_run s m) gs"
      "concat (concat (g # gs)) = items" "\<forall>c \<in> set (concat (g # gs)). c \<noteq> [] \<and> length c < 65534"
      "\<forall>d \<in> set (nack_run s m g # map (nack_run s m) gs). length d \<le> max_length"
      by (auto simp: fragments_ok_def)
    have "fragments_ok s m max_length items w w'"
      unfolding fragments_ok_def using g "1.prems"
      by (intro exI [of _ "[]"] exI [of _ "g # gs"]) (auto simp: nack_run_def)
    with w' full 2 "1.prems" show ?thesis by (subst nack_create_loop.simps) auto
  next
    case 3
    define n where "n = min ((?left - 12) div 4) (length items)"
    have n: "0 < n" "n \<le> length items" "12 + 4 * n \<le> ?left" "n < 65534"
      using 3 "1.prems" by (auto simp: n_def)
    have n': "min (length items) ((max_length - (windex w + 12)) div 4) = n"
      by (simp add: n_def min.commute)
    obtain pre mid post where b: "wbuf w = pre @ mid @ post" "length pre = windex w" "length mid = 12 + 4 * n"
      by (rule buffer_split3 [of "windex w" "12 + 4 * n" "wbuf w"]) (use n(3) "1.prems" in linarith)
    obtain w1 w2 where wr: "CreateHeader 1 205 (2 + n) False w = Some w1"
      "CreateCommonFeedback s m w1 = Some w2"
      "write_items (\<lambda>buf pos item. write_bytes buf pos (nack_item_bytes item)) 4 (take n items)
         (wbuf w2) (windex w2) =
       Some (pre @ nack_packet s m (take n items) @ post, windex w + (12 + 4 * n))"
      "sent w2 = sent w"
      using nack_codec.feedback_write [of w pre mid post "take n items" "2 + n" 1 205 s m] b n
      by (auto simp: nack_packet_def)
    let ?w3 = "w2\<lparr>wbuf := pre @ nack_packet s m (take n items) @ post, windex := windex w + (12 + 4 * n)\<rparr>"
    have "\<exists>w'. nack_create_loop s m max_length (drop n items) ?w3 = Some (True, w') \<and>
        fragments_ok s m max_length (drop n items) ?w3 w'"
      using 3 "1.prems" n b wr
      by (intro "1.IH"(2) [of ?left n "8 + n * 4" w1 w2])
         (auto simp: n' min.commute)
    then obtain w' where w': "nack_create_loop s m max_length (drop n items) ?w3 = Some (True, w')"
        "fragments_ok s m max_length (drop n items) ?w3 w'" by blast
    then obtain g gs where g: "datagrams w' =
        sent w @ (pre @ nack_packet s m (take n items) @ nack_run s m g) # map (nack_run s m) gs"
      "concat (concat (g # gs)) = drop n items" "\<forall>c \<in> set (concat (g # gs)). c \<noteq> [] \<and> length c < 65534"
      "\<forall>d \<in> set (drop (length (sent w)) (datagrams w')). length d \<le> max_length"
      using wr(4) b n by (auto simp: fragments_ok_def)
    have "fragments_ok s m max_length items w w'"
      unfolding fragments_ok_def using g b n 3
      by (intro exI [of _ "take n items # g"] exI [of _ gs]) (auto simp: nack_run_def)
    moreover have "nack_create_loop s m max_length items w = Some (True, w')"
      using 3 "1.prems" wr w'(1) n by (subst nack_create_loop.simps) (simp add: Let_def n' min.commute)
    ultimately show ?thesis by blast
  qed
qed

section \<open>Properties of Create and Parse\<close>

text \<open>
  C33: sending a list of lost ids of any length into a buffer of at least 16 bytes always succeeds;
  every datagram it fills is at most \<open>max_length\<close> bytes long and consists of whole feedback packets
  (behind what the first one already held); every one of these packets is accepted by the RTCP
  header parser and by \<open>Nack::Parse\<close>, whatever follows it in the datagram, and the ids the
  receiver unpacks from them are together exactly the ids that were set.
\<close>

theorem nack_create_parse:
  assumes "16 \<le> max_length" and "max_length \<le> 262144" and "max_length \<le> length (wbuf w)"
    and "windex w \<le> max_length" and "packed nk0 = []" and "nk = SetPacketIds nk0 ids"
  shows "\<exists>w' g gs. Nack_Create nk max_length w = Some (True, w') \<and>
    datagrams w' = sent w @ (take (windex w) (wbuf w) @
        nack_run (nk_sender_ssrc nk) (nk_media_ssrc nk) g) #
      map (nack_run (nk_sender_ssrc nk) (nk_media_ssrc nk)) gs \<and>
    (\<forall>d \<in> set (drop (length (sent w)) (datagrams w')). length d \<le> max_length) \<and>
    (\<forall>c \<in> set (concat (g # gs)). \<forall>h0 rest nk'. \<exists>h.
      RtcpCommonHeader_Parse h0 (nack_packet (nk_sender_ssrc nk) (nk_media_ssrc nk) c @ rest)
        (length (nack_packet (nk_sender_ssrc nk) (nk_media_ssrc nk) c) + length rest) = Some (True, h) \<and>
      NextPacket h = rest \<and> packet_type h = 205 \<and> count_or_format h = 1 \<and>
      Nack_Parse nk' h = Some (True, nk'\<lparr>nk_sender_ssrc := nk_sender_ssrc nk,
        nk_media_ssrc := nk_media_ssrc nk, packed := c, packet_ids := concat (map unpack_item c)\<rparr>)) \<and>
    set (concat (map unpack_item (concat (concat (g # gs))))) = set ids"
proof -
  let ?s = "nk_sender_ssrc nk" and ?m = "nk_media_ssrc nk"
  obtain w' where w': "Nack_Create nk max_length w = Some (True, w')"
    and ok: "fragments_ok ?s ?m max_length (packed nk) w w'"
    using nack_create_loop_ok [OF assms(1-4), of ?s ?m "packed nk"] by (auto simp: Nack_Create_def)
  obtain g gs where g: "datagrams w' = sent w @ (take (windex w) (wbuf w) @ nack_run ?s ?m g) # map (nack_run ?s ?m) gs"
    "concat (concat (g # gs)) = packed nk" "\<forall>c \<in> set (concat (g # gs)). c \<noteq> [] \<and> length c < 65534"
    "\<forall>d \<in> set (drop (length (sent w)) (datagrams w')). length d \<le> max_length"
    using ok unfolding fragments_ok_def by blast
  have parse: "\<exists>h. RtcpCommonHeader_Parse h0 (nack_packet ?s ?m c @ rest)
        (length (nack_packet ?s ?m c) + length rest) = Some (True, h) \<and>
      NextPacket h = rest \<and> packet_type h = 205 \<and> count_or_format h = 1 \<and>
      Nack_Parse nk' h = Some (True, nk'\<lparr>nk_sender_ssrc := ?s, nk_media_ssrc := ?m, packed := c,
        packet_ids := concat (map unpack_item c)\<rparr>)"
    if "c \<in> set (concat (g # gs))" for c h0 rest nk'
    using nack_packet_parse [of c h0 ?s ?m rest nk'] bspec [OF g(3) that] by blast
  have "packed nk = pack_items ids"
    using assms(5,6) by (simp add: SetPacketIds_def Pack_def)
  then have ids: "set (concat (map unpack_item (concat (concat (g # gs))))) = set ids"
    unfolding g(2) using unpack_pack_set [of ids] by simp
  show ?thesis
    by (intro exI [of _ w'] exI [of _ g] exI [of _ gs] conjI ballI allI w' g(1) ids parse)
       (use g(4) in auto)
qed

definition nack_demo :: nack where
  "nack_demo = \<lparr>nk_sender_ssrc = 1, nk_media_ssrc = 2, packed = [], packet_ids = []\<rparr>"

theorem nack_create_parse_witness:
  "\<exists>w'. Nack_Create (SetPacketIds nack_demo [1, 100, 200]) 16
     \<lparr>wbuf = replicate 16 0, windex = 0, sent = []\<rparr> = Some (True, w') \<and>
     (\<forall>d \<in> set (datagrams w'). length d \<le> 16)"
  using nack_create_parse [of 16 "\<lparr>wbuf = replicate 16 0, windex = 0, sent = []\<rparr>" nack_demo
      "SetPacketIds nack_demo [1, 100, 200]" "[1, 100, 200]"]
  by (auto simp: nack_demo_def)

text \<open>
  \<open>Nack::Parse\<close> on any accepted header stays inside the payload. It rejects exactly the payloads
  with no room for one item and leaves the object unchanged then; otherwise it replaces the items
  by all complete ones of the payload, at least one, and every item contributes at least its first id.
\<close>

theorem nack_parse_safe:
  assumes "size_bytes \<le> length buffer"
    and "RtcpCommonHeader_Parse h0 buffer size_bytes = Some (True, h)"
  shows "\<exists>ok nk'. Nack_Parse nk h = Some (ok, nk') \<and> ok = (12 \<le> payload_size h) \<and>
    (if ok then length (packed nk') = (payload_size h - 8) div 4 \<and> packed nk' \<noteq> [] \<and>
       packet_ids nk' = concat (map unpack_item (packed nk')) \<and>
       first_pid ` set (packed nk') \<subseteq> set (packet_ids nk')
     else nk' = nk)"
proof (cases "payload_size h < 12")
  case False
  have fits: "payload_size h \<le> length (payload h)"
    using header_parse_facts [OF assms(1), of h0] assms(2) by auto
  let ?n = "(payload_size h - 8) div 4"
  have n: "8 + 4 * ?n \<le> payload_size h" "0 < ?n" using False by auto
  obtain items where items: "read_items read_nack_item 4 ?n (payload h) 8 = Some items" "length items = ?n"
    using nack_codec.read_run_total [of 8 ?n "payload h"] n fits by auto
  moreover obtain a b where "ParseCommonFeedback (payload h) = Some (a, b)"
    using ParseCommonFeedback_total [of "payload h"] n fits by auto
  moreover have "items \<noteq> []" using n(2) items(2) by auto
  ultimately show ?thesis using False
    by (auto simp: Nack_Parse_def Unpack_def unpack_item_def Let_def)
qed (auto simp: Nack_Parse_def)

theorem nack_parse_safe_witness:
  "\<exists>ok nk'. Nack_Parse nack_demo
     (header_init\<lparr>count_or_format := 1, packet_type := 205, payload_size := 12,
        payload := [0, 0, 0, 1, 0, 0, 0, 2, 0, 9, 0, 1], padding_size := 0\<rparr>) = Some (ok, nk') \<and> ok"
  using nack_parse_safe [of 16 "[0x81, 205, 0, 3, 0, 0, 0, 1, 0, 0, 0, 2, 0, 9, 0, 1]" header_init
     "header_init\<lparr>count_or_format := 1, packet_type := 205, payload_size := 12,
        payload := [0, 0, 0, 1, 0, 0, 0, 2, 0, 9, 0, 1], padding_size := 0\<rparr>" nack_demo]
  by (auto simp: RtcpCommonHeader_Parse_def Let_def be16_of_def wire_simps)

end
