(* ===== verification/Rtcp_Fir.thy ===== *)
theory Rtcp_Fir
  imports Rtcp_Header
begin

text \<open>
  Full intra requests (\<^verbatim>\<open>src/rtcp/fir.cpp\<close>): payload-specific feedback (type 206, format 4) with
  8-byte entries of an SSRC, a command sequence number and three reserved bytes.
\<close>

section \<open>Model\<close>

definition kFciLength :: nat where "kFciLength = 8"

record fir_request =
  rq_ssrc :: u32
  rq_seq_nr :: u8

record fir =
  fir_sender_ssrc :: u32
  fir_media_ssrc :: u32
  fir_items :: "fir_request list"

definition AddRequestTo :: "fir \<Rightarrow> u32 \<Rightarrow> u8 \<Rightarrow> fir" where
  "AddRequestTo f ssrc seq_num =
     f\<lparr>fir_items := fir_items f @ [\<lparr>rq_ssrc = ssrc, rq_seq_nr = seq_num\<rparr>]\<rparr>"

definition read_fci :: "bytes \<Rightarrow> nat \<Rightarrow> fir_request option" where
  "read_fci buf pos =
     do { ssrc \<leftarrow> ReadBigEndian4 (drop pos buf); seq \<leftarrow> rd8 buf (pos + 4);
          Some \<lparr>rq_ssrc = ssrc, rq_seq_nr = seq\<rparr> }"

definition Fir_Parse :: "fir \<Rightarrow> rtcp_common_header \<Rightarrow> (bool \<times> fir) option" where
  "Fir_Parse f packet =
     (if payload_size packet < kCommonFeedbackLength + kFciLength then Some (False, f)
      else if (payload_size packet - kCommonFeedbackLength) mod kFciLength \<noteq> 0 then Some (False, f)
      else do {
        (sender, media) \<leftarrow> ParseCommonFeedback (payload packet);
        let number_of_fci_items = (payload_size packet - kCommonFeedbackLength) div kFciLength;
        items \<leftarrow> read_items read_fci kFciLength number_of_fci_items (payload packet) kCommonFeedbackLength;
        Some (True, f\<lparr>fir_sender_ssrc := sender, fir_media_ssrc := media, fir_items := items\<rparr>)
      })"

definition Fir_BlockLength :: "fir \<Rightarrow> nat" where
  "Fir_BlockLength f = kHeaderLength + kCommonFeedbackLength + kFciLength * length (fir_items f)"

definition fci_bytes :: "fir_request \<Rightarrow> bytes" where
  "fci_bytes r = be32_bytes (rq_ssrc r) @ [rq_seq_nr r] @ [0, 0, 0]"

text \<open>The loop that flushes the buffer until the packet fits.\<close>

function fir_make_room :: "nat \<Rightarrow> nat \<Rightarrow> writer \<Rightarrow> bool \<times> writer" where
  "fir_make_room block_length max_length w =
     (if windex w + block_length > max_length then
        (if fst (OnBufferFull w) then fir_make_room block_length max_length (snd (OnBufferFull w))
         else (False, w))
      else (True, w))"
  by pat_completeness auto
termination
  by (relation "measure (\<lambda>(b, l, w). windex w)") (auto simp: OnBufferFull_def split: if_splits)

declare fir_make_room.simps [simp del]

definition Fir_Create :: "fir \<Rightarrow> nat \<Rightarrow> writer \<Rightarrow> (bool \<times> writer) option" where
  "Fir_Create f max_length w0 =
     (let (room, w) = fir_make_room (Fir_BlockLength f) max_length w0 in
      if \<not> room then Some (False, w)
      else do {
        w1 \<leftarrow> CreateHeader 4 206 (HeaderLength (Fir_BlockLength f)) False w;
        w2 \<leftarrow> CreateCommonFeedback (fir_sender_ssrc f) (fir_media_ssrc f) w1;
        (buf, pos) \<leftarrow> write_items (\<lambda>buf pos r. write_bytes buf pos (fci_bytes r)) kFciLength
                        (fir_items f) (wbuf w2) (windex w2);
        Some (True, w2\<lparr>wbuf := buf, windex := pos\<rparr>)
      })"

section \<open>Entries on the wire\<close>

lemma read_fci_rd: "read_fci buf pos =
   do { ssrc \<leftarrow> rd32 buf pos; seq \<leftarrow> rd8 buf (pos + 4); Some \<lparr>rq_ssrc = ssrc, rq_seq_nr = seq\<rparr> }"
  by (simp add: read_fci_def)

interpretation fci_codec: item_codec fci_bytes read_fci 8 "\<lambda>_. True"
proof
  fix x pre post
  show "read_fci (pre @ fci_bytes x @ post) (length pre) = Some x"
    using rd32_bytes [of "length pre" pre "rq_ssrc x" "[rq_seq_nr x] @ [0, 0, 0] @ post"]
    by (simp add: read_fci_rd fci_bytes_def wire_simps)
next
  fix pos :: nat and buf :: bytes assume "pos + 8 \<le> length buf"
  then show "\<exists>x. read_fci buf pos = Some x \<and> True" by (simp add: read_fci_rd rd32_in)
qed (simp add: fci_bytes_def)

definition fir_packet :: "fir \<Rightarrow> bytes" where
  "fir_packet f = feedback_bytes fci_bytes 4 206 (2 + 2 * length (fir_items f))
     (fir_sender_ssrc f) (fir_media_ssrc f) (fir_items f)"

lemma length_fir_packet: "length (fir_packet f) = Fir_BlockLength f"
  by (simp add: fir_packet_def fci_codec.length_feedback_bytes Fir_BlockLength_def kFciLength_def)

lemma HeaderLength_fir: "HeaderLength (Fir_BlockLength f) = 2 + 2 * length (fir_items f)"
proof -
  have "Fir_BlockLength f = 4 * (3 + 2 * length (fir_items f))"
    by (simp add: Fir_BlockLength_def kFciLength_def)
  then show ?thesis unfolding HeaderLength_def by simp
qed

lemma fir_make_room_fits:
  assumes "block_length \<le> max_length"
  shows "fir_make_room block_length max_length w =
    (True, if windex w + block_length \<le> max_length then w else snd (OnBufferFull w))"
  using assms by (auto simp: fir_make_room.simps OnBufferFull_def)

lemma fir_make_room_fails:
  assumes "max_length < block_length"
  shows "fir_make_room block_length max_length w = (False, snd (OnBufferFull w))"
  using assms by (auto simp: fir_make_room.simps OnBufferFull_def)

section \<open>Properties\<close>

lemma fir_packet_parse:
  assumes "fir_items f \<noteq> []" and "2 * length (fir_items f) < 65534"
  shows "\<exists>h. RtcpCommonHeader_Parse h0 (fir_packet f @ rest) (length (fir_packet f) + length rest) =
      Some (True, h) \<and> NextPacket h = rest \<and> packet_type h = 206 \<and> count_or_format h = 4 \<and>
    Fir_Parse f0 h = Some (True, f0\<lparr>fir_sender_ssrc := fir_sender_ssrc f,
      fir_media_ssrc := fir_media_ssrc f, fir_items := fir_items f\<rparr>)"
proof -
  let ?n = "length (fir_items f)"
  obtain h where h: "RtcpCommonHeader_Parse h0 (fir_packet f @ rest)
        (12 + 4 * (2 * ?n) + length rest) = Some (True, h)"
      "payload_size h = 8 + 4 * (2 * ?n)"
      "NextPacket h = rest" "packet_type h = 206" "count_or_format h = 4"
      "ParseCommonFeedback (payload h) = Some (fir_sender_ssrc f, fir_media_ssrc f)"
      "read_items read_fci 8 ?n (payload h) 8 = Some (fir_items f)"
    using fci_codec.feedback_parse [of 4 "fir_items f" "2 * ?n" h0 206 "fir_sender_ssrc f"
        "fir_media_ssrc f" rest] assms(2)
    unfolding fir_packet_def by auto
  have "0 < ?n" using assms(1) by simp
  with h show ?thesis
    by (intro exI [of _ h])
       (auto simp: Fir_Parse_def kFciLength_def Let_def length_fir_packet Fir_BlockLength_def)
qed

lemma fir_create_at:
  assumes "windex w + Fir_BlockLength f \<le> length (wbuf w)" and "2 * length (fir_items f) < 65534"
    and "fir_make_room (Fir_BlockLength f) max_length w0 = (True, w)"
  shows "\<exists>w'. Fir_Create f max_length w0 = Some (True, w') \<and> sent w' = sent w \<and>
    take (windex w') (wbuf w') = take (windex w) (wbuf w) @ fir_packet f"
proof -
  let ?items = "fir_items f"
  obtain pre mid post where b: "wbuf w = pre @ mid @ post" "length pre = windex w"
    "length mid = Fir_BlockLength f"
    by (rule buffer_split3 [OF assms(1)])
  obtain w1 w2 where "CreateHeader 4 206 (2 + 2 * length ?items) False w = Some w1"
    "CreateCommonFeedback (fir_sender_ssrc f) (fir_media_ssrc f) w1 = Some w2"
    "write_items (\<lambda>buf pos r. write_bytes buf pos (fci_bytes r)) 8 ?items (wbuf w2) (windex w2) =
      Some (pre @ fir_packet f @ post, windex w + (12 + 8 * length ?items))" "sent w2 = sent w"
    using fci_codec.feedback_write [of w pre mid post ?items "2 + 2 * length ?items" 4 206
        "fir_sender_ssrc f" "fir_media_ssrc f"] b assms(2)
    by (auto simp: fir_packet_def Fir_BlockLength_def kFciLength_def)
  moreover have "length (fir_packet f) = 12 + 8 * length ?items"
    by (simp add: length_fir_packet Fir_BlockLength_def kFciLength_def)
  ultimately show ?thesis
    using assms(3) b by (simp add: Fir_Create_def HeaderLength_fir kFciLength_def)
qed

text \<open>
  \<open>Fir::Create\<close> writes its packet behind the bytes already in the buffer when it fits there,
  flushes them as a datagram of their own first when it does not, and fails without writing anything
  of the packet when it cannot fit at all; the packet it writes is accepted by the RTCP header
  parser and by \<open>Fir::Parse\<close>, which returns the SSRCs and all requests.
\<close>

theorem fir_create_parse:
  assumes "max_length \<le> length (wbuf w)" and "fir_items f \<noteq> []" and "2 * length (fir_items f) < 65534"
  shows "(if Fir_BlockLength f \<le> max_length then
       \<exists>w'. Fir_Create f max_length w = Some (True, w') \<and>
         sent w' @ [take (windex w') (wbuf w')] =
           (if windex w + Fir_BlockLength f \<le> max_length
            then sent w @ [take (windex w) (wbuf w) @ fir_packet f]
            else sent w @ [take (windex w) (wbuf w), fir_packet f])
     else Fir_Create f max_length w = Some (False, snd (OnBufferFull w))) \<and>
    (\<exists>h. RtcpCommonHeader_Parse h0 (fir_packet f @ rest) (Fir_BlockLength f + length rest) = Some (True, h) \<and>
       NextPacket h = rest \<and> packet_type h = 206 \<and> count_or_format h = 4 \<and>
       Fir_Parse f0 h = Some (True, f0\<lparr>fir_sender_ssrc := fir_sender_ssrc f,
         fir_media_ssrc := fir_media_ssrc f, fir_items := fir_items f\<rparr>))"
proof (intro conjI)
  let ?B = "Fir_BlockLength f"
  consider "?B > max_length" | "windex w + ?B \<le> max_length" | "?B \<le> max_length" "windex w + ?B > max_length"
    by linarith
  then show "if ?B \<le> max_length then
       \<exists>w'. Fir_Create f max_length w = Some (True, w') \<and>
         sent w' @ [take (windex w') (wbuf w')] =
           (if windex w + ?B \<le> max_length then sent w @ [take (windex w) (wbuf w) @ fir_packet f]
            else sent w @ [take (windex w) (wbuf w), fir_packet f])
     else Fir_Create f max_length w = Some (False, snd (OnBufferFull w))"
  proof cases
    case 1
    then show ?thesis by (simp add: Fir_Create_def fir_make_room_fails)
  next
    case 2
    then have "fir_make_room ?B max_length w = (True, w)" by (simp add: fir_make_room.simps)
    then show ?thesis using fir_create_at [of w f max_length w] 2 assms by auto
  next
    case 3
    let ?w = "w\<lparr>sent := sent w @ [take (windex w) (wbuf w)], windex := 0\<rparr>"
    have "fir_make_room ?B max_length w = (True, ?w)"
      using 3 by (auto simp: fir_make_room_fits OnBufferFull_def)
    then show ?thesis using fir_create_at [of ?w f max_length w] 3 assms by auto
  qed
next
  show "\<exists>h. RtcpCommonHeader_Parse h0 (fir_packet f @ rest) (Fir_BlockLength f + length rest) = Some (True, h) \<and>
       NextPacket h = rest \<and> packet_type h = 206 \<and> count_or_format h = 4 \<and>
       Fir_Parse f0 h = Some (True, f0\<lparr>fir_sender_ssrc := fir_sender_ssrc f,
         fir_media_ssrc := fir_media_ssrc f, fir_items := fir_items f\<rparr>)"
    using fir_packet_parse [OF assms(2,3), of h0 rest f0] by (simp add: length_fir_packet)
qed

definition fir_demo :: fir where
  "fir_demo = AddRequestTo \<lparr>fir_sender_ssrc = 7, fir_media_ssrc = 0, fir_items = []\<rparr> 1234 5"

theorem fir_create_parse_witness:
  "\<exists>w'. Fir_Create fir_demo 24 \<lparr>wbuf = replicate 24 0, windex = 8, sent = []\<rparr> = Some (True, w') \<and>
     sent w' @ [take (windex w') (wbuf w')] = [replicate 8 0, fir_packet fir_demo]"
  using fir_create_parse [of 24 "\<lparr>wbuf = replicate 24 0, windex = 8, sent = []\<rparr>" fir_demo]
  by (simp add: fir_demo_def AddRequestTo_def Fir_BlockLength_def kFciLength_def)

text \<open>
  \<open>Fir::Parse\<close> on any accepted header stays inside the payload, accepts exactly the payloads
  that are a positive whole number of entries behind the two SSRCs, and changes nothing when it
  rejects.
\<close>

theorem fir_parse_safe:
  assumes "size_bytes \<le> length buffer"
    and "RtcpCommonHeader_Parse h0 buffer size_bytes = Some (True, h)"
  shows "\<exists>ok f'. Fir_Parse f h = Some (ok, f') \<and>
    ok = (\<exists>k. 0 < k \<and> payload_size h = 8 + 8 * k) \<and>
    (if ok then 8 * length (fir_items f') + 8 = payload_size h else f' = f)"
proof (cases "payload_size h < 16 \<or> (payload_size h - 8) mod 8 \<noteq> 0")
  case True
  then have "\<not> (\<exists>k. 0 < k \<and> payload_size h = 8 + 8 * k)" by auto
  with True show ?thesis by (auto simp: Fir_Parse_def kFciLength_def)
next
  case False
  have fits: "payload_size h \<le> length (payload h)"
    using header_parse_facts [OF assms(1), of h0] assms(2) by auto
  obtain k where k: "payload_size h = 8 + 8 * k" "0 < k"
  proof
    show "payload_size h = 8 + 8 * ((payload_size h - 8) div 8)" using False by auto
    show "0 < (payload_size h - 8) div 8" using False by auto
  qed
  obtain items where "read_items read_fci 8 k (payload h) 8 = Some items" "length items = k"
    using fci_codec.read_run_total [of 8 k "payload h"] k fits by auto
  moreover obtain a b where "ParseCommonFeedback (payload h) = Some (a, b)"
    using ParseCommonFeedback_total [of "payload h"] k fits by auto
  ultimately show ?thesis using k
    by (auto simp: Fir_Parse_def kFciLength_def Let_def)
qed

theorem fir_parse_safe_witness:
  "\<exists>ok f'. Fir_Parse fir_demo
     (header_init\<lparr>count_or_format := 4, packet_type := 206, payload_size := 8,
        payload := [0, 0, 0, 1, 0, 0, 0, 2], padding_size := 0\<rparr>) = Some (ok, f')"
  using fir_parse_safe [of 12 "[0x84, 206, 0, 2, 0, 0, 0, 1, 0, 0, 0, 2]" header_init
     "header_init\<lparr>count_or_format := 4, packet_type := 206, payload_size := 8,
        payload := [0, 0, 0, 1, 0, 0, 0, 2], padding_size := 0\<rparr>" fir_demo]
  by (simp add: RtcpCommonHeader_Parse_def Let_def be16_of_def wire_simps) blast

end
