(* ===== verification/Receiver_Rtt.thy ===== *)
theory Receiver_Rtt
  imports Rtcp_Header
begin

text \<open>
  RFC 3611 receiver round-trip times (\<^verbatim>\<open>src/rtcp/rtcp_packet/receiver_rtt.h\<close>): extended reports
  with a receiver reference time (block type 4) and DLRR replies (block type 5), and the table of
  pending probes that turns a reply into a round-trip time.

  Times (\<open>int64_t\<close> microseconds of a monotonic clock) are integers; differences of two clock values
  do not overflow. The lock around the table makes every operation atomic.
\<close>

section \<open>Model\<close>

record dlrr =
  dl_ssrc :: u32
  last_rr :: u32
  dl_delay :: u32

record rtt_report =
  rp_sender_ssrc :: u32
  reference_time :: "u64 option"
  replies :: "dlrr list"

definition report_init :: rtt_report where
  "report_init = \<lparr>rp_sender_ssrc = 0, reference_time = None, replies = []\<rparr>"

definition NeedsReply :: "rtt_report \<Rightarrow> bool" where
  "NeedsReply r =
     (case reference_time r of None \<Rightarrow> False | Some t \<Rightarrow> t \<noteq> 0 \<and> replies r = [])"

definition Read32 :: "bytes \<Rightarrow> nat \<Rightarrow> u32 option" where
  "Read32 buf p =
     do { a \<leftarrow> rd8 buf p; b \<leftarrow> rd8 buf (p + 1); c \<leftarrow> rd8 buf (p + 2); d \<leftarrow> rd8 buf (p + 3);
          Some (push_bit 24 (ucast a) OR push_bit 16 (ucast b) OR push_bit 8 (ucast c) OR ucast d) }"

definition read_dlrr :: "bytes \<Rightarrow> nat \<Rightarrow> dlrr option" where
  "read_dlrr buf i =
     do { a \<leftarrow> Read32 buf i; b \<leftarrow> Read32 buf (i + 4); c \<leftarrow> Read32 buf (i + 8);
          Some \<lparr>dl_ssrc = a, last_rr = b, dl_delay = c\<rparr> }"

text \<open>
  The loop of \<open>Parse\<close> over the report blocks. The result is \<open>Some None\<close> where the code returns
  false, \<^const>\<open>None\<close> on an access outside the buffer. The loop over the entries of a DLRR block
  runs \<open>(length - 4) / 12\<close> times.
\<close>

function parse_blocks :: "bytes \<Rightarrow> nat \<Rightarrow> nat \<Rightarrow> rtt_report \<Rightarrow> rtt_report option option" where
  "parse_blocks pl sz pos parsed =
     (if pos < sz then
        (if sz - pos < 4 then Some None
         else do {
           b2 \<leftarrow> rd8 pl (pos + 2); b3 \<leftarrow> rd8 pl (pos + 3);
           let len = (unat b2 * 256 + unat b3 + 1) * 4;
           if len > sz - pos then Some None
           else do {
             bt \<leftarrow> rd8 pl pos;
             if bt = 4 then
               (if len \<noteq> 12 \<or> reference_time parsed \<noteq> None then Some None
                else do {
                  hi \<leftarrow> Read32 pl (pos + 4); lo \<leftarrow> Read32 pl (pos + 8);
                  parse_blocks pl sz (pos + len)
                    (parsed\<lparr>reference_time := Some (push_bit 32 (ucast hi) OR ucast lo)\<rparr>) })
             else if bt = 5 then
               (if (len - 4) mod 12 \<noteq> 0 then Some None
                else do {
                  ds \<leftarrow> read_items read_dlrr 12 ((len - 4) div 12) pl (pos + 4);
                  parse_blocks pl sz (pos + len) (parsed\<lparr>replies := replies parsed @ ds\<rparr>) })
             else parse_blocks pl sz (pos + len) parsed
           }
         })
      else Some (Some parsed))"
  by pat_completeness auto
termination
  by (relation "measure (\<lambda>(pl, sz, pos, parsed). sz - pos)") auto

declare parse_blocks.simps [simp del]

text \<open>A null payload is \<^const>\<open>None\<close>. On success the report is replaced.\<close>

definition Rtt_Parse :: "bytes option \<Rightarrow> nat \<Rightarrow> rtt_report \<Rightarrow> (bool \<times> rtt_report) option" where
  "Rtt_Parse payload_opt sz report =
     (case payload_opt of None \<Rightarrow> Some (False, report)
      | Some pl \<Rightarrow>
          if sz < 4 then Some (False, report)
          else do {
            ssrc \<leftarrow> Read32 pl 0;
            res \<leftarrow> parse_blocks pl sz 4 (report_init\<lparr>rp_sender_ssrc := ssrc\<rparr>);
            Some (case res of None \<Rightarrow> (False, report) | Some parsed \<Rightarrow> (True, parsed)) })"

record probe_time =
  compact_ntp :: u32
  sent_us :: int

definition Compact :: "u64 \<Rightarrow> u32" where
  "Compact ntp = ucast (drop_bit 16 ntp)"

definition Write32 :: "bytes \<Rightarrow> nat \<Rightarrow> u32 \<Rightarrow> bytes option" where
  "Write32 buf p v =
     write_bytes buf p [ucast (drop_bit 24 v), ucast (drop_bit 16 v), ucast (drop_bit 8 v), ucast v]"

definition xr_Header :: "u32 \<Rightarrow> nat \<Rightarrow> bytes option" where
  "xr_Header ssrc sz =
     do { p1 \<leftarrow> write_bytes (replicate sz 0) 0 [0x80];
          p2 \<leftarrow> write_bytes p1 1 [207];
          p3 \<leftarrow> write_bytes p2 3 [of_nat (sz div 4 - 1)];
          Write32 p3 4 ssrc }"

definition Probe :: "probe_time list \<Rightarrow> u32 \<Rightarrow> u64 \<Rightarrow> int \<Rightarrow> (bytes \<times> probe_time list) option" where
  "Probe pending ssrc ntp now_us =
     (let pending1 = pending @ [\<lparr>compact_ntp = Compact ntp, sent_us = now_us\<rparr>];
          pending2 = drop (length pending1 - 8) pending1
      in do {
        p0 \<leftarrow> xr_Header ssrc 20;
        p1 \<leftarrow> write_bytes p0 8 [4];
        p2 \<leftarrow> write_bytes p1 11 [2];
        p3 \<leftarrow> Write32 p2 12 (ucast (drop_bit 32 ntp));
        p4 \<leftarrow> Write32 p3 16 (ucast ntp);
        Some (p4, pending2) })"

text \<open>The delay is converted at 64 bits: \<open>uint64_t(delay_us) * 65536 / 1000000\<close>, then truncated.\<close>

definition dlrr_delay :: "int \<Rightarrow> u32" where
  "dlrr_delay delay_us = ucast ((word_of_int delay_us :: u64) * 65536 div 1000000)"

definition Reply :: "u32 \<Rightarrow> u32 \<Rightarrow> u64 \<Rightarrow> int \<Rightarrow> u64 \<Rightarrow> bytes option" where
  "Reply local_ssrc receiver_ssrc ntp delay_us reply_ntp =
     do {
       p0 \<leftarrow> xr_Header local_ssrc (if reply_ntp \<noteq> 0 then 36 else 24);
       p1 \<leftarrow> write_bytes p0 8 [5];
       p2 \<leftarrow> write_bytes p1 11 [3];
       p3 \<leftarrow> Write32 p2 12 receiver_ssrc;
       p4 \<leftarrow> Write32 p3 16 (Compact ntp);
       p5 \<leftarrow> Write32 p4 20 (dlrr_delay delay_us);
       if reply_ntp \<noteq> 0 then do {
         q1 \<leftarrow> write_bytes p5 24 [4];
         q2 \<leftarrow> write_bytes q1 27 [2];
         q3 \<leftarrow> Write32 q2 28 (ucast (drop_bit 32 reply_ntp));
         Write32 q3 32 (ucast reply_ntp) }
       else Some p5 }"

definition Rtt_Reset :: "probe_time list \<Rightarrow> probe_time list" where
  "Rtt_Reset pending = []"

text \<open>The scan for the first pending probe with the echoed time stamp, which is erased.\<close>

fun receive_scan :: "u32 \<Rightarrow> probe_time list \<Rightarrow> (int \<times> probe_time list) option" where
  "receive_scan rr [] = None"
| "receive_scan rr (p # ps) =
     (if compact_ntp p \<noteq> rr
      then map_option (\<lambda>(t, ps'). (t, p # ps')) (receive_scan rr ps)
      else Some (sent_us p, ps))"

definition Rtt_Receive :: "probe_time list \<Rightarrow> dlrr \<Rightarrow> u32 \<Rightarrow> int \<Rightarrow> int option \<times> probe_time list" where
  "Rtt_Receive pending reply local_ssrc now_us =
     (if dl_ssrc reply \<noteq> local_ssrc \<or> last_rr reply = 0 then (None, pending)
      else case receive_scan (last_rr reply) pending of
        None \<Rightarrow> (None, pending)
      | Some (t0, pending') \<Rightarrow>
          let elapsed = now_us - t0;
              delay = int (unat (dl_delay reply)) * 1000000 div 65536
          in if elapsed < 0 \<or> elapsed > 5000000 \<or> delay > elapsed \<or> elapsed - delay > 2000000
             then (None, pending')
             else (Some (elapsed - delay), pending'))"

section \<open>Report blocks on the wire\<close>

lemma Read32_rd32 [simp]: "Read32 buf p = rd32 buf p"
  by (simp add: Read32_def rd32_def be32_of_def)

lemma Write32_bytes [simp]: "Write32 buf p v = write_bytes buf p (be32_bytes v)"
  by (simp add: Write32_def be32_bytes_def)

definition dlrr_bytes :: "dlrr \<Rightarrow> bytes" where
  "dlrr_bytes d = be32_bytes (dl_ssrc d) @ be32_bytes (last_rr d) @ be32_bytes (dl_delay d)"

interpretation dlrr_codec: item_codec dlrr_bytes read_dlrr 12 "\<lambda>_. True"
proof
  fix x pre post
  show "read_dlrr (pre @ dlrr_bytes x @ post) (length pre) = Some x"
    using rd32_bytes [of "length pre" pre "dl_ssrc x" "be32_bytes (last_rr x) @ be32_bytes (dl_delay x) @ post"]
      rd32_bytes [of "length pre + 4" "pre @ be32_bytes (dl_ssrc x)" "last_rr x" "be32_bytes (dl_delay x) @ post"]
      rd32_bytes [of "length pre + 8" "pre @ be32_bytes (dl_ssrc x) @ be32_bytes (last_rr x)" "dl_delay x" post]
    by (simp add: read_dlrr_def dlrr_bytes_def)
next
  fix pos :: nat and buf :: bytes assume "pos + 12 \<le> length buf"
  then show "\<exists>x. read_dlrr buf pos = Some x \<and> True" by (simp add: read_dlrr_def rd32_in)
qed (simp add: dlrr_bytes_def)

text \<open>
  What an extended report means: a sequence of blocks, each a reference time, a list of DLRR
  entries, or a block of another type, which is skipped. A second reference time is an error.
\<close>

datatype xr_block = RefTime u64 | DlrrBlock "dlrr list" | OtherBlock u8 bytes

fun xr_bytes :: "xr_block \<Rightarrow> bytes" where
  "xr_bytes (RefTime t) = [4, 0] @ be16_bytes 2 @ be32_bytes (ucast (drop_bit 32 t)) @ be32_bytes (ucast t)"
| "xr_bytes (DlrrBlock ds) = [5, 0] @ be16_bytes (of_nat (3 * length ds)) @ concat (map dlrr_bytes ds)"
| "xr_bytes (OtherBlock bt body) = [bt, 0] @ be16_bytes (of_nat (length body div 4)) @ body"

fun xr_block_ok :: "xr_block \<Rightarrow> bool" where
  "xr_block_ok (RefTime t) = True"
| "xr_block_ok (DlrrBlock ds) = (3 * length ds < 65536)"
| "xr_block_ok (OtherBlock bt body) =
     (bt \<noteq> 4 \<and> bt \<noteq> 5 \<and> length body mod 4 = 0 \<and> length body div 4 < 65536)"

fun apply_blocks :: "xr_block list \<Rightarrow> rtt_report \<Rightarrow> rtt_report option" where
  "apply_blocks [] r = Some r"
| "apply_blocks (RefTime t # bs) r =
     (if reference_time r \<noteq> None then None else apply_blocks bs (r\<lparr>reference_time := Some t\<rparr>))"
| "apply_blocks (DlrrBlock ds # bs) r = apply_blocks bs (r\<lparr>replies := replies r @ ds\<rparr>)"
| "apply_blocks (OtherBlock bt body # bs) r = apply_blocks bs r"

lemma rd_block_header:
  assumes "p = length pre"
  shows "rd8 (pre @ [a, z] @ be16_bytes w @ post) p = Some a \<and>
    (\<exists>b2 b3. rd8 (pre @ [a, z] @ be16_bytes w @ post) (p + 2) = Some b2 \<and>
       rd8 (pre @ [a, z] @ be16_bytes w @ post) (p + 3) = Some b3 \<and> unat b2 * 256 + unat b3 = unat w)"
proof -
  have "unat (ucast (drop_bit 8 w) :: u8) * 256 + unat (ucast w :: u8) = unat w"
    using unat_be16 [of "ucast (drop_bit 8 w)" "ucast w"] by simp
  with assms show ?thesis by (simp add: be16_bytes_def wire_simps)
qed

lemma join_words: "push_bit 32 (ucast (ucast (drop_bit 32 t) :: u32)) OR ucast (ucast t :: u32) = (t :: u64)"
proof (rule bit_word_eqI)
  fix n assume "n < LENGTH(64)"
  then show "bit (push_bit 32 (ucast (ucast (drop_bit 32 t) :: u32)) OR ucast (ucast t :: u32) :: u64) n = bit t n"
    by (cases "32 \<le> n") (auto simp: bit_simps)
qed

lemma parse_blocks_end: "sz \<le> pos \<Longrightarrow> parse_blocks pl sz pos r = Some (Some r)"
  by (simp add: parse_blocks.simps)

text \<open>One iteration of the loop on a block whose header announces \<open>unat w + 1\<close> words.\<close>

lemma parse_blocks_step:
  assumes pl: "pl = pre @ ([bt, z] @ be16_bytes w @ body) @ rest" and p: "p = length pre"
    and len: "length body = 4 * unat w" and sz: "length pre + 4 + length body \<le> sz"
  shows "parse_blocks pl sz p r =
    (if bt = 4 then
       (if unat w \<noteq> 2 \<or> reference_time r \<noteq> None then Some None
        else do { hi \<leftarrow> rd32 pl (p + 4); lo \<leftarrow> rd32 pl (p + 8);
             parse_blocks pl sz (p + 12)
               (r\<lparr>reference_time := Some (push_bit 32 (ucast hi) OR ucast lo)\<rparr>) })
     else if bt = 5 then
       (if (4 * unat w) mod 12 \<noteq> 0 then Some None
        else do { ds \<leftarrow> read_items read_dlrr 12 (4 * unat w div 12) pl (p + 4);
             parse_blocks pl sz (p + 4 + length body) (r\<lparr>replies := replies r @ ds\<rparr>) })
     else parse_blocks pl sz (p + 4 + length body) r)"
proof -
  obtain b2 b3 where rd: "rd8 pl p = Some bt" "rd8 pl (p + 2) = Some b2" "rd8 pl (p + 3) = Some b3"
    "unat b2 * 256 + unat b3 = unat w"
    using rd_block_header [OF p, of bt z w "body @ rest"] by (auto simp: pl)
  have e: "unat b2 * 1024 + unat b3 * 4 = unat w * 4" using rd(4) by (simp flip: rd(4))
  have rd2: "rd8 pl (Suc (Suc p)) = Some b2" using rd(2) by simp
  have "(unat b2 * 256 + unat b3 + 1) * 4 = 4 + length body" "p < sz" "\<not> sz - p < 4" "4 + length body \<le> sz - p"
    using rd(4) len sz p by auto
  then show ?thesis
    by (subst parse_blocks.simps)
       (cases "bt = 4"; cases "bt = 5"; cases "unat w = 2"; simp add: rd(1-3) rd2 e Let_def len mult.commute add.assoc)
qed

lemma parse_blocks_encoded:
  assumes "\<forall>b \<in> set bs. xr_block_ok b"
  shows "parse_blocks (pre @ concat (map xr_bytes bs) @ rest)
    (length pre + length (concat (map xr_bytes bs))) (length pre) r = Some (apply_blocks bs r)"
  using assms
proof (induction bs arbitrary: pre r)
  case Nil
  then show ?case by (simp add: parse_blocks_end)
next
  case (Cons b bs)
  define tl where "tl = concat (map xr_bytes bs) @ rest"
  define pl where "pl = pre @ xr_bytes b @ tl"
  define sz where "sz = length pre + length (xr_bytes b) + length (concat (map xr_bytes bs))"
  have ih: "parse_blocks pl sz (length pre + length (xr_bytes b)) r' = Some (apply_blocks bs r')" for r'
    using Cons.IH [of "pre @ xr_bytes b" r'] Cons.prems by (simp add: pl_def sz_def tl_def)
  have szb: "length pre + length (xr_bytes b) \<le> sz" by (simp add: sz_def)
  have "parse_blocks pl sz (length pre) r = Some (apply_blocks (b # bs) r)"
  proof (cases b)
    case (RefTime t)
    let ?hi = "be32_bytes (ucast (drop_bit 32 t))" and ?lo = "be32_bytes (ucast t)"
    have "rd32 pl (length pre + 4) = Some (ucast (drop_bit 32 t))"
      using rd32_bytes [of "length pre + 4" "pre @ [4, 0] @ be16_bytes 2" _ "?lo @ tl"]
      by (simp add: RefTime pl_def)
    moreover have "rd32 pl (length pre + 8) = Some (ucast t)"
      using rd32_bytes [of "length pre + 8" "pre @ [4, 0] @ be16_bytes 2 @ ?hi" _ tl]
      by (simp add: RefTime pl_def)
    moreover have lb: "length (xr_bytes b) = 12" by (simp add: RefTime)
    ultimately show ?thesis
      using parse_blocks_step [of pl pre 4 0 2 "?hi @ ?lo" tl "length pre" sz r] ih szb
      by (simp add: RefTime join_words pl_def)
  next
    case (DlrrBlock ds)
    let ?w = "of_nat (3 * length ds) :: u16"
    have w: "unat ?w = 3 * length ds" using Cons.prems DlrrBlock by (intro unat_of_nat_small) simp
    have rd: "read_items read_dlrr 12 (length ds) pl (length pre + 4) = Some ds"
      using dlrr_codec.read_run [of ds "pre @ [5, 0] @ be16_bytes ?w" tl]
      by (simp add: DlrrBlock pl_def)
    have pl: "pl = pre @ ([5, 0] @ be16_bytes ?w @ concat (map dlrr_bytes ds)) @ tl"
      by (simp add: pl_def DlrrBlock)
    have lb: "length (xr_bytes b) = 4 + 12 * length ds"
      by (simp add: DlrrBlock dlrr_codec.enc_run_length)
    show ?thesis
      using parse_blocks_step [OF pl refl, of sz r] ih [unfolded lb] szb [unfolded lb] rd
      unfolding w by (simp add: DlrrBlock dlrr_codec.enc_run_length add.assoc)
  next
    case (OtherBlock bt body)
    let ?w = "of_nat (length body div 4) :: u16"
    have "unat ?w = length body div 4" using Cons.prems OtherBlock by (intro unat_of_nat_small) simp
    then have w: "length body = 4 * unat ?w" using Cons.prems OtherBlock by auto
    have pl: "pl = pre @ ([bt, 0] @ be16_bytes ?w @ body) @ tl" by (simp add: pl_def OtherBlock)
    have lb: "length (xr_bytes b) = 4 + length body" by (simp add: OtherBlock)
    show ?thesis
      using parse_blocks_step [OF pl refl w, of sz r] ih [unfolded lb] szb [unfolded lb] Cons.prems
      by (simp add: OtherBlock add.assoc)
  qed
  then show ?case by (simp add: pl_def sz_def tl_def add.assoc)
qed

lemma parse_blocks_short:
  assumes "pos + 4 \<le> sz" "sz \<le> length pl"
    and "sz < pos + 4 + 4 * unat (be16_of (pl ! (pos + 2)) (pl ! (pos + 3)))"
  shows "parse_blocks pl sz pos r = Some None"
proof -
  have "rd8 pl (Suc (Suc pos)) = Some (pl ! (pos + 2))" "rd8 pl (pos + 3) = Some (pl ! (pos + 3))"
    using assms by simp_all
  with assms show ?thesis by (subst parse_blocks.simps) (simp add: Let_def unat_be16)
qed

lemma parse_blocks_total: "sz \<le> length pl \<Longrightarrow> \<exists>res. parse_blocks pl sz pos r = Some res"
proof (induction "sz - pos" arbitrary: pos r rule: less_induct)
  case less
  define w where "w = be16_of (pl ! (pos + 2)) (pl ! (pos + 3))"
  consider "sz \<le> pos" | "pos < sz" "sz < pos + 4" | "pos + 4 \<le> sz" "sz < pos + 4 + 4 * unat w"
    | "pos + 4 + 4 * unat w \<le> sz" by linarith
  then show ?case
  proof cases
    case 4
    have w: "be16_bytes w = [pl ! (pos + 2), pl ! (pos + 3)]" by (simp add: w_def)
    have "4 * unat w \<le> length (drop (pos + 4) pl)" using 4 less.prems unfolding length_drop by linarith
    then obtain body rest where tl: "drop (pos + 4) pl = body @ rest" "length body = 4 * unat w"
      using split_at by blast
    have "pl = take pos pl @ ([pl ! pos, pl ! (pos + 1)] @ be16_bytes w @ body) @ rest"
      using take_4_drop [of pos pl] 4 less.prems by (simp add: w tl(1))
    note step = parse_blocks_step [OF this _ tl(2), of pos sz r]
    have ih: "\<exists>res. parse_blocks pl sz (pos + k) r' = Some res" if "0 < k" for k r'
      using less.hyps [of "pos + k" r'] less.prems that 4 by (cases "pos < sz") auto
    have "pos + 4 + 12 * (4 * unat w div 12) \<le> length pl" using 4 less.prems by linarith
    from dlrr_codec.read_run_total [OF this]
    have "\<exists>ds. read_items read_dlrr 12 (4 * unat w div 12) pl (pos + 4) = Some ds" by blast
    then show ?thesis
      using step 4 less.prems tl(2) ih [of 12] ih [of "4 + 4 * unat w"]
      by (auto simp: rd32_in add.assoc)
  next
    case 3
    with less.prems show ?thesis unfolding w_def by (blast intro: parse_blocks_short)
  qed (use less.prems in \<open>auto simp: parse_blocks.simps\<close>)
qed

section \<open>Properties\<close>

text \<open>
  C36: parsing an extended report of any content stays inside the payload; a rejected report leaves
  the caller's object unchanged; and a report that is a sequence of well-formed blocks (reference
  times, DLRR lists, blocks of unknown types) is parsed block by block, rejected exactly when it
  carries two reference times.
\<close>

theorem rtt_parse_blocks:
  "(sz \<le> length pl \<longrightarrow>
     (\<exists>ok rp. Rtt_Parse (Some pl) sz report = Some (ok, rp) \<and> (\<not> ok \<longrightarrow> rp = report))) \<and>
   ((\<forall>b \<in> set bs. xr_block_ok b) \<longrightarrow>
     Rtt_Parse (Some (be32_bytes ssrc @ concat (map xr_bytes bs))) (4 + length (concat (map xr_bytes bs))) report =
     Some (case apply_blocks bs (report_init\<lparr>rp_sender_ssrc := ssrc\<rparr>) of
             None \<Rightarrow> (False, report) | Some parsed \<Rightarrow> (True, parsed)))"
proof (intro conjI impI)
  assume sz: "sz \<le> length pl"
  show "\<exists>ok rp. Rtt_Parse (Some pl) sz report = Some (ok, rp) \<and> (\<not> ok \<longrightarrow> rp = report)"
  proof (cases "sz < 4")
    case False
    then obtain v where v: "rd32 pl 0 = Some v" using sz by (cases "rd32 pl 0") auto
    obtain res where "parse_blocks pl sz 4 (report_init\<lparr>rp_sender_ssrc := v\<rparr>) = Some res"
      using parse_blocks_total [OF sz] by blast
    with False v show ?thesis by (cases res) (auto simp: Rtt_Parse_def)
  qed (auto simp: Rtt_Parse_def)
next
  assume "\<forall>b \<in> set bs. xr_block_ok b"
  then show "Rtt_Parse (Some (be32_bytes ssrc @ concat (map xr_bytes bs))) (4 + length (concat (map xr_bytes bs))) report =
     Some (case apply_blocks bs (report_init\<lparr>rp_sender_ssrc := ssrc\<rparr>) of
             None \<Rightarrow> (False, report) | Some parsed \<Rightarrow> (True, parsed))"
    using parse_blocks_encoded [of bs "be32_bytes ssrc" "[]"] rd32_bytes [of 0 "[]" ssrc]
    by (simp add: Rtt_Parse_def)
qed

theorem rtt_parse_blocks_witness:
  "Rtt_Parse (Some (be32_bytes 7 @ concat (map xr_bytes [RefTime 9, OtherBlock 1 [], RefTime 10])))
     (4 + length (concat (map xr_bytes [RefTime 9, OtherBlock 1 [], RefTime 10]))) report_init =
   Some (False, report_init)"
  using rtt_parse_blocks [of 0 "[]" report_init "[RefTime 9, OtherBlock 1 [], RefTime 10]" 7]
  by (simp add: report_init_def)

lemma replicate_2: "replicate 2 x = [x, x]"
  by (simp add: numeral_2_eq_2)

lemma xr_Header_bytes:
  "xr_Header ssrc 20 = Some ([0x80, 207, 0, 4] @ be32_bytes ssrc @ replicate 12 0)"
  "xr_Header ssrc 24 = Some ([0x80, 207, 0, 5] @ be32_bytes ssrc @ replicate 16 0)"
  "xr_Header ssrc 36 = Some ([0x80, 207, 0, 8] @ be32_bytes ssrc @ replicate 28 0)"
  by (simp_all add: xr_Header_def write_bytes_def be32_bytes_def)

lemma Probe_bytes:
  "Probe pending ssrc ntp now_us =
     Some (hdr4 0 207 4 @ be32_bytes ssrc @ concat (map xr_bytes [RefTime ntp]),
           drop (Suc (length pending) - 8) (pending @ [\<lparr>compact_ntp = Compact ntp, sent_us = now_us\<rparr>]))"
  by (simp add: Probe_def xr_Header_bytes write_bytes_def be32_bytes_def be16_bytes_def hdr4_def Let_def replicate_2)

lemma Reply_bytes:
  "Reply local receiver ntp d reply_ntp =
     (let dl = DlrrBlock [\<lparr>dl_ssrc = receiver, last_rr = Compact ntp, dl_delay = dlrr_delay d\<rparr>] in
      Some (if reply_ntp = 0
        then hdr4 0 207 5 @ be32_bytes local @ concat (map xr_bytes [dl])
        else hdr4 0 207 8 @ be32_bytes local @ concat (map xr_bytes [dl, RefTime reply_ntp])))"
  by (simp add: Reply_def xr_Header_bytes write_bytes_def be32_bytes_def be16_bytes_def hdr4_def
      dlrr_bytes_def Let_def replicate_2)

text \<open>Both packets are accepted by the common header parser and carry their report as the payload.\<close>

lemma xr_packet_parse:
  assumes "\<forall>b \<in> set bs. xr_block_ok b" and "length (concat (map xr_bytes bs)) + 4 = 4 * unat w"
    and "apply_blocks bs (report_init\<lparr>rp_sender_ssrc := ssrc\<rparr>) = Some parsed"
  shows "\<exists>h. RtcpCommonHeader_Parse h0 (hdr4 0 207 w @ be32_bytes ssrc @ concat (map xr_bytes bs))
      (length (hdr4 0 207 w @ be32_bytes ssrc @ concat (map xr_bytes bs))) = Some (True, h) \<and>
    packet_type h = 207 \<and> Rtt_Parse (Some (payload h)) (payload_size h) report = Some (True, parsed)"
proof -
  let ?body = "be32_bytes ssrc @ concat (map xr_bytes bs)"
  have "Rtt_Parse (Some ?body) (4 * unat w) report = Some (True, parsed)"
    using parse_blocks_encoded [OF assms(1), of "be32_bytes ssrc" "[]"] rd32_bytes [of 0 "[]" ssrc] assms(2,3)
    by (simp add: Rtt_Parse_def add.commute)
  then show ?thesis
    using parse_hdr4 [of 0 w "8 + length (concat (map xr_bytes bs))" h0 207 ?body] assms(2) by simp
qed

lemma dlrr_delay_value:
  assumes "0 \<le> d" and "d \<le> 5000000"
  shows "int (unat (dlrr_delay d)) = d * 65536 div 1000000"
proof -
  have m: "(word_of_int d :: u64) * 65536 = word_of_int (d * 65536)" by simp
  have u: "uint (word_of_int (d * 65536) :: u64) = d * 65536"
    unfolding unsigned_of_int using assms by (subst take_bit_int_eq_self) auto
  have "uint (word_of_int (d * 65536) div 1000000 :: u64) = d * 65536 div 1000000"
    unfolding uint_div u by simp
  moreover have "0 \<le> d * 65536 div 1000000" "d * 65536 div 1000000 < 2 ^ 32" using assms by auto
  ultimately show ?thesis
    unfolding dlrr_delay_def m by (simp add: unsigned_ucast_eq take_bit_int_eq_self of_nat_take_bit)
qed

lemma receive_scan_none: "\<forall>p \<in> set ps. compact_ntp p \<noteq> rr \<Longrightarrow> receive_scan rr ps = None"
  by (induction ps) auto

lemma receive_scan_last:
  "\<forall>p \<in> set ps. compact_ntp p \<noteq> rr \<Longrightarrow>
     receive_scan rr (ps @ [\<lparr>compact_ntp = rr, sent_us = t\<rparr>]) = Some (t, ps)"
  by (induction ps) auto

lemma receive_scan_Some:
  "receive_scan rr ps = Some (t, ps') \<Longrightarrow>
     \<exists>as p bs. ps = as @ p # bs \<and> ps' = as @ bs \<and> compact_ntp p = rr \<and> sent_us p = t \<and>
       (\<forall>q \<in> set as. compact_ntp q \<noteq> rr)"
proof (induction ps arbitrary: ps')
  case (Cons p ps)
  show ?case
  proof (cases "compact_ntp p = rr")
    case True
    with Cons.prems show ?thesis by (intro exI [of _ "[]"]) auto
  next
    case False
    with Cons.prems obtain qs where qs: "receive_scan rr ps = Some (t, qs)" "ps' = p # qs" by auto
    obtain as q bs where "ps = as @ q # bs" "qs = as @ bs" "compact_ntp q = rr" "sent_us q = t"
      "\<forall>x \<in> set as. compact_ntp x \<noteq> rr" using Cons.IH [OF qs(1)] by blast
    with False qs(2) show ?thesis by (intro exI [of _ "p # as"]) auto
  qed
qed simp

text \<open>
  C34: a complete exchange measures the round-trip time. A probe with a reference time that no other
  pending probe shares is parsed by the peer as a report that needs a reply; the peer's reply, sent
  \<open>d\<close> microseconds later and with or without a reference time of its own, is parsed by the prober
  as one DLRR entry that needs no further reply; receiving it \<open>e\<close> microseconds after the probe
  gives \<open>e - d\<close> up to the 16 microseconds that the 1/65536-second unit of the report loses; and
  receiving the same entry again gives nothing.
\<close>

theorem rtt_exchange:
  assumes fresh: "\<forall>p \<in> set pending. compact_ntp p \<noteq> Compact ntp" and nz: "Compact ntp \<noteq> 0"
    and d: "0 \<le> d" "d \<le> e" and e: "e \<le> 5000000" "e - d + 16 \<le> 2000000"
  shows "\<exists>probe pending1 h1 rp1 reply h2 rp2 dl pending2 rtt.
    Probe pending ssrc ntp t0 = Some (probe, pending1) \<and> length pending1 \<le> 8 \<and>
    RtcpCommonHeader_Parse h0 probe (length probe) = Some (True, h1) \<and>
    Rtt_Parse (Some (payload h1)) (payload_size h1) rp0 = Some (True, rp1) \<and>
    NeedsReply rp1 \<and> rp_sender_ssrc rp1 = ssrc \<and> reference_time rp1 = Some ntp \<and>
    Reply local_ssrc (rp_sender_ssrc rp1) ntp d reply_ntp = Some reply \<and>
    RtcpCommonHeader_Parse h0 reply (length reply) = Some (True, h2) \<and>
    Rtt_Parse (Some (payload h2)) (payload_size h2) rp0 = Some (True, rp2) \<and>
    \<not> NeedsReply rp2 \<and> replies rp2 = [dl] \<and>
    Rtt_Receive pending1 dl ssrc (t0 + e) = (Some rtt, pending2) \<and>
    e - d \<le> rtt \<and> rtt \<le> e - d + 16 \<and>
    Rtt_Receive pending2 dl ssrc t = (None, pending2)"
proof -
  let ?old = "drop (Suc (length pending) - 8) pending"
  let ?new = "\<lparr>compact_ntp = Compact ntp, sent_us = t0\<rparr>"
  let ?dl = "\<lparr>dl_ssrc = ssrc, last_rr = Compact ntp, dl_delay = dlrr_delay d\<rparr>"
  let ?ref = "if reply_ntp = 0 then [] else [RefTime reply_ntp]"
  let ?w2 = "if reply_ntp = 0 then 5 else 8 :: u16"
  let ?rp1 = "report_init\<lparr>rp_sender_ssrc := ssrc, reference_time := Some ntp\<rparr>"
  let ?rp2 = "report_init\<lparr>rp_sender_ssrc := local_ssrc, replies := [?dl],
      reference_time := (if reply_ntp = 0 then None else Some reply_ntp)\<rparr>"
  have old: "\<forall>p \<in> set ?old. compact_ntp p \<noteq> Compact ntp" using fresh by (auto dest: in_set_dropD)
  have nzntp: "ntp \<noteq> 0" using nz by (auto simp: Compact_def)
  define probe where "probe = hdr4 0 207 4 @ be32_bytes ssrc @ concat (map xr_bytes [RefTime ntp])"
  define reply where "reply = hdr4 0 207 ?w2 @ be32_bytes local_ssrc @ concat (map xr_bytes (DlrrBlock [?dl] # ?ref))"
  have 1: "Probe pending ssrc ntp t0 = Some (probe, ?old @ [?new])"
    by (simp add: Probe_bytes probe_def)
  obtain h1 where h1: "RtcpCommonHeader_Parse h0 probe (length probe) = Some (True, h1)"
    "Rtt_Parse (Some (payload h1)) (payload_size h1) rp0 = Some (True, ?rp1)"
    using xr_packet_parse [of "[RefTime ntp]" 4 ssrc ?rp1 h0 rp0] unfolding probe_def
    by (auto simp: report_init_def)
  have 2: "Reply local_ssrc ssrc ntp d reply_ntp = Some reply"
    by (simp add: Reply_bytes reply_def Let_def)
  obtain h2 where h2: "RtcpCommonHeader_Parse h0 reply (length reply) = Some (True, h2)"
    "Rtt_Parse (Some (payload h2)) (payload_size h2) rp0 = Some (True, ?rp2)"
    using xr_packet_parse [of "DlrrBlock [?dl] # ?ref" ?w2 local_ssrc ?rp2 h0 rp0] unfolding reply_def
    by (cases "reply_ntp = 0") (auto simp: report_init_def dlrr_bytes_def)
  let ?delay = "d * 65536 div 1000000 * 1000000 div 65536"
  have "d * 65536 div 1000000 * 1000000 \<le> d * 65536" "d * 65536 - 1000000 < d * 65536 div 1000000 * 1000000"
    using div_mult_mod_eq [of "d * 65536" 1000000] pos_mod_bound [of 1000000 "d * 65536"]
      pos_mod_sign [of 1000000 "d * 65536"] by linarith+
  then have del: "d - 16 \<le> ?delay" "?delay \<le> d" by linarith+
  have dv: "uint (dlrr_delay d) = 1024 * d div 15625" using dlrr_delay_value [of d] d e by simp
  have 3: "Rtt_Receive (?old @ [?new]) ?dl ssrc (t0 + e) = (Some (e - ?delay), ?old)"
    using nz receive_scan_last [OF old] d e del
    by (simp add: Rtt_Receive_def dv Let_def)
  have 4: "Rtt_Receive ?old ?dl ssrc t = (None, ?old)"
    using receive_scan_none [OF old] by (simp add: Rtt_Receive_def)
  have "NeedsReply ?rp1" "\<not> NeedsReply ?rp2" using nzntp by (auto simp: NeedsReply_def report_init_def)
  then show ?thesis
    using 1 2 h1 h2 3 4 del by (intro exI conjI) (assumption | simp | linarith)+
qed

theorem rtt_exchange_witness:
  "\<exists>probe pending1 dl pending2 rtt.
    Probe [\<lparr>compact_ntp = 5, sent_us = 0\<rparr>] 7 0x20000 100 = Some (probe, pending1) \<and>
    Rtt_Receive pending1 dl 7 (100 + 30000) = (Some rtt, pending2) \<and> 20000 \<le> rtt \<and> rtt \<le> 20016"
proof -
  have c: "Compact 0x20000 = 2" by (simp add: Compact_def)
  then show ?thesis
    using rtt_exchange [of "[\<lparr>compact_ntp = 5, sent_us = 0\<rparr>]" "0x20000" 10000 30000 7 100 header_init report_init 9 0]
    by simp blast
qed

text \<open>Sequences of operations on the table of pending probes, with the samples they produce.\<close>

datatype rtt_op = OpProbe u32 u64 int | OpReceive dlrr u32 int | OpReset

fun rtt_step :: "rtt_op \<Rightarrow> probe_time list \<Rightarrow> int list \<times> probe_time list" where
  "rtt_step (OpProbe ssrc ntp t) ps = ([], case Probe ps ssrc ntp t of None \<Rightarrow> ps | Some (_, ps') \<Rightarrow> ps')"
| "rtt_step (OpReceive dl ssrc t) ps =
     (case Rtt_Receive ps dl ssrc t of (None, ps') \<Rightarrow> ([], ps') | (Some rtt, ps') \<Rightarrow> ([rtt], ps'))"
| "rtt_step OpReset ps = ([], Rtt_Reset ps)"

fun rtt_run :: "rtt_op list \<Rightarrow> probe_time list \<Rightarrow> int list \<times> probe_time list" where
  "rtt_run [] ps = ([], ps)"
| "rtt_run (op # ops) ps =
     (let (xs, ps1) = rtt_step op ps; (ys, ps2) = rtt_run ops ps1 in (xs @ ys, ps2))"

fun is_probe :: "rtt_op \<Rightarrow> bool" where
  "is_probe (OpProbe _ _ _) = True" | "is_probe _ = False"

lemma rtt_step_inv:
  assumes "length ps \<le> 8" and "rtt_step op ps = (xs, ps')"
  shows "length ps' \<le> 8" "length xs + length ps' \<le> length ps + (if is_probe op then 1 else 0)"
    "\<forall>x \<in> set xs. 0 \<le> x \<and> x \<le> 2000000"
proof (atomize (full), cases op)
  case (OpProbe ssrc ntp t)
  then show "length ps' \<le> 8 \<and> length xs + length ps' \<le> length ps + (if is_probe op then 1 else 0) \<and>
      (\<forall>x \<in> set xs. 0 \<le> x \<and> x \<le> 2000000)"
    using assms by (auto simp: Probe_bytes)
next
  case (OpReceive dl ssrc t)
  show "length ps' \<le> 8 \<and> length xs + length ps' \<le> length ps + (if is_probe op then 1 else 0) \<and>
      (\<forall>x \<in> set xs. 0 \<le> x \<and> x \<le> 2000000)"
  proof (cases "dl_ssrc dl = ssrc \<and> last_rr dl \<noteq> 0")
    case True
    show ?thesis
    proof (cases "receive_scan (last_rr dl) ps")
      case (Some z)
      then obtain t0 qs where z: "receive_scan (last_rr dl) ps = Some (t0, qs)" by (cases z) auto
      then have "length ps = Suc (length qs)" by (auto dest: receive_scan_Some)
      with True z OpReceive assms show ?thesis by (auto simp: Rtt_Receive_def Let_def split: if_splits)
    qed (use True OpReceive assms in \<open>auto simp: Rtt_Receive_def\<close>)
  qed (use OpReceive assms in \<open>auto simp: Rtt_Receive_def split: if_splits\<close>)
qed (use assms in \<open>auto simp: Rtt_Reset_def\<close>)

lemma rtt_run_inv:
  "length ps \<le> 8 \<Longrightarrow> rtt_run ops ps = (xs, ps') \<Longrightarrow>
     length ps' \<le> 8 \<and> length xs + length ps' \<le> length ps + length (filter is_probe ops) \<and>
     (\<forall>x \<in> set xs. 0 \<le> x \<and> x \<le> 2000000)"
proof (induction ops arbitrary: ps xs)
  case (Cons op ops)
  obtain ys ps1 where s: "rtt_step op ps = (ys, ps1)" by fastforce
  obtain zs where r: "rtt_run ops ps1 = (zs, ps')" "xs = ys @ zs"
    using Cons.prems(2) s by (auto split: prod.splits)
  from rtt_step_inv [OF Cons.prems(1) s] Cons.IH [OF _ r(1)] show ?case
    by (auto simp: r(2) split: if_splits)
qed simp

text \<open>
  C35: whatever probes, replies (genuine, forged or replayed) and resets happen in whatever order,
  at most eight probes are pending, every probe yields at most one round-trip sample, and every
  sample lies between 0 and 2 seconds.
\<close>

theorem rtt_samples_bounded:
  "case rtt_run ops [] of (samples, pending) \<Rightarrow>
     length pending \<le> 8 \<and> length samples + length pending \<le> length (filter is_probe ops) \<and>
     list_all (\<lambda>x. 0 \<le> x \<and> x \<le> 2000000) samples"
  using rtt_run_inv [of "[]" ops] by (auto simp: list_all_iff split: prod.splits)

end
