(* ===== verification/Packet_Queue.thy ===== *)
theory Packet_Queue
  imports Prelude "HOL-Library.Multiset" "HOL-Library.Signed_Division"
begin

text \<open>
  The pacer's send queue (\<^verbatim>\<open>src/qos/prioritized_packet_queue.cc\<close>): five priority levels, per level
  a round robin over the streams that have packets there, per stream and level a FIFO; time-to-live
  purging; counters and queue time statistics.

  A \<open>StreamQueue*\<close> is the SSRC under which the stream is stored in \<open>streams_\<close>; dereferencing it when
  the stream has been erased is \<^const>\<open>None\<close>, as is \<open>front()\<close> of an empty deque, an array access at
  a negative level and erasing an invalid list iterator. An iterator into \<open>enqueue_times_\<close> is the
  number of the insertion that created its element. Fixed-size arrays are functions of the index.
  Time stamps and durations are microseconds; a time to live that is infinite is \<^const>\<open>None\<close>.
  Packets are never null and always carry a packet type.
\<close>

section \<open>Data\<close>

datatype media_type = kAudio | kVideo | kRetransmission | kForwardErrorCorrection | kPadding

datatype original_type = OriginalAudio | OriginalVideo

record rtp_packet_to_send =
  pk_ssrc :: u32
  pk_seq :: u16
  pk_type :: media_type
  pk_original :: "original_type option"
  pk_key_frame :: bool
  pk_payload_size :: nat
  pk_padding_size :: nat
  pk_time_in_send_queue :: "int option"

record queued_packet =
  qp_packet :: rtp_packet_to_send
  qp_enqueue_time :: int
  qp_iterator :: nat

record stream_queue =
  sq_packets :: "nat \<Rightarrow> queued_packet list"
  sq_last_enqueue_time :: int
  sq_num_keyframes :: int

record packet_queue_ttl =
  ttl_audio_retransmission :: "int option"
  ttl_video_retransmission :: "int option"
  ttl_video :: "int option"

record packet_queue =
  prioritize_audio_retransmission :: bool
  time_to_live_per_prio :: "nat \<Rightarrow> int option"
  queue_time_sum :: int
  pause_time_sum :: int
  size_packets :: int
  size_packets_per_media_type :: "media_type \<Rightarrow> int"
  size_payload :: int
  last_update_time :: int
  paused :: bool
  last_culling_time :: int
  streams :: "u32 \<rightharpoonup> stream_queue"
  streams_by_prio :: "nat \<Rightarrow> u32 list"
  top_active_prio_level :: int
  enqueue_times :: "(nat \<times> int) list"
  next_iterator :: nat

definition kNumPriorityLevels :: nat where "kNumPriorityLevels = 5"

definition GetPriorityForType :: "media_type \<Rightarrow> original_type option \<Rightarrow> nat" where
  "GetPriorityForType type original =
     (case type of
        kAudio \<Rightarrow> 0
      | kRetransmission \<Rightarrow> (if original = Some OriginalVideo then 2 else 1)
      | kVideo \<Rightarrow> 3
      | kForwardErrorCorrection \<Rightarrow> 3
      | kPadding \<Rightarrow> 4)"

definition ToTtlPerPrio :: "packet_queue_ttl \<Rightarrow> nat \<Rightarrow> int option" where
  "ToTtlPerPrio t =
     ((\<lambda>_. None)
        (GetPriorityForType kRetransmission (Some OriginalAudio) := ttl_audio_retransmission t,
         GetPriorityForType kRetransmission (Some OriginalVideo) := ttl_video_retransmission t,
         GetPriorityForType kVideo None := ttl_video t))"

definition PacketSize :: "queued_packet \<Rightarrow> int" where
  "PacketSize x = int (pk_payload_size (qp_packet x) + pk_padding_size (qp_packet x))"

section \<open>StreamQueue\<close>

definition StreamQueue_init :: "int \<Rightarrow> stream_queue" where
  "StreamQueue_init creation_time =
     \<lparr>sq_packets = (\<lambda>_. []), sq_last_enqueue_time = creation_time, sq_num_keyframes = 0\<rparr>"

definition EnqueuePacket :: "stream_queue \<Rightarrow> queued_packet \<Rightarrow> nat \<Rightarrow> bool \<times> stream_queue" where
  "EnqueuePacket sq x p =
     (sq_packets sq p = [],
      sq\<lparr>sq_num_keyframes := sq_num_keyframes sq + (if pk_key_frame (qp_packet x) then 1 else 0),
         sq_packets := (sq_packets sq)(p := sq_packets sq p @ [x])\<rparr>)"

definition DequeuePacket :: "stream_queue \<Rightarrow> nat \<Rightarrow> (queued_packet \<times> stream_queue) option" where
  "DequeuePacket sq p =
     (case sq_packets sq p of
        [] \<Rightarrow> None
      | x # xs \<Rightarrow> Some (x, sq\<lparr>sq_packets := (sq_packets sq)(p := xs),
            sq_num_keyframes := sq_num_keyframes sq - (if pk_key_frame (qp_packet x) then 1 else 0)\<rparr>))"

definition HasPacketsAtPrio :: "stream_queue \<Rightarrow> nat \<Rightarrow> bool" where
  "HasPacketsAtPrio sq p = (sq_packets sq p \<noteq> [])"

definition StreamQueue_IsEmpty :: "stream_queue \<Rightarrow> bool" where
  "StreamQueue_IsEmpty sq = list_all (\<lambda>p. sq_packets sq p = []) [0..<kNumPriorityLevels]"

definition StreamQueue_LeadingPacketEnqueueTime :: "stream_queue \<Rightarrow> nat \<Rightarrow> int option" where
  "StreamQueue_LeadingPacketEnqueueTime sq p =
     (case sq_packets sq p of [] \<Rightarrow> None | x # _ \<Rightarrow> Some (qp_enqueue_time x))"

definition has_keyframe_packets :: "stream_queue \<Rightarrow> bool" where
  "has_keyframe_packets sq = (sq_num_keyframes sq > 0)"

definition DequeueAll :: "stream_queue \<Rightarrow> (nat \<Rightarrow> queued_packet list) \<times> stream_queue" where
  "DequeueAll sq = (sq_packets sq, sq\<lparr>sq_packets := (\<lambda>_. []), sq_num_keyframes := 0\<rparr>)"

section \<open>PrioritizedPacketQueue\<close>

definition packet_queue_init :: "int \<Rightarrow> bool \<Rightarrow> packet_queue_ttl \<Rightarrow> packet_queue" where
  "packet_queue_init creation_time prioritize ttl =
     \<lparr>prioritize_audio_retransmission = prioritize, time_to_live_per_prio = ToTtlPerPrio ttl,
      queue_time_sum = 0, pause_time_sum = 0, size_packets = 0,
      size_packets_per_media_type = (\<lambda>_. 0), size_payload = 0, last_update_time = creation_time,
      paused = False, last_culling_time = creation_time, streams = Map.empty,
      streams_by_prio = (\<lambda>_. []), top_active_prio_level = -1, enqueue_times = [], next_iterator = 0\<rparr>"

definition list_erase :: "(nat \<times> int) list \<Rightarrow> nat \<Rightarrow> (nat \<times> int) list option" where
  "list_erase ts i = (if i \<in> fst ` set ts then Some (filter (\<lambda>e. fst e \<noteq> i) ts) else None)"

definition DequeuePacketInternal ::
  "packet_queue \<Rightarrow> queued_packet \<Rightarrow> (rtp_packet_to_send \<times> packet_queue) option" where
  "DequeuePacketInternal q x =
     (let type = pk_type (qp_packet x);
          time_in_non_paused_state = last_update_time q - qp_enqueue_time x - pause_time_sum q
      in do {
        ts \<leftarrow> list_erase (enqueue_times q) (qp_iterator x);
        Some ((qp_packet x)\<lparr>pk_time_in_send_queue := Some time_in_non_paused_state\<rparr>,
              q\<lparr>size_packets := size_packets q - 1,
                size_packets_per_media_type :=
                  (size_packets_per_media_type q)(type := size_packets_per_media_type q type - 1),
                size_payload := size_payload q - PacketSize x,
                queue_time_sum := queue_time_sum q - time_in_non_paused_state,
                enqueue_times := ts\<rparr>) })"

text \<open>Taking the first packet of a stream at a level out of the queue, as three callers do.\<close>

definition dequeue_from ::
  "packet_queue \<Rightarrow> u32 \<Rightarrow> nat \<Rightarrow> (rtp_packet_to_send \<times> packet_queue) option" where
  "dequeue_from q s p =
     do { sq \<leftarrow> streams q s; (x, sq') \<leftarrow> DequeuePacket sq p;
          DequeuePacketInternal (q\<lparr>streams := (streams q)(s \<mapsto> sq')\<rparr>) x }"

definition stream_packets :: "packet_queue \<Rightarrow> nat \<Rightarrow> u32 \<Rightarrow> queued_packet list" where
  "stream_packets q p s = (case streams q s of None \<Rightarrow> [] | Some sq \<Rightarrow> sq_packets sq p)"

lemma dequeue_from_cases:
  assumes "dequeue_from q s p = Some (pk, q')"
  obtains sq x xs ts where "streams q s = Some sq" "sq_packets sq p = x # xs"
    "list_erase (enqueue_times q) (qp_iterator x) = Some ts"
    "pk = (qp_packet x)\<lparr>pk_time_in_send_queue := Some (last_update_time q - qp_enqueue_time x - pause_time_sum q)\<rparr>"
    "q' = q\<lparr>streams := (streams q)(s \<mapsto> sq\<lparr>sq_packets := (sq_packets sq)(p := xs),
            sq_num_keyframes := sq_num_keyframes sq - (if pk_key_frame (qp_packet x) then 1 else 0)\<rparr>),
          size_packets := size_packets q - 1,
          size_packets_per_media_type := (size_packets_per_media_type q)(pk_type (qp_packet x) :=
            size_packets_per_media_type q (pk_type (qp_packet x)) - 1),
          size_payload := size_payload q - PacketSize x,
          queue_time_sum := queue_time_sum q - (last_update_time q - qp_enqueue_time x - pause_time_sum q),
          enqueue_times := ts\<rparr>"
  using assms
  by (auto simp: dequeue_from_def DequeuePacket_def DequeuePacketInternal_def Let_def
      split: Option.bind_splits list.splits)

text \<open>The loops of \<open>PurgeOldPacketsAtPriorityLevel\<close>: over the packets of one stream, over the streams.\<close>

function purge_stream :: "nat \<Rightarrow> int \<Rightarrow> int \<Rightarrow> u32 \<Rightarrow> packet_queue \<Rightarrow> packet_queue option" where
  "purge_stream p now ttl s q =
     do { sq \<leftarrow> streams q s;
          if HasPacketsAtPrio sq p then do {
            t \<leftarrow> StreamQueue_LeadingPacketEnqueueTime sq p;
            if now - t > ttl then do {
              (pk, q') \<leftarrow> dequeue_from q s p;
              purge_stream p now ttl s q' }
            else Some q }
          else Some q }"
  by pat_completeness auto
termination
  by (relation "measure (\<lambda>(p, now, ttl, s, q). length (stream_packets q p s))")
     (auto simp: stream_packets_def elim!: dequeue_from_cases)

declare purge_stream.simps [simp del]

fun purge_streams :: "nat \<Rightarrow> int \<Rightarrow> int \<Rightarrow> u32 list \<Rightarrow> packet_queue \<Rightarrow> (u32 list \<times> packet_queue) option" where
  "purge_streams p now ttl [] q = Some ([], q)"
| "purge_streams p now ttl (s # ss) q =
     do { q1 \<leftarrow> purge_stream p now ttl s q;
          sq \<leftarrow> streams q1 s;
          (kept, q2) \<leftarrow> purge_streams p now ttl ss q1;
          Some (if HasPacketsAtPrio sq p then s # kept else kept, q2) }"

definition PurgeOldPacketsAtPriorityLevel :: "nat \<Rightarrow> int \<Rightarrow> packet_queue \<Rightarrow> packet_queue option" where
  "PurgeOldPacketsAtPriorityLevel p now q =
     (case time_to_live_per_prio q p of
        None \<Rightarrow> Some q
      | Some ttl \<Rightarrow> do {
          (kept, q') \<leftarrow> purge_streams p now ttl (streams_by_prio q p) q;
          Some (q'\<lparr>streams_by_prio := (streams_by_prio q')(p := kept)\<rparr>) })"

definition UpdateAverageQueueTime :: "int \<Rightarrow> packet_queue \<Rightarrow> packet_queue" where
  "UpdateAverageQueueTime now q =
     (if now = last_update_time q then q
      else let delta = now - last_update_time q in
        (if paused q then q\<lparr>pause_time_sum := pause_time_sum q + delta, last_update_time := now\<rparr>
         else q\<lparr>queue_time_sum := queue_time_sum q + delta * size_packets q, last_update_time := now\<rparr>))"

definition SetPauseState :: "bool \<Rightarrow> int \<Rightarrow> packet_queue \<Rightarrow> packet_queue" where
  "SetPauseState b now q = (UpdateAverageQueueTime now q)\<lparr>paused := b\<rparr>"

definition kTimeout :: int where "kTimeout = 500000"

definition cull_streams :: "int \<Rightarrow> packet_queue \<Rightarrow> packet_queue" where
  "cull_streams enqueue_time q =
     (if enqueue_time - last_culling_time q > kTimeout
      then q\<lparr>streams := (\<lambda>s. case streams q s of None \<Rightarrow> None
               | Some sq \<Rightarrow> if StreamQueue_IsEmpty sq \<and> sq_last_enqueue_time sq + kTimeout < enqueue_time
                            then None else Some sq),
             last_culling_time := enqueue_time\<rparr>
      else q)"

definition Push :: "int \<Rightarrow> rtp_packet_to_send \<Rightarrow> packet_queue \<Rightarrow> packet_queue option" where
  "Push enqueue_time packet q0 =
     (let s = pk_ssrc packet;
          q1 = (if streams q0 s = None
                then q0\<lparr>streams := (streams q0)(s \<mapsto> StreamQueue_init enqueue_time)\<rparr> else q0);
          it = next_iterator q1;
          q2 = q1\<lparr>enqueue_times := enqueue_times q1 @ [(it, enqueue_time)], next_iterator := Suc it\<rparr>;
          p = GetPriorityForType (pk_type packet)
                (if prioritize_audio_retransmission q2 then pk_original packet else None)
      in do {
        q3 \<leftarrow> PurgeOldPacketsAtPriorityLevel p enqueue_time q2;
        let q4 = UpdateAverageQueueTime enqueue_time q3;
        let x = \<lparr>qp_packet = packet, qp_enqueue_time = enqueue_time - pause_time_sum q4, qp_iterator = it\<rparr>;
        let q5 = q4\<lparr>size_packets := size_packets q4 + 1,
                    size_packets_per_media_type := (size_packets_per_media_type q4)
                      (pk_type packet := size_packets_per_media_type q4 (pk_type packet) + 1),
                    size_payload := size_payload q4 + PacketSize x\<rparr>;
        sq \<leftarrow> streams q5 s;
        let (first, sq') = EnqueuePacket sq x p;
        let q6 = q5\<lparr>streams := (streams q5)(s \<mapsto> sq')\<rparr>;
        let q7 = (if first
                  then q6\<lparr>streams_by_prio := (streams_by_prio q6)(p := streams_by_prio q6 p @ [s])\<rparr> else q6);
        let q8 = (if top_active_prio_level q7 < 0 \<or> int p < top_active_prio_level q7
                  then q7\<lparr>top_active_prio_level := int p\<rparr> else q7);
        Some (cull_streams enqueue_time q8) })"

text \<open>The search for the first non-empty level; levels are purged on the way.\<close>

fun find_top_level :: "nat list \<Rightarrow> packet_queue \<Rightarrow> packet_queue option" where
  "find_top_level [] q = Some q"
| "find_top_level (i # is) q =
     do { q' \<leftarrow> PurgeOldPacketsAtPriorityLevel i (last_update_time q) q;
          if streams_by_prio q' i \<noteq> [] then Some (q'\<lparr>top_active_prio_level := int i\<rparr>)
          else find_top_level is q' }"

definition MaybeUpdateTopPrioLevel :: "packet_queue \<Rightarrow> packet_queue option" where
  "MaybeUpdateTopPrioLevel q =
     (if top_active_prio_level q \<noteq> -1 \<and> streams_by_prio q (nat (top_active_prio_level q)) \<noteq> []
      then Some q
      else do {
        q' \<leftarrow> find_top_level [0..<kNumPriorityLevels] q;
        Some (if size_packets q' = 0 then q'\<lparr>top_active_prio_level := -1\<rparr> else q') })"

definition Pop :: "packet_queue \<Rightarrow> (rtp_packet_to_send option \<times> packet_queue) option" where
  "Pop q =
     (if size_packets q = 0 then Some (None, q)
      else if top_active_prio_level q < 0 then None
      else let p = nat (top_active_prio_level q) in
        case streams_by_prio q p of
          [] \<Rightarrow> None
        | s # ss \<Rightarrow> do {
            (packet, q1) \<leftarrow> dequeue_from q s p;
            sq \<leftarrow> streams q1 s;
            q2 \<leftarrow> (if HasPacketsAtPrio sq p
                    then Some (q1\<lparr>streams_by_prio := (streams_by_prio q1)(p := ss @ [s])\<rparr>)
                    else MaybeUpdateTopPrioLevel (q1\<lparr>streams_by_prio := (streams_by_prio q1)(p := ss)\<rparr>));
            Some (Some packet, q2) })"

fun dequeue_list :: "queued_packet list \<Rightarrow> packet_queue \<Rightarrow> packet_queue option" where
  "dequeue_list [] q = Some q"
| "dequeue_list (x # xs) q = do { (pk, q') \<leftarrow> DequeuePacketInternal q x; dequeue_list xs q' }"

fun remove_levels ::
  "u32 \<Rightarrow> (nat \<Rightarrow> queued_packet list) \<Rightarrow> nat list \<Rightarrow> packet_queue \<Rightarrow> packet_queue option" where
  "remove_levels ssrc packets_by_prio [] q = Some q"
| "remove_levels ssrc packets_by_prio (i # is) q =
     (if packets_by_prio i = [] then remove_levels ssrc packets_by_prio is q
      else do {
        q1 \<leftarrow> dequeue_list (packets_by_prio i) q;
        let ss = streams_by_prio q1 i;
        let q2 = q1\<lparr>streams_by_prio := (streams_by_prio q1)
                    (i := (if length ss = 1 then tl ss else filter (\<lambda>s. s \<noteq> ssrc) ss))\<rparr>;
        remove_levels ssrc packets_by_prio is q2 })"

definition RemovePacketsForSsrc :: "u32 \<Rightarrow> packet_queue \<Rightarrow> packet_queue option" where
  "RemovePacketsForSsrc ssrc q =
     (case streams q ssrc of
        None \<Rightarrow> MaybeUpdateTopPrioLevel q
      | Some sq \<Rightarrow>
          let (packets_by_prio, sq') = DequeueAll sq;
              q1 = q\<lparr>streams := (streams q)(ssrc \<mapsto> sq')\<rparr>
          in do {
            q2 \<leftarrow> remove_levels ssrc packets_by_prio [0..<kNumPriorityLevels] q1;
            MaybeUpdateTopPrioLevel q2 })"

text \<open>Queries. An infinite time stamp is a constructor of its own.\<close>

datatype queue_time = MinusInfinity | At int | PlusInfinity

definition SizeInPackets :: "packet_queue \<Rightarrow> int" where
  "SizeInPackets q = size_packets q"

definition SizeInPayloadBytes :: "packet_queue \<Rightarrow> int" where
  "SizeInPayloadBytes q = size_payload q"

definition PQ_Empty :: "packet_queue \<Rightarrow> bool" where
  "PQ_Empty q = (size_packets q = 0)"

definition leading_or :: "queue_time \<Rightarrow> packet_queue \<Rightarrow> nat \<Rightarrow> queue_time option" where
  "leading_or none q p =
     (case streams_by_prio q p of
        [] \<Rightarrow> Some none
      | s # _ \<Rightarrow> do { sq \<leftarrow> streams q s; t \<leftarrow> StreamQueue_LeadingPacketEnqueueTime sq p; Some (At t) })"

definition LeadingPacketEnqueueTime :: "media_type \<Rightarrow> packet_queue \<Rightarrow> queue_time option" where
  "LeadingPacketEnqueueTime type q = leading_or MinusInfinity q (GetPriorityForType type None)"

fun min_time :: "queue_time \<Rightarrow> queue_time \<Rightarrow> queue_time" where
  "min_time MinusInfinity b = MinusInfinity"
| "min_time a MinusInfinity = MinusInfinity"
| "min_time PlusInfinity b = b"
| "min_time a PlusInfinity = a"
| "min_time (At a) (At b) = At (min a b)"

definition LeadingPacketEnqueueTimeForRetransmission :: "packet_queue \<Rightarrow> queue_time option" where
  "LeadingPacketEnqueueTimeForRetransmission q =
     (if \<not> prioritize_audio_retransmission q
      then leading_or PlusInfinity q (GetPriorityForType kRetransmission None)
      else do {
        next_audio \<leftarrow> leading_or PlusInfinity q (GetPriorityForType kRetransmission (Some OriginalAudio));
        next_video \<leftarrow> leading_or PlusInfinity q (GetPriorityForType kRetransmission (Some OriginalVideo));
        Some (min_time next_audio next_video) })"

definition OldestEnqueueTime :: "packet_queue \<Rightarrow> queue_time" where
  "OldestEnqueueTime q = (case enqueue_times q of [] \<Rightarrow> MinusInfinity | (_, t) # _ \<Rightarrow> At t)"

definition AverageQueueTime :: "packet_queue \<Rightarrow> int" where
  "AverageQueueTime q = (if size_packets q = 0 then 0 else queue_time_sum q sdiv size_packets q)"

definition HasKeyframePackets :: "u32 \<Rightarrow> packet_queue \<Rightarrow> bool" where
  "HasKeyframePackets ssrc q =
     (case streams q ssrc of None \<Rightarrow> False | Some sq \<Rightarrow> has_keyframe_packets sq)"

section \<open>Bookkeeping\<close>

text \<open>
  The counters describe a multiset of queued packets. \<open>extra\<close> are list iterators that belong to no
  queued packet yet (\<open>Push\<close> inserts the time before it purges the level).
\<close>

definition books :: "queued_packet multiset \<Rightarrow> nat multiset \<Rightarrow> packet_queue \<Rightarrow> bool" where
  "books M extra q \<longleftrightarrow>
     size_packets q = int (size M) \<and>
     (\<forall>t. size_packets_per_media_type q t = int (size {#x \<in># M. pk_type (qp_packet x) = t#})) \<and>
     size_payload q = (\<Sum>x\<in>#M. PacketSize x) \<and>
     queue_time_sum q = (\<Sum>x\<in>#M. last_update_time q - qp_enqueue_time x - pause_time_sum q) \<and>
     image_mset qp_iterator M + extra = mset (map fst (enqueue_times q)) \<and>
     distinct (map fst (enqueue_times q)) \<and>
     (\<forall>i \<in> fst ` set (enqueue_times q). i < next_iterator q)"

lemma books_frame [simp]:
  "books M extra (q\<lparr>streams_by_prio := f\<rparr>) = books M extra q"
  "books M extra (q\<lparr>streams := m\<rparr>) = books M extra q"
  "books M extra (q\<lparr>top_active_prio_level := t\<rparr>) = books M extra q"
  by (simp_all add: books_def)

text \<open>What taking packets out leaves alone.\<close>

definition same_frame :: "packet_queue \<Rightarrow> packet_queue \<Rightarrow> bool" where
  "same_frame q q' \<longleftrightarrow>
     prioritize_audio_retransmission q' = prioritize_audio_retransmission q \<and>
     time_to_live_per_prio q' = time_to_live_per_prio q \<and>
     pause_time_sum q' = pause_time_sum q \<and> last_update_time q' = last_update_time q \<and>
     paused q' = paused q \<and> last_culling_time q' = last_culling_time q \<and>
     top_active_prio_level q' = top_active_prio_level q \<and> next_iterator q' = next_iterator q"

lemma same_frame_refl [simp]: "same_frame q q"
  by (simp add: same_frame_def)

lemma same_frame_trans: "same_frame a b \<Longrightarrow> same_frame b c \<Longrightarrow> same_frame a c"
  by (simp add: same_frame_def)

lemma distinct_erase_mset:
  assumes "distinct (map fst ts)" and "mset (map fst ts) = add_mset i N"
  shows "mset (map fst (filter (\<lambda>e. fst e \<noteq> i) ts)) = N"
proof -
  have "map fst (filter (\<lambda>e. fst e \<noteq> i) ts) = filter (\<lambda>j. j \<noteq> i) (map fst ts)"
    by (simp add: filter_map o_def)
  then have "mset (map fst (filter (\<lambda>e. fst e \<noteq> i) ts)) = filter_mset (\<lambda>j. j \<noteq> i) (mset (map fst ts))"
    by (simp only: mset_filter)
  also have "\<dots> = filter_mset (\<lambda>j. j \<noteq> i) N" using assms(2) by simp
  also have "\<dots> = N"
  proof -
    have "count (mset (map fst ts)) i \<le> 1" using assms(1)
      by (metis distinct_count_atmost_1 le_numeral_extra(4) not_one_le_zero nat_le_linear)
    then have "i \<notin># N" using assms(2) by (simp add: count_eq_zero_iff)
    then show ?thesis by (intro filter_mset_eq_conv [THEN iffD2]) auto
  qed
  finally show ?thesis .
qed

lemma DequeuePacketInternal_books:
  assumes "books (add_mset x M) extra q"
  shows "\<exists>pk q'. DequeuePacketInternal q x = Some (pk, q') \<and> books M extra q' \<and> same_frame q q' \<and>
    streams q' = streams q \<and> streams_by_prio q' = streams_by_prio q"
proof -
  let ?ts = "filter (\<lambda>e. fst e \<noteq> qp_iterator x) (enqueue_times q)"
  have all: "mset (map fst (enqueue_times q)) = add_mset (qp_iterator x) (image_mset qp_iterator M + extra)"
    and dist: "distinct (map fst (enqueue_times q))"
    using assms by (simp_all add: books_def)
  have ts: "mset (map fst ?ts) = image_mset qp_iterator M + extra"
    by (rule distinct_erase_mset [OF dist all])
  have "qp_iterator x \<in># mset (map fst (enqueue_times q))" unfolding all by simp
  then have mem: "list_erase (enqueue_times q) (qp_iterator x) = Some ?ts"
    unfolding list_erase_def set_mset_mset by simp
  have dis: "distinct (map fst ?ts)" using assms by (auto simp: books_def distinct_map_filter)
  have nxt: "\<forall>i \<in> fst ` set ?ts. i < next_iterator q" using assms by (auto simp: books_def)
  show ?thesis
    using assms ts dis nxt
    by (simp add: DequeuePacketInternal_def mem Let_def books_def same_frame_def)
qed

section \<open>Streams and levels\<close>

definition keys_ok :: "stream_queue \<Rightarrow> bool" where
  "keys_ok sq \<longleftrightarrow> sq_num_keyframes sq =
     (\<Sum>p < kNumPriorityLevels. int (length (filter (\<lambda>x. pk_key_frame (qp_packet x)) (sq_packets sq p))))"

definition streams_ok :: "packet_queue \<Rightarrow> bool" where
  "streams_ok q \<longleftrightarrow> (\<forall>s sq. streams q s = Some sq \<longrightarrow> keys_ok sq)"

definition level_multiset :: "packet_queue \<Rightarrow> nat \<Rightarrow> u32 list \<Rightarrow> queued_packet multiset" where
  "level_multiset q p ss = (\<Sum>s\<in>#mset ss. mset (stream_packets q p s))"

definition contents :: "packet_queue \<Rightarrow> queued_packet multiset" where
  "contents q = (\<Sum>p < kNumPriorityLevels. level_multiset q p (streams_by_prio q p))"

definition levels_ok :: "packet_queue \<Rightarrow> bool" where
  "levels_ok q \<longleftrightarrow>
     (\<forall>p s. stream_packets q p s \<noteq> [] \<longleftrightarrow> s \<in> set (streams_by_prio q p)) \<and>
     (\<forall>p. distinct (streams_by_prio q p)) \<and>
     (\<forall>p \<ge> kNumPriorityLevels. streams_by_prio q p = [])"

definition well_formed :: "nat multiset \<Rightarrow> packet_queue \<Rightarrow> bool" where
  "well_formed extra q \<longleftrightarrow> levels_ok q \<and> streams_ok q \<and> books (contents q) extra q"

definition top_ok :: "packet_queue \<Rightarrow> bool" where
  "top_ok q \<longleftrightarrow>
     (if \<forall>p < kNumPriorityLevels. streams_by_prio q p = [] then top_active_prio_level q = -1
      else \<exists>p < kNumPriorityLevels. top_active_prio_level q = int p \<and> streams_by_prio q p \<noteq> [] \<and>
             (\<forall>p' < p. streams_by_prio q p' = []))"

definition queue_inv :: "packet_queue \<Rightarrow> bool" where
  "queue_inv q \<longleftrightarrow> well_formed {#} q \<and> top_ok q"

lemma level_multiset_Cons [simp]:
  "level_multiset q p (s # ss) = mset (stream_packets q p s) + level_multiset q p ss"
  by (simp add: level_multiset_def)

lemma level_multiset_Nil [simp]: "level_multiset q p [] = {#}"
  by (simp add: level_multiset_def)

lemma level_multiset_append [simp]:
  "level_multiset q p (xs @ ys) = level_multiset q p xs + level_multiset q p ys"
  by (simp add: level_multiset_def)

lemma stream_packets_frame [simp]:
  "stream_packets (q\<lparr>streams_by_prio := f\<rparr>) p s = stream_packets q p s"
  "stream_packets (q\<lparr>top_active_prio_level := t\<rparr>) p s = stream_packets q p s"
  "stream_packets (q\<lparr>enqueue_times := ts, next_iterator := n\<rparr>) p s = stream_packets q p s"
  "stream_packets (q\<lparr>size_packets := a, size_packets_per_media_type := b, size_payload := c\<rparr>) p s = stream_packets q p s"
  "stream_packets (UpdateAverageQueueTime now q) p s = stream_packets q p s"
  by (simp_all add: stream_packets_def UpdateAverageQueueTime_def Let_def)

lemma level_multiset_frame [simp]:
  "level_multiset (q\<lparr>streams_by_prio := f\<rparr>) p ss = level_multiset q p ss"
  "level_multiset (q\<lparr>top_active_prio_level := t\<rparr>) p ss = level_multiset q p ss"
  "level_multiset (q\<lparr>enqueue_times := ts, next_iterator := n\<rparr>) p ss = level_multiset q p ss"
  "level_multiset (q\<lparr>size_packets := a, size_packets_per_media_type := b, size_payload := c\<rparr>) p ss = level_multiset q p ss"
  "level_multiset (UpdateAverageQueueTime now q) p ss = level_multiset q p ss"
  by (simp_all add: level_multiset_def)

lemma level_multiset_cong:
  "(\<And>s. s \<in> set ss \<Longrightarrow> stream_packets q p s = stream_packets q' p s) \<Longrightarrow>
     level_multiset q p ss = level_multiset q' p ss"
  by (induction ss) auto

lemma level_multiset_filter:
  "(\<And>s. s \<in> set ss \<Longrightarrow> \<not> P s \<Longrightarrow> stream_packets q p s = []) \<Longrightarrow>
     level_multiset q p (filter P ss) = level_multiset q p ss"
  by (induction ss) auto

lemma contents_split:
  assumes "p < kNumPriorityLevels"
  shows "contents q = level_multiset q p (streams_by_prio q p) +
    (\<Sum>p' \<in> {..<kNumPriorityLevels} - {p}. level_multiset q p' (streams_by_prio q p'))"
  unfolding contents_def using assms by (intro sum.remove) auto

lemma keys_ok_pop:
  assumes "keys_ok sq" and "sq_packets sq p = x # xs" and "p < kNumPriorityLevels"
  shows "keys_ok (sq\<lparr>sq_packets := (sq_packets sq)(p := xs),
    sq_num_keyframes := sq_num_keyframes sq - (if pk_key_frame (qp_packet x) then 1 else 0)\<rparr>)"
  using assms by (simp add: keys_ok_def sum.remove [of "{..<kNumPriorityLevels}" p])

lemma keys_ok_push:
  assumes "keys_ok sq" and "p < kNumPriorityLevels"
  shows "keys_ok (snd (EnqueuePacket sq x p))"
  using assms by (simp add: keys_ok_def EnqueuePacket_def sum.remove [of "{..<kNumPriorityLevels}" p])

lemma dequeue_from_ok:
  assumes "stream_packets q p s = x # xs" and "books (mset (x # xs) + A) extra q"
    and "streams_ok q" and "p < kNumPriorityLevels"
  shows "\<exists>q'. dequeue_from q s p =
      Some ((qp_packet x)\<lparr>pk_time_in_send_queue := Some (last_update_time q - qp_enqueue_time x - pause_time_sum q)\<rparr>, q') \<and>
    (\<forall>p' s'. stream_packets q' p' s' = (if p' = p \<and> s' = s then xs else stream_packets q p' s')) \<and>
    dom (streams q') = dom (streams q) \<and>
    books (mset xs + A) extra q' \<and> streams_ok q' \<and> same_frame q q' \<and> streams_by_prio q' = streams_by_prio q"
proof -
  obtain sq where sq: "streams q s = Some sq" "sq_packets sq p = x # xs"
    using assms(1) by (auto simp: stream_packets_def split: option.splits)
  let ?sq = "sq\<lparr>sq_packets := (sq_packets sq)(p := xs),
    sq_num_keyframes := sq_num_keyframes sq - (if pk_key_frame (qp_packet x) then 1 else 0)\<rparr>"
  let ?q = "q\<lparr>streams := (streams q)(s \<mapsto> ?sq)\<rparr>"
  have "books (add_mset x (mset xs + A)) extra ?q" using assms(2) by (simp add: books_def)
  then obtain pk q' where d: "DequeuePacketInternal ?q x = Some (pk, q')" "books (mset xs + A) extra q'"
    "same_frame ?q q'" "streams q' = streams ?q" "streams_by_prio q' = streams_by_prio ?q"
    using DequeuePacketInternal_books by blast
  have pk: "pk = (qp_packet x)\<lparr>pk_time_in_send_queue := Some (last_update_time q - qp_enqueue_time x - pause_time_sum q)\<rparr>"
    using d(1) by (auto simp: DequeuePacketInternal_def Let_def split: Option.bind_splits)
  have "dequeue_from q s p = Some (pk, q')"
    using sq d(1) by (simp add: dequeue_from_def DequeuePacket_def)
  moreover have "keys_ok ?sq" using keys_ok_pop sq assms(3,4) by (auto simp: streams_ok_def)
  then have "streams_ok q'" using assms(3) d(4) by (auto simp: streams_ok_def)
  moreover have "\<forall>p' s'. stream_packets q' p' s' = (if p' = p \<and> s' = s then xs else stream_packets q p' s')"
    using d(4) sq by (auto simp: stream_packets_def)
  ultimately show ?thesis using d pk sq(1) by (auto simp: same_frame_def)
qed

section \<open>Purging\<close>

definition purged :: "int \<Rightarrow> int option \<Rightarrow> queued_packet list \<Rightarrow> queued_packet list" where
  "purged now ttl xs =
     (case ttl of None \<Rightarrow> xs | Some t \<Rightarrow> dropWhile (\<lambda>x. now - qp_enqueue_time x > t) xs)"

lemma purged_Nil [simp]: "purged now ttl [] = []"
  by (simp add: purged_def split: option.splits)

lemma purge_stream_ok:
  assumes "s \<in> dom (streams q)" and "books (mset (stream_packets q p s) + A) extra q"
    and "streams_ok q" and "p < kNumPriorityLevels"
  shows "\<exists>q'. purge_stream p now ttl s q = Some q' \<and>
    (\<forall>p' s'. stream_packets q' p' s' =
       (if p' = p \<and> s' = s then purged now (Some ttl) (stream_packets q p s) else stream_packets q p' s')) \<and>
    dom (streams q') = dom (streams q) \<and>
    books (mset (purged now (Some ttl) (stream_packets q p s)) + A) extra q' \<and>
    streams_ok q' \<and> same_frame q q' \<and> streams_by_prio q' = streams_by_prio q"
  using assms
proof (induction "stream_packets q p s" arbitrary: q)
  case Nil
  obtain sq where "streams q s = Some sq" "sq_packets sq p = []"
    using Nil by (auto simp: stream_packets_def)
  then have "purge_stream p now ttl s q = Some q"
    by (subst purge_stream.simps) (simp add: HasPacketsAtPrio_def)
  with Nil show ?case by (auto simp: purged_def simp flip: Nil(1))
next
  case (Cons x xs)
  obtain sq where sq: "streams q s = Some sq" "sq_packets sq p = x # xs"
    using Cons.prems(1) Cons.hyps(2) by (auto simp: stream_packets_def)
  show ?case
  proof (cases "now - qp_enqueue_time x > ttl")
    case False
    then have "purge_stream p now ttl s q = Some q"
      using sq by (subst purge_stream.simps)
        (simp add: HasPacketsAtPrio_def StreamQueue_LeadingPacketEnqueueTime_def)
    with False Cons show ?thesis by (auto simp: purged_def simp flip: Cons.hyps(2))
  next
    case True
    obtain pk q1 where q1: "dequeue_from q s p = Some (pk, q1)"
      "\<forall>p' s'. stream_packets q1 p' s' = (if p' = p \<and> s' = s then xs else stream_packets q p' s')"
      "dom (streams q1) = dom (streams q)"
      "books (mset xs + A) extra q1" "streams_ok q1" "same_frame q q1" "streams_by_prio q1 = streams_by_prio q"
      using dequeue_from_ok [OF Cons.hyps(2) [symmetric], of A extra] Cons.prems Cons.hyps(2) by auto
    have step: "purge_stream p now ttl s q = purge_stream p now ttl s q1"
      using sq q1(1) True by (subst purge_stream.simps)
        (simp add: HasPacketsAtPrio_def StreamQueue_LeadingPacketEnqueueTime_def)
    have x1: "xs = stream_packets q1 p s" using q1(2) by simp
    have "s \<in> dom (streams q1)" using Cons.prems(1) q1(3) by simp
    moreover have "books (mset (stream_packets q1 p s) + A) extra q1" using q1(4) x1 by simp
    ultimately obtain q' where "purge_stream p now ttl s q1 = Some q'"
      "\<forall>p' s'. stream_packets q' p' s' =
        (if p' = p \<and> s' = s then purged now (Some ttl) xs else stream_packets q1 p' s')"
      "dom (streams q') = dom (streams q1)" "books (mset (purged now (Some ttl) xs) + A) extra q'"
      "streams_ok q'" "same_frame q1 q'" "streams_by_prio q' = streams_by_prio q1"
      using Cons.hyps(1) [OF x1] q1(5) Cons.prems(4) unfolding x1 [symmetric] by auto
    moreover have "purged now (Some ttl) (stream_packets q p s) = purged now (Some ttl) xs"
      using True by (simp add: purged_def flip: Cons.hyps(2))
    ultimately show ?thesis
      using q1 step same_frame_trans by (auto simp: split: if_splits)
  qed
qed

lemma purge_streams_ok:
  assumes "set ss \<subseteq> dom (streams q)" and "distinct ss"
    and "books (level_multiset q p ss + A) extra q" and "streams_ok q" and "p < kNumPriorityLevels"
  shows "\<exists>q'. purge_streams p now ttl ss q = Some (filter (\<lambda>s. stream_packets q' p s \<noteq> []) ss, q') \<and>
    (\<forall>p' s'. stream_packets q' p' s' =
       (if p' = p \<and> s' \<in> set ss then purged now (Some ttl) (stream_packets q p s') else stream_packets q p' s')) \<and>
    dom (streams q') = dom (streams q) \<and>
    books (level_multiset q' p ss + A) extra q' \<and>
    streams_ok q' \<and> same_frame q q' \<and> streams_by_prio q' = streams_by_prio q"
  using assms
proof (induction ss arbitrary: q A)
  case (Cons s ss)
  have "s \<in> dom (streams q)" using Cons.prems(1) by auto
  moreover have "books (mset (stream_packets q p s) + (level_multiset q p ss + A)) extra q"
    using Cons.prems(3) by (simp add: add.assoc)
  ultimately obtain q1 where q1: "purge_stream p now ttl s q = Some q1"
    "\<forall>p' s'. stream_packets q1 p' s' =
       (if p' = p \<and> s' = s then purged now (Some ttl) (stream_packets q p s) else stream_packets q p' s')"
    "dom (streams q1) = dom (streams q)"
    "books (mset (purged now (Some ttl) (stream_packets q p s)) + (level_multiset q p ss + A)) extra q1"
    "streams_ok q1" "same_frame q q1" "streams_by_prio q1 = streams_by_prio q"
    using purge_stream_ok [of s q p "level_multiset q p ss + A" extra now ttl] Cons.prems(4,5) by blast
  have lm: "level_multiset q p ss = level_multiset q1 p ss"
    using q1(2) Cons.prems(2) by (intro level_multiset_cong) auto
  have p1: "stream_packets q1 p s = purged now (Some ttl) (stream_packets q p s)" using q1(2) by simp
  have "books (level_multiset q1 p ss + (mset (stream_packets q1 p s) + A)) extra q1"
    using q1(4) by (simp add: lm p1 ac_simps)
  then obtain q2 where q2: "purge_streams p now ttl ss q1 = Some (filter (\<lambda>s. stream_packets q2 p s \<noteq> []) ss, q2)"
    "\<forall>p' s'. stream_packets q2 p' s' =
       (if p' = p \<and> s' \<in> set ss then purged now (Some ttl) (stream_packets q1 p s') else stream_packets q1 p' s')"
    "dom (streams q2) = dom (streams q1)"
    "books (level_multiset q2 p ss + (mset (stream_packets q1 p s) + A)) extra q2"
    "streams_ok q2" "same_frame q1 q2" "streams_by_prio q2 = streams_by_prio q1"
    using Cons.IH [of q1 "mset (stream_packets q1 p s) + A"] Cons.prems q1 by auto
  obtain sq where sq: "streams q1 s = Some sq" using Cons.prems(1) q1(3) by auto
  have same: "stream_packets q2 p s = stream_packets q1 p s" using q2(2) Cons.prems(2) by simp
  then have "HasPacketsAtPrio sq p = (stream_packets q2 p s \<noteq> [])"
    using sq by (simp add: HasPacketsAtPrio_def stream_packets_def)
  then have "purge_streams p now ttl (s # ss) q = Some (filter (\<lambda>s. stream_packets q2 p s \<noteq> []) (s # ss), q2)"
    using q1(1) q2(1) sq by simp
  moreover have "books (level_multiset q2 p (s # ss) + A) extra q2"
    using q2(4) same by (simp add: ac_simps)
  ultimately show ?case
    using q1 q2 same_frame_trans [OF q1(6) q2(6)] Cons.prems(2)
    by (intro exI [of _ q2]) auto
qed auto

lemma well_formed_Nil_iff:
  "well_formed extra q \<Longrightarrow> stream_packets q p s = [] \<longleftrightarrow> s \<notin> set (streams_by_prio q p)"
  unfolding well_formed_def levels_ok_def by blast

lemma well_formed_dom:
  "well_formed extra q \<Longrightarrow> set (streams_by_prio q p) \<subseteq> dom (streams q)"
  by (force simp: well_formed_def levels_ok_def stream_packets_def split: option.splits)

lemma contents_update_level:
  assumes "p < kNumPriorityLevels" and "\<forall>p'. p' \<noteq> p \<longrightarrow> streams_by_prio q' p' = streams_by_prio q p'"
    and "\<forall>p' s. p' \<noteq> p \<longrightarrow> stream_packets q' p' s = stream_packets q p' s"
  shows "contents q' = level_multiset q' p (streams_by_prio q' p) +
    (\<Sum>p' \<in> {..<kNumPriorityLevels} - {p}. level_multiset q p' (streams_by_prio q p'))"
proof -
  have "(\<Sum>p' \<in> {..<kNumPriorityLevels} - {p}. level_multiset q' p' (streams_by_prio q' p')) =
      (\<Sum>p' \<in> {..<kNumPriorityLevels} - {p}. level_multiset q p' (streams_by_prio q p'))"
    using assms(2,3) by (intro sum.cong) (auto intro: level_multiset_cong)
  then show ?thesis using contents_split [OF assms(1), of q'] by simp
qed

lemma Purge_ok:
  assumes wf: "well_formed extra q" and p: "p < kNumPriorityLevels"
  shows "\<exists>q'. PurgeOldPacketsAtPriorityLevel p now q = Some q' \<and> well_formed extra q' \<and>
    (\<forall>p' s. stream_packets q' p' s =
       (if p' = p then purged now (time_to_live_per_prio q p) (stream_packets q p s) else stream_packets q p' s)) \<and>
    streams_by_prio q' = (streams_by_prio q)(p := filter (\<lambda>s. stream_packets q' p s \<noteq> []) (streams_by_prio q p)) \<and>
    dom (streams q') = dom (streams q) \<and> same_frame q q'"
proof (cases "time_to_live_per_prio q p")
  case None
  have "filter (\<lambda>s. stream_packets q p s \<noteq> []) (streams_by_prio q p) = streams_by_prio q p"
    using wf by (auto simp: well_formed_def levels_ok_def intro: filter_True)
  with None wf show ?thesis
    by (auto simp: PurgeOldPacketsAtPriorityLevel_def purged_def)
next
  case (Some ttl)
  let ?ss = "streams_by_prio q p"
  let ?A = "\<Sum>p' \<in> {..<kNumPriorityLevels} - {p}. level_multiset q p' (streams_by_prio q p')"
  have b: "books (level_multiset q p ?ss + ?A) extra q"
    using wf contents_split [OF p, of q] by (simp add: well_formed_def)
  obtain q1 where q1: "purge_streams p now ttl ?ss q = Some (filter (\<lambda>s. stream_packets q1 p s \<noteq> []) ?ss, q1)"
    "\<forall>p' s'. stream_packets q1 p' s' =
       (if p' = p \<and> s' \<in> set ?ss then purged now (Some ttl) (stream_packets q p s') else stream_packets q p' s')"
    "dom (streams q1) = dom (streams q)" "books (level_multiset q1 p ?ss + ?A) extra q1"
    "streams_ok q1" "same_frame q q1" "streams_by_prio q1 = streams_by_prio q"
    using purge_streams_ok [OF well_formed_dom [OF wf] _ b _ p, of now ttl] wf
    by (auto simp: well_formed_def levels_ok_def)
  let ?q = "q1\<lparr>streams_by_prio := (streams_by_prio q1)(p := filter (\<lambda>s. stream_packets q1 p s \<noteq> []) ?ss)\<rparr>"
  have outside: "stream_packets q p s = []" if "s \<notin> set ?ss" for s
    using wf that by (auto simp: well_formed_def levels_ok_def)
  have spq: "stream_packets q1 p' s =
      (if p' = p then purged now (Some ttl) (stream_packets q p s) else stream_packets q p' s)" for p' s
    using q1(2) outside [of s] by (auto simp: purged_def)
  have "contents ?q = level_multiset q1 p (filter (\<lambda>s. stream_packets q1 p s \<noteq> []) ?ss) + ?A"
    using contents_update_level [OF p, of ?q q] by (simp add: spq q1(7))
  also have "level_multiset q1 p (filter (\<lambda>s. stream_packets q1 p s \<noteq> []) ?ss) = level_multiset q1 p ?ss"
    by (rule level_multiset_filter) simp
  finally have "books (contents ?q) extra ?q" using q1(4) by (simp only: books_frame)
  moreover have "levels_ok ?q"
  proof -
    have "s \<in> set ?ss" if "purged now (Some ttl) (stream_packets q p s) \<noteq> []" for s
      using that outside [of s] by (metis purged_Nil)
    then show ?thesis
      unfolding levels_ok_def using wf p q1(7) by (auto simp: well_formed_def levels_ok_def spq)
  qed
  moreover have "streams_ok ?q" using q1(5) by (simp add: streams_ok_def)
  ultimately show ?thesis
    using q1(1,3,6,7) Some spq by (intro exI [of _ ?q])
      (simp add: PurgeOldPacketsAtPriorityLevel_def well_formed_def same_frame_def)
qed

section \<open>The top level\<close>

lemma contents_empty_iff:
  assumes "levels_ok q"
  shows "contents q = {#} \<longleftrightarrow> (\<forall>p < kNumPriorityLevels. streams_by_prio q p = [])"
proof -
  have "level_multiset q p (streams_by_prio q p) = {#} \<longleftrightarrow> streams_by_prio q p = []" for p
    using assms by (cases "streams_by_prio q p") (force simp: levels_ok_def)+
  then show ?thesis by (simp add: contents_def sum_eq_empty_iff) blast
qed

lemma size_packets_0_iff:
  "well_formed {#} q \<Longrightarrow> size_packets q = 0 \<longleftrightarrow> (\<forall>p < kNumPriorityLevels. streams_by_prio q p = [])"
  using contents_empty_iff [of q] by (simp add: well_formed_def books_def)

definition purged_state :: "packet_queue \<Rightarrow> packet_queue \<Rightarrow> bool" where
  "purged_state q q' \<longleftrightarrow>
     (\<forall>p s. stream_packets q' p s = stream_packets q p s \<or>
        stream_packets q' p s = purged (last_update_time q) (time_to_live_per_prio q p) (stream_packets q p s)) \<and>
     same_frame (q\<lparr>top_active_prio_level := 0\<rparr>) (q'\<lparr>top_active_prio_level := 0\<rparr>)"

lemma well_formed_top [simp]: "well_formed extra (q\<lparr>top_active_prio_level := t\<rparr>) = well_formed extra q"
  by (simp add: well_formed_def levels_ok_def streams_ok_def contents_def)

lemma find_top_level_ok:
  assumes "well_formed {#} q" and "k \<le> kNumPriorityLevels" and "\<forall>p < k. streams_by_prio q p = []"
  shows "\<exists>q'. find_top_level [k..<kNumPriorityLevels] q = Some q' \<and> well_formed {#} q' \<and> purged_state q q' \<and>
    ((\<forall>p < kNumPriorityLevels. streams_by_prio q' p = []) \<or> top_ok q')"
  using assms
proof (induction "kNumPriorityLevels - k" arbitrary: k q)
  case 0
  then show ?case by (auto simp: purged_state_def)
next
  case (Suc n)
  then have k: "k < kNumPriorityLevels" by linarith
  have n: "n = kNumPriorityLevels - Suc k" using Suc.hyps(2) by simp
  obtain q1 where q1: "PurgeOldPacketsAtPriorityLevel k (last_update_time q) q = Some q1" "well_formed {#} q1"
    "\<forall>p' s. stream_packets q1 p' s = (if p' = k then purged (last_update_time q) (time_to_live_per_prio q k)
        (stream_packets q k s) else stream_packets q p' s)"
    "streams_by_prio q1 = (streams_by_prio q)(k := filter (\<lambda>s. stream_packets q1 k s \<noteq> []) (streams_by_prio q k))"
    "same_frame q q1"
    using Purge_ok [OF Suc.prems(1) k] by blast
  have low: "\<forall>p < k. streams_by_prio q1 p = []" using Suc.prems(3) unfolding q1(4) by simp
  have upt: "[k..<kNumPriorityLevels] = k # [Suc k..<kNumPriorityLevels]" using k by (rule upt_conv_Cons)
  show ?case
  proof (cases "streams_by_prio q1 k = []")
    case False
    let ?q = "q1\<lparr>top_active_prio_level := int k\<rparr>"
    have "find_top_level [k..<kNumPriorityLevels] q = Some ?q"
      unfolding upt using q1(1) False by simp
    moreover have "top_ok ?q" using low False k by (auto simp: top_ok_def)
    moreover have "purged_state q ?q" using q1(3,5) by (auto simp: purged_state_def same_frame_def)
    ultimately show ?thesis using q1(2) by (intro exI [of _ ?q]) auto
  next
    case True
    have "\<forall>p < Suc k. streams_by_prio q1 p = []" using low True by (auto simp: less_Suc_eq)
    then obtain q' where q': "find_top_level [Suc k..<kNumPriorityLevels] q1 = Some q'" "well_formed {#} q'"
      "purged_state q1 q'" "(\<forall>p < kNumPriorityLevels. streams_by_prio q' p = []) \<or> top_ok q'"
      using Suc.hyps(1) [of "Suc k" q1] n q1(2) k by auto
    have "find_top_level [k..<kNumPriorityLevels] q = Some q'"
      unfolding upt using q1(1) True q'(1) by simp
    moreover have "purged_state q q'"
    proof -
      have "stream_packets q1 k s = []" for s using well_formed_Nil_iff [OF q1(2)] True by simp
      then have "stream_packets q' k s = stream_packets q1 k s" for s
        using q'(3) unfolding purged_state_def by (metis purged_Nil)
      moreover have "stream_packets q' p s = stream_packets q1 p s \<or>
          stream_packets q' p s = purged (last_update_time q) (time_to_live_per_prio q p) (stream_packets q1 p s)" for p s
        using q'(3) q1(5) unfolding purged_state_def same_frame_def by simp
      ultimately have "stream_packets q' p s = stream_packets q p s \<or>
          stream_packets q' p s = purged (last_update_time q) (time_to_live_per_prio q p) (stream_packets q p s)" for p s
        using q1(3) by (cases "p = k") metis+
      moreover have "same_frame (q\<lparr>top_active_prio_level := 0\<rparr>) (q'\<lparr>top_active_prio_level := 0\<rparr>)"
        using q'(3) q1(5) by (simp add: purged_state_def same_frame_def)
      ultimately show ?thesis unfolding purged_state_def by blast
    qed
    ultimately show ?thesis using q' by blast
  qed
qed

lemma MaybeUpdateTopPrioLevel_ok:
  assumes wf: "well_formed {#} q"
    and top: "top_ok q \<or> top_active_prio_level q = -1 \<or>
      (\<exists>p. top_active_prio_level q = int p \<and> streams_by_prio q p = [])"
  shows "\<exists>q'. MaybeUpdateTopPrioLevel q = Some q' \<and> queue_inv q' \<and> purged_state q q'"
proof (cases "top_active_prio_level q \<noteq> -1 \<and> streams_by_prio q (nat (top_active_prio_level q)) \<noteq> []")
  case True
  then have "top_ok q" using top by auto
  with True wf show ?thesis
    by (simp add: MaybeUpdateTopPrioLevel_def queue_inv_def purged_state_def)
next
  case False
  obtain q' where q': "find_top_level [0..<kNumPriorityLevels] q = Some q'" "well_formed {#} q'"
    "purged_state q q'" "(\<forall>p < kNumPriorityLevels. streams_by_prio q' p = []) \<or> top_ok q'"
    using find_top_level_ok [OF wf, of 0] by auto
  let ?q = "if size_packets q' = 0 then q'\<lparr>top_active_prio_level := -1\<rparr> else q'"
  have "MaybeUpdateTopPrioLevel q = Some ?q" using False q'(1) by (auto simp: MaybeUpdateTopPrioLevel_def)
  moreover have "top_ok ?q"
  proof (cases "size_packets q' = 0")
    case True
    then show ?thesis using size_packets_0_iff [OF q'(2)] by (simp add: top_ok_def)
  next
    case False
    then show ?thesis using q'(4) size_packets_0_iff [OF q'(2)] by auto
  qed
  moreover have "purged_state q ?q" using q'(3) by (auto simp: purged_state_def same_frame_def)
  ultimately show ?thesis using q'(2) by (simp add: queue_inv_def)
qed

section \<open>Pop\<close>

lemma top_ok_least:
  assumes "top_ok q" and "\<exists>p < kNumPriorityLevels. streams_by_prio q p \<noteq> []"
  obtains p s ss where "p < kNumPriorityLevels" "top_active_prio_level q = int p"
    "streams_by_prio q p = s # ss" "\<forall>p' < p. streams_by_prio q p' = []"
proof -
  obtain p where "p < kNumPriorityLevels" "top_active_prio_level q = int p" "streams_by_prio q p \<noteq> []"
    "\<forall>p' < p. streams_by_prio q p' = []"
    using assms by (auto simp: top_ok_def split: if_splits)
  then show thesis using that by (cases "streams_by_prio q p") auto
qed

lemma Pop_nonempty:
  assumes inv: "queue_inv q" and ne: "size_packets q \<noteq> 0"
  shows "\<exists>p s ss x xs q'. p < kNumPriorityLevels \<and> (\<forall>p' < p. streams_by_prio q p' = []) \<and>
    streams_by_prio q p = s # ss \<and> stream_packets q p s = x # xs \<and>
    Pop q = Some (Some ((qp_packet x)\<lparr>pk_time_in_send_queue :=
       Some (last_update_time q - qp_enqueue_time x - pause_time_sum q)\<rparr>), q') \<and>
    queue_inv q' \<and>
    (if xs \<noteq> [] \<or> ss \<noteq> [] then
       (\<forall>p' s'. stream_packets q' p' s' = (if p' = p \<and> s' = s then xs else stream_packets q p' s')) \<and>
       streams_by_prio q' = (streams_by_prio q)(p := ss @ (if xs = [] then [] else [s]))
     else \<forall>p' s'. let rest = (if p' = p \<and> s' = s then xs else stream_packets q p' s') in
       stream_packets q' p' s' = rest \<or>
       stream_packets q' p' s' = purged (last_update_time q) (time_to_live_per_prio q p') rest)"
proof -
  have wf: "well_formed {#} q" and top: "top_ok q" using inv by (auto simp: queue_inv_def)
  obtain p s ss where p: "p < kNumPriorityLevels" "top_active_prio_level q = int p"
    "streams_by_prio q p = s # ss" "\<forall>p' < p. streams_by_prio q p' = []"
    using top_ok_least [OF top] ne size_packets_0_iff [OF wf] by blast
  obtain x xs where x: "stream_packets q p s = x # xs"
    using well_formed_Nil_iff [OF wf, of p s] p(3) by (cases "stream_packets q p s") auto
  let ?A = "\<Sum>p' \<in> {..<kNumPriorityLevels} - {p}. level_multiset q p' (streams_by_prio q p')"
  have "distinct (streams_by_prio q p)" using wf by (simp add: well_formed_def levels_ok_def)
  then have dist: "s \<notin> set ss" "distinct ss" using p(3) by simp_all
  have "books (mset (x # xs) + (level_multiset q p ss + ?A)) {#} q"
    using wf contents_split [OF p(1), of q] x p(3) by (simp add: well_formed_def add.assoc)
  then obtain q1 where q1: "dequeue_from q s p =
      Some ((qp_packet x)\<lparr>pk_time_in_send_queue := Some (last_update_time q - qp_enqueue_time x - pause_time_sum q)\<rparr>, q1)"
    "\<forall>p' s'. stream_packets q1 p' s' = (if p' = p \<and> s' = s then xs else stream_packets q p' s')"
    "dom (streams q1) = dom (streams q)" "books (mset xs + (level_multiset q p ss + ?A)) {#} q1"
    "streams_ok q1" "same_frame q q1" "streams_by_prio q1 = streams_by_prio q"
    using dequeue_from_ok [OF x _ _ p(1), of "level_multiset q p ss + ?A" "{#}"] wf by (auto simp: well_formed_def)
  let ?ss = "ss @ (if xs = [] then [] else [s])"
  let ?q2 = "q1\<lparr>streams_by_prio := (streams_by_prio q1)(p := ?ss)\<rparr>"
  have "level_multiset q1 p ss = level_multiset q p ss"
    using q1(2) dist(1) by (intro level_multiset_cong) auto
  then have "level_multiset q1 p ?ss = mset xs + level_multiset q p ss"
    using q1(2) by (simp add: add.commute)
  then have "contents ?q2 = mset xs + (level_multiset q p ss + ?A)"
    using contents_update_level [OF p(1), of ?q2 q] q1(2,7) by (simp add: add.assoc)
  then have "books (contents ?q2) {#} ?q2" using q1(4) by (simp only: books_frame)
  moreover have "levels_ok ?q2"
    unfolding levels_ok_def using wf p(1,3) q1(2,7) dist x
    by (auto simp: well_formed_def levels_ok_def)
  ultimately have wf2: "well_formed {#} ?q2" using q1(5) by (simp add: well_formed_def streams_ok_def)
  obtain sq where sq: "streams q1 s = Some sq" "sq_packets sq p = xs"
  proof -
    have "s \<in> dom (streams q1)" using well_formed_dom [OF wf, of p] p(3) q1(3) by auto
    then obtain sq where "streams q1 s = Some sq" by auto
    moreover have "stream_packets q1 p s = xs" using q1(2) by simp
    ultimately show thesis using that by (simp add: stream_packets_def)
  qed
  show ?thesis
  proof (cases "xs \<noteq> [] \<or> ss \<noteq> []")
    case True
    then have "?ss \<noteq> []" by auto
    then have top2: "top_ok ?q2" using p q1(6,7) by (auto simp: top_ok_def same_frame_def)
    have "Pop q = Some (Some ((qp_packet x)\<lparr>pk_time_in_send_queue :=
       Some (last_update_time q - qp_enqueue_time x - pause_time_sum q)\<rparr>), ?q2)"
      using ne p q1(1,6,7) sq True
      by (auto simp: Pop_def HasPacketsAtPrio_def MaybeUpdateTopPrioLevel_def same_frame_def Let_def)
    moreover have "queue_inv ?q2" using wf2 top2 by (simp add: queue_inv_def)
    ultimately show ?thesis
      using p x q1(2,7) True by (intro exI [of _ p] exI [of _ s] exI [of _ ss] exI [of _ x] exI [of _ xs] exI [of _ ?q2]) simp
  next
    case False
    obtain q3 where q3: "MaybeUpdateTopPrioLevel ?q2 = Some q3" "queue_inv q3" "purged_state ?q2 q3"
      using MaybeUpdateTopPrioLevel_ok [OF wf2] False p q1(6) by (auto simp: same_frame_def)
    have "Pop q = Some (Some ((qp_packet x)\<lparr>pk_time_in_send_queue :=
       Some (last_update_time q - qp_enqueue_time x - pause_time_sum q)\<rparr>), q3)"
      using ne p q1(1) sq False q3(1) by (simp add: Pop_def HasPacketsAtPrio_def Let_def)
    moreover have "last_update_time ?q2 = last_update_time q" "time_to_live_per_prio ?q2 = time_to_live_per_prio q"
      using q1(6) by (simp_all add: same_frame_def)
    ultimately show ?thesis
      using p x q1(2) False q3(2,3) unfolding purged_state_def
      by (intro exI [of _ p] exI [of _ s] exI [of _ ss] exI [of _ x] exI [of _ xs] exI [of _ q3]) simp
  qed
qed

section \<open>Push\<close>

lemma stream_packets_congD: "streams q' = streams q \<Longrightarrow> stream_packets q' = stream_packets q"
  by (simp add: fun_eq_iff stream_packets_def)

lemma contents_cong:
  assumes "\<And>p s. p < kNumPriorityLevels \<Longrightarrow> stream_packets q' p s = stream_packets q p s"
    and "streams_by_prio q' = streams_by_prio q"
  shows "contents q' = contents q"
  unfolding contents_def assms(2) using assms(1) by (intro sum.cong level_multiset_cong) auto

lemma levels_ok_high: "levels_ok q \<Longrightarrow> kNumPriorityLevels \<le> p \<Longrightarrow> stream_packets q p s = []"
  unfolding levels_ok_def by (metis empty_iff empty_set)

lemma UpdateAverageQueueTime_ok:
  assumes "well_formed extra q"
  shows "well_formed extra (UpdateAverageQueueTime now q)"
proof -
  let ?q = "UpdateAverageQueueTime now q"
  have f: "streams ?q = streams q" "streams_by_prio ?q = streams_by_prio q"
    by (simp_all add: UpdateAverageQueueTime_def Let_def)
  have shift: "(\<Sum>x\<in>#M. now - qp_enqueue_time x - c) =
      (\<Sum>x\<in>#M. l - qp_enqueue_time x - c) + (now - l) * int (size M)" for M :: "queued_packet multiset" and l c
    by (induction M) (auto simp: algebra_simps)
  have swap: "(\<Sum>x\<in>#M. l - qp_enqueue_time x - c) = (\<Sum>x\<in>#M. l - c - qp_enqueue_time x)"
    for M :: "queued_packet multiset" and l c by (simp add: algebra_simps)
  have "contents ?q = contents q" using f by (intro contents_cong) auto
  moreover have "books M extra q \<Longrightarrow> books M extra ?q" for M
    using shift [where M = M and c = "pause_time_sum q" and l = "last_update_time q"]
    by (auto simp: UpdateAverageQueueTime_def books_def Let_def swap)
  ultimately show ?thesis
    using assms f by (simp add: well_formed_def levels_ok_def streams_ok_def)
qed

lemma cull_streams_ok:
  assumes "queue_inv q"
  shows "queue_inv (cull_streams now q)" "stream_packets (cull_streams now q) = stream_packets q"
    "streams_by_prio (cull_streams now q) = streams_by_prio q"
proof -
  have wf: "well_formed {#} q" and top: "top_ok q" using assms by (simp_all add: queue_inv_def)
  have high: "sq_packets sq p = []" if "streams q s = Some sq" "StreamQueue_IsEmpty sq" for s sq p
    using levels_ok_high [of q p s] wf that
    by (cases "p < kNumPriorityLevels")
       (auto simp: StreamQueue_IsEmpty_def list_all_iff well_formed_def stream_packets_def)
  show sp: "stream_packets (cull_streams now q) = stream_packets q"
    using high by (fastforce simp: fun_eq_iff stream_packets_def cull_streams_def split: option.splits)
  show by_prio: "streams_by_prio (cull_streams now q) = streams_by_prio q" by (simp add: cull_streams_def)
  have "contents (cull_streams now q) = contents q" using sp by_prio by (intro contents_cong) simp_all
  moreover have "books M {#} (cull_streams now q) = books M {#} q" for M
    by (simp add: cull_streams_def books_def)
  moreover have "streams_ok (cull_streams now q)"
    using wf by (auto simp: well_formed_def streams_ok_def cull_streams_def split: option.splits if_splits)
  moreover have "levels_ok (cull_streams now q)"
    using wf sp by_prio by (simp add: well_formed_def levels_ok_def)
  moreover have "top_ok (cull_streams now q)"
    using top by (simp add: top_ok_def cull_streams_def)
  ultimately show "queue_inv (cull_streams now q)" using wf by (simp add: queue_inv_def well_formed_def)
qed

lemma GetPriorityForType_less: "GetPriorityForType type original < kNumPriorityLevels"
  by (simp add: GetPriorityForType_def kNumPriorityLevels_def split: media_type.splits)

lemma Push_new_stream:
  assumes "well_formed extra q" and "streams q s = None"
  shows "well_formed extra (q\<lparr>streams := (streams q)(s \<mapsto> StreamQueue_init t)\<rparr>)"
    "stream_packets (q\<lparr>streams := (streams q)(s \<mapsto> StreamQueue_init t)\<rparr>) = stream_packets q"
proof -
  let ?q = "q\<lparr>streams := (streams q)(s \<mapsto> StreamQueue_init t)\<rparr>"
  show sp: "stream_packets ?q = stream_packets q"
    using assms(2) by (auto simp: fun_eq_iff stream_packets_def StreamQueue_init_def)
  then have "contents ?q = contents q" by (intro contents_cong) simp_all
  moreover have "keys_ok (StreamQueue_init t)" by (simp add: keys_ok_def StreamQueue_init_def)
  ultimately show "well_formed extra ?q"
    using assms(1) sp by (simp add: well_formed_def levels_ok_def streams_ok_def)
qed

lemma Push_insert_time:
  assumes "well_formed {#} q"
  shows "well_formed {#next_iterator q#}
    (q\<lparr>enqueue_times := enqueue_times q @ [(next_iterator q, t)], next_iterator := Suc (next_iterator q)\<rparr>)"
proof -
  let ?q = "q\<lparr>enqueue_times := enqueue_times q @ [(next_iterator q, t)], next_iterator := Suc (next_iterator q)\<rparr>"
  have "contents ?q = contents q" by (intro contents_cong) simp_all
  moreover have "books M {#} q \<Longrightarrow> books M {#next_iterator q#} ?q" for M by (force simp: books_def)
  ultimately show ?thesis using assms by (simp add: well_formed_def levels_ok_def streams_ok_def)
qed

text \<open>Adding a packet at the end of a stream's level.\<close>

definition add_packet :: "queued_packet \<Rightarrow> nat \<Rightarrow> u32 \<Rightarrow> stream_queue \<Rightarrow> packet_queue \<Rightarrow> packet_queue" where
  "add_packet x p s sq q =
     q\<lparr>size_packets := size_packets q + 1,
       size_packets_per_media_type := (size_packets_per_media_type q)
         (pk_type (qp_packet x) := size_packets_per_media_type q (pk_type (qp_packet x)) + 1),
       size_payload := size_payload q + PacketSize x,
       streams := (streams q)(s \<mapsto> snd (EnqueuePacket sq x p)),
       streams_by_prio := (if sq_packets sq p = []
         then (streams_by_prio q)(p := streams_by_prio q p @ [s]) else streams_by_prio q)\<rparr>"

lemma add_packet_ok:
  assumes wf: "well_formed {#qp_iterator x#} q" and sq: "streams q s = Some sq" and p: "p < kNumPriorityLevels"
    and time: "last_update_time q - qp_enqueue_time x - pause_time_sum q = 0"
  shows "well_formed {#} (add_packet x p s sq q)"
    "stream_packets (add_packet x p s sq q) p' s' =
       stream_packets q p' s' @ (if p' = p \<and> s' = s then [x] else [])"
proof -
  let ?q = "add_packet x p s sq q"
  have sp: "stream_packets ?q p' s' = stream_packets q p' s' @ (if p' = p \<and> s' = s then [x] else [])" for p' s'
    using sq by (simp add: add_packet_def stream_packets_def EnqueuePacket_def)
  then show "stream_packets ?q p' s' = stream_packets q p' s' @ (if p' = p \<and> s' = s then [x] else [])" .
  let ?ss = "streams_by_prio q p"
  have empty: "sq_packets sq p = [] \<longleftrightarrow> s \<notin> set ?ss"
    using well_formed_Nil_iff [OF wf, of p s] sq by (simp add: stream_packets_def)
  have dist: "distinct ?ss" using wf by (simp add: well_formed_def levels_ok_def)
  have lm: "level_multiset ?q p ss = level_multiset q p ss + (if s \<in> set ss then {#x#} else {#})"
    if "distinct ss" for ss
    using that by (induction ss) (auto simp: sp)
  have "level_multiset ?q p (streams_by_prio ?q p) = add_mset x (level_multiset q p ?ss)"
  proof (cases "s \<in> set ?ss")
    case True
    then show ?thesis using lm [OF dist] empty by (simp add: add_packet_def)
  next
    case False
    then have "stream_packets q p s = []" using well_formed_Nil_iff [OF wf] by blast
    then have "level_multiset ?q p [s] = {#x#}" by (simp add: sp)
    moreover have "streams_by_prio ?q p = ?ss @ [s]" using False empty by (simp add: add_packet_def)
    ultimately show ?thesis using lm [OF dist] False by simp
  qed
  then have "contents ?q = add_mset x (contents q)"
    using contents_update_level [OF p, of ?q q] contents_split [OF p, of q] sp by (simp add: add_packet_def)
  moreover have "books (add_mset x M) {#} ?q" if "books M {#qp_iterator x#} q" for M
    using that time by (simp add: books_def add_packet_def)
  moreover have "levels_ok ?q"
    unfolding levels_ok_def sp using wf p empty dist
    by (auto simp: well_formed_def levels_ok_def add_packet_def)
  moreover have "streams_ok ?q"
    using wf sq p keys_ok_push by (auto simp: well_formed_def streams_ok_def add_packet_def)
  ultimately show "well_formed {#} ?q" using wf by (simp add: well_formed_def)
qed

definition push_prio :: "rtp_packet_to_send \<Rightarrow> packet_queue \<Rightarrow> nat" where
  "push_prio packet q = GetPriorityForType (pk_type packet)
     (if prioritize_audio_retransmission q then pk_original packet else None)"

lemma top_ok_push:
  assumes top: "top_ok q" and p: "p < kNumPriorityLevels" "streams_by_prio q' p \<noteq> []"
    and other: "\<And>p'. p' \<noteq> p \<Longrightarrow> streams_by_prio q' p' = streams_by_prio q p'"
    and t': "top_active_prio_level q' =
      (if top_active_prio_level q < 0 \<or> int p < top_active_prio_level q then int p else top_active_prio_level q)"
  shows "top_ok q'"
proof (cases "\<forall>p < kNumPriorityLevels. streams_by_prio q p = []")
  case True
  then have "top_active_prio_level q' = int p" using top t' by (simp add: top_ok_def)
  moreover have "\<forall>p' < p. streams_by_prio q' p' = []" using True other p(1) by auto
  ultimately show ?thesis using p by (auto simp: top_ok_def)
next
  case False
  then obtain t s ss where t: "t < kNumPriorityLevels" "top_active_prio_level q = int t"
    "streams_by_prio q t = s # ss" "\<forall>p' < t. streams_by_prio q p' = []"
    using top_ok_least [OF top] by blast
  let ?m = "if p < t then p else t"
  have "top_active_prio_level q' = int ?m" using t' t(2) by simp
  moreover have "streams_by_prio q' ?m \<noteq> []" using p(2) other [of t] t(3) by (cases "t = p") auto
  moreover have "\<forall>p' < ?m. streams_by_prio q' p' = []" using t(4) other by auto
  moreover have "?m < kNumPriorityLevels" using p(1) t(1) by simp
  ultimately show ?thesis unfolding top_ok_def using p by metis
qed

lemma Push_ok:
  assumes inv: "queue_inv q"
  shows "\<exists>q' x. Push now packet q = Some q' \<and> queue_inv q' \<and> qp_packet x = packet \<and>
    (\<forall>p s. stream_packets q' p s =
       (if p = push_prio packet q
        then purged now (time_to_live_per_prio q p) (stream_packets q p s) @
          (if s = pk_ssrc packet then [x] else [])
        else stream_packets q p s))"
proof -
  let ?s = "pk_ssrc packet" and ?p = "push_prio packet q" and ?it = "next_iterator q"
  have p: "?p < kNumPriorityLevels" by (simp add: push_prio_def GetPriorityForType_less)
  have wf: "well_formed {#} q" and top: "top_ok q" using inv by (simp_all add: queue_inv_def)
  define q1 where "q1 = (if streams q ?s = None then q\<lparr>streams := (streams q)(?s \<mapsto> StreamQueue_init now)\<rparr> else q)"
  have q1: "well_formed {#} q1" "stream_packets q1 = stream_packets q" "same_frame q q1"
    "streams_by_prio q1 = streams_by_prio q" "?s \<in> dom (streams q1)"
    using Push_new_stream [OF wf, of ?s now] wf by (auto simp: q1_def same_frame_def)
  define q2 where "q2 = q1\<lparr>enqueue_times := enqueue_times q1 @ [(?it, now)], next_iterator := Suc ?it\<rparr>"
  have it: "next_iterator q1 = ?it" using q1(3) by (simp add: same_frame_def)
  have q2: "well_formed {#?it#} q2" "stream_packets q2 = stream_packets q"
    "streams_by_prio q2 = streams_by_prio q" "?s \<in> dom (streams q2)" "top_active_prio_level q2 = top_active_prio_level q"
    "time_to_live_per_prio q2 = time_to_live_per_prio q"
    using Push_insert_time [OF q1(1), of now] q1 it by (auto simp: q2_def same_frame_def fun_eq_iff)
  obtain q3 where q3: "PurgeOldPacketsAtPriorityLevel ?p now q2 = Some q3" "well_formed {#?it#} q3"
    "\<forall>p s. stream_packets q3 p s = (if p = ?p then purged now (time_to_live_per_prio q ?p) (stream_packets q ?p s)
       else stream_packets q p s)"
    "streams_by_prio q3 = (streams_by_prio q)(?p := filter (\<lambda>s. stream_packets q3 ?p s \<noteq> []) (streams_by_prio q ?p))"
    "dom (streams q3) = dom (streams q2)" "same_frame q2 q3"
    using Purge_ok [OF q2(1) p, of now] q2 by auto
  define q4 where "q4 = UpdateAverageQueueTime now q3"
  have q4: "well_formed {#?it#} q4" "streams q4 = streams q3" "streams_by_prio q4 = streams_by_prio q3"
    "last_update_time q4 = now" "top_active_prio_level q4 = top_active_prio_level q"
    using UpdateAverageQueueTime_ok [OF q3(2), of now] q3(6) q2(5)
    by (auto simp: q4_def UpdateAverageQueueTime_def Let_def same_frame_def)
  obtain sq where sq: "streams q4 ?s = Some sq" using q2(4) q3(5) q4(2) by auto
  define x where "x = \<lparr>qp_packet = packet, qp_enqueue_time = now - pause_time_sum q4, qp_iterator = ?it\<rparr>"
  let ?q7 = "add_packet x ?p ?s sq q4"
  have q7: "well_formed {#} ?q7" "\<forall>p s. stream_packets ?q7 p s =
      stream_packets q4 p s @ (if p = ?p \<and> s = ?s then [x] else [])"
    using add_packet_ok [of x q4 ?s sq ?p] q4(1,4) sq p by (auto simp: x_def)
  let ?q8 = "if top_active_prio_level ?q7 < 0 \<or> int ?p < top_active_prio_level ?q7
    then ?q7\<lparr>top_active_prio_level := int ?p\<rparr> else ?q7"
  have wf8: "well_formed {#} ?q8" using q7(1) by simp
  have by8: "streams_by_prio ?q8 = streams_by_prio ?q7" "top_active_prio_level ?q7 = top_active_prio_level q"
    using q4(5) by (simp_all add: add_packet_def)
  have other: "p' \<noteq> ?p \<Longrightarrow> streams_by_prio ?q7 p' = streams_by_prio q p'" for p'
    using q3(4) q4(3) by (auto simp: add_packet_def)
  have "stream_packets ?q7 ?p ?s \<noteq> []" using q7(2) by simp
  then have here: "streams_by_prio ?q7 ?p \<noteq> []" using well_formed_Nil_iff [OF q7(1), of ?p ?s] by auto
  have "top_ok ?q8"
    by (rule top_ok_push [OF top p]) (use here other by8 in auto)
  then have inv8: "queue_inv ?q8" using wf8 by (simp add: queue_inv_def)
  have pq2: "GetPriorityForType (pk_type packet)
      (if prioritize_audio_retransmission q2 then pk_original packet else None) = ?p"
    using q1(3) by (simp add: q2_def push_prio_def same_frame_def)
  have "Push now packet q = Some (cull_streams now ?q8)"
    unfolding Push_def Let_def q1_def [symmetric] it q2_def [symmetric] pq2 q3(1) Option.bind.bind_lunit
      q4_def [symmetric] x_def [symmetric]
    by (simp add: sq add_packet_def EnqueuePacket_def x_def del: fun_upd_apply)
  moreover have "stream_packets ?q8 = stream_packets ?q7" by (simp add: fun_eq_iff)
  then have "\<forall>p s. stream_packets (cull_streams now ?q8) p s =
       (if p = ?p then purged now (time_to_live_per_prio q p) (stream_packets q p s) @
          (if s = ?s then [x] else []) else stream_packets q p s)"
    unfolding cull_streams_ok(2) [OF inv8] using q7(2) q3(3) stream_packets_congD [OF q4(2)] by simp
  moreover have "qp_packet x = packet" by (simp add: x_def)
  ultimately show ?thesis using cull_streams_ok(1) [OF inv8] by blast
qed

section \<open>Removing a stream\<close>

lemma dequeue_list_ok:
  "books (mset xs + A) extra q \<Longrightarrow>
     \<exists>q'. dequeue_list xs q = Some q' \<and> books A extra q' \<and> same_frame q q' \<and>
       streams q' = streams q \<and> streams_by_prio q' = streams_by_prio q"
proof (induction xs arbitrary: q)
  case (Cons x xs)
  then have "books (add_mset x (mset xs + A)) extra q" by simp
  then obtain pk q1 where q1: "DequeuePacketInternal q x = Some (pk, q1)" "books (mset xs + A) extra q1"
    "same_frame q q1" "streams q1 = streams q" "streams_by_prio q1 = streams_by_prio q"
    using DequeuePacketInternal_books by blast
  with Cons.IH [OF q1(2)] show ?case using same_frame_trans by fastforce
qed simp

lemma filter_neq_single:
  "distinct ss \<Longrightarrow> s \<in> set ss \<Longrightarrow> length ss = 1 \<Longrightarrow> tl ss = filter (\<lambda>x. x \<noteq> s) ss"
  by (cases ss) auto

lemma remove_levels_ok:
  assumes "distinct is" and "\<forall>p \<in> set is. distinct (streams_by_prio q p)"
    and "\<forall>p \<in> set is. pk p \<noteq> [] \<longleftrightarrow> ssrc \<in> set (streams_by_prio q p)"
    and "books ((\<Sum>p\<in>set is. mset (pk p)) + A) extra q"
  shows "\<exists>q'. remove_levels ssrc pk is q = Some q' \<and> books A extra q' \<and> same_frame q q' \<and>
    streams q' = streams q \<and>
    streams_by_prio q' = (\<lambda>p. if p \<in> set is then filter (\<lambda>s. s \<noteq> ssrc) (streams_by_prio q p) else streams_by_prio q p)"
  using assms
proof (induction "is" arbitrary: q)
  case Nil
  then show ?case by (auto simp: fun_eq_iff)
next
  case (Cons i "is")
  have i: "i \<notin> set is" using Cons.prems(1) by simp
  show ?case
  proof (cases "pk i = []")
    case True
    then have "filter (\<lambda>s. s \<noteq> ssrc) (streams_by_prio q i) = streams_by_prio q i"
      using Cons.prems(3) by (auto intro!: filter_True)
    moreover obtain q' where "remove_levels ssrc pk is q = Some q'" "books A extra q'" "same_frame q q'"
      "streams q' = streams q"
      "streams_by_prio q' = (\<lambda>p. if p \<in> set is then filter (\<lambda>s. s \<noteq> ssrc) (streams_by_prio q p) else streams_by_prio q p)"
      using Cons.IH [of q] Cons.prems True i by auto
    ultimately show ?thesis using True by (intro exI [of _ q']) (auto simp: fun_eq_iff)
  next
    case False
    have "books (mset (pk i) + ((\<Sum>p\<in>set is. mset (pk p)) + A)) extra q"
      using Cons.prems(4) i by (simp add: add.assoc)
    then obtain q1 where q1: "dequeue_list (pk i) q = Some q1"
      "books ((\<Sum>p\<in>set is. mset (pk p)) + A) extra q1" "same_frame q q1"
      "streams q1 = streams q" "streams_by_prio q1 = streams_by_prio q"
      using dequeue_list_ok by blast
    let ?ss = "streams_by_prio q i"
    let ?q2 = "q1\<lparr>streams_by_prio := (streams_by_prio q)(i := filter (\<lambda>s. s \<noteq> ssrc) ?ss)\<rparr>"
    have tl: "length ?ss = 1 \<Longrightarrow> tl ?ss = filter (\<lambda>s. s \<noteq> ssrc) ?ss"
      using filter_neq_single [of ?ss ssrc] Cons.prems(2,3) False by auto
    have step: "remove_levels ssrc pk (i # is) q = remove_levels ssrc pk is ?q2"
      using False q1(1,5) tl by (simp add: Let_def)
    have "\<exists>q'. remove_levels ssrc pk is ?q2 = Some q' \<and> books A extra q' \<and> same_frame ?q2 q' \<and>
        streams q' = streams ?q2 \<and>
        streams_by_prio q' = (\<lambda>p. if p \<in> set is then filter (\<lambda>s. s \<noteq> ssrc) (streams_by_prio ?q2 p) else streams_by_prio ?q2 p)"
      using Cons.prems i q1(2) by (intro Cons.IH) auto
    then obtain q' where "remove_levels ssrc pk is ?q2 = Some q'" "books A extra q'" "same_frame ?q2 q'"
      "streams q' = streams q1"
      "streams_by_prio q' = (\<lambda>p. if p \<in> set is then filter (\<lambda>s. s \<noteq> ssrc) (streams_by_prio ?q2 p) else streams_by_prio ?q2 p)"
      by auto
    then show ?thesis
      using step q1(3,4) i by (intro exI [of _ q']) (auto simp: fun_eq_iff same_frame_def)
  qed
qed

lemma RemovePacketsForSsrc_ok:
  assumes inv: "queue_inv q"
  shows "\<exists>q'. RemovePacketsForSsrc ssrc q = Some q' \<and> queue_inv q' \<and>
    (\<forall>p s. let rest = (if s = ssrc then [] else stream_packets q p s) in
       stream_packets q' p s = rest \<or>
       stream_packets q' p s = purged (last_update_time q) (time_to_live_per_prio q p) rest)"
proof -
  have wf: "well_formed {#} q" and top: "top_ok q" using inv by (simp_all add: queue_inv_def)
  show ?thesis
  proof (cases "streams q ssrc")
    case None
    then have "stream_packets q p ssrc = []" for p by (simp add: stream_packets_def)
    moreover obtain q' where "MaybeUpdateTopPrioLevel q = Some q'" "queue_inv q'" "purged_state q q'"
      using MaybeUpdateTopPrioLevel_ok [OF wf] top by blast
    ultimately show ?thesis using None
      by (auto simp: RemovePacketsForSsrc_def purged_state_def Let_def) (metis purged_Nil)
  next
    case (Some sq)
    let ?sq = "sq\<lparr>sq_packets := (\<lambda>_. []), sq_num_keyframes := 0\<rparr>"
    let ?q1 = "q\<lparr>streams := (streams q)(ssrc \<mapsto> ?sq)\<rparr>"
    let ?by = "\<lambda>p. filter (\<lambda>s. s \<noteq> ssrc) (streams_by_prio q p)"
    let ?q2 = "?q1\<lparr>streams_by_prio := ?by\<rparr>"
    have sp1: "stream_packets ?q1 p s = (if s = ssrc then [] else stream_packets q p s)" for p s
      by (simp add: stream_packets_def)
    then have sp: "stream_packets ?q2 p s = (if s = ssrc then [] else stream_packets q p s)" for p s by simp
    have pk: "sq_packets sq p = stream_packets q p ssrc" for p using Some by (simp add: stream_packets_def)
    have lm: "level_multiset q p ss = (if ssrc \<in> set ss then mset (stream_packets q p ssrc) else {#}) +
        level_multiset ?q2 p (filter (\<lambda>s. s \<noteq> ssrc) ss)" if "distinct ss" for p ss
      using that by (induction ss) (auto simp: sp1)
    have "level_multiset q p (streams_by_prio q p) = mset (sq_packets sq p) + level_multiset ?q2 p (?by p)" for p
      using lm [of "streams_by_prio q p" p] wf well_formed_Nil_iff [OF wf, of p ssrc]
      by (auto simp: pk well_formed_def levels_ok_def)
    then have split: "contents q = (\<Sum>p\<in>set [0..<kNumPriorityLevels]. mset (sq_packets sq p)) + contents ?q2"
      by (simp add: contents_def sum.distrib lessThan_atLeast0)
    obtain q3 where q3: "remove_levels ssrc (sq_packets sq) [0..<kNumPriorityLevels] ?q1 = Some q3"
      "books (contents ?q2) {#} q3" "same_frame ?q1 q3" "streams q3 = streams ?q1"
      "streams_by_prio q3 = (\<lambda>p. if p \<in> set [0..<kNumPriorityLevels]
         then filter (\<lambda>s. s \<noteq> ssrc) (streams_by_prio ?q1 p) else streams_by_prio ?q1 p)"
    proof -
      have "books ((\<Sum>p\<in>set [0..<kNumPriorityLevels]. mset (sq_packets sq p)) + contents ?q2) {#} ?q1"
        using wf split by (simp add: well_formed_def)
      moreover have "sq_packets sq p \<noteq> [] \<longleftrightarrow> ssrc \<in> set (streams_by_prio ?q1 p)" for p
        using well_formed_Nil_iff [OF wf, of p ssrc] by (simp add: pk)
      moreover have "distinct (streams_by_prio ?q1 p)" for p
        using wf by (simp add: well_formed_def levels_ok_def)
      ultimately show thesis
        using that remove_levels_ok [of "[0..<kNumPriorityLevels]" ?q1 "sq_packets sq" ssrc "contents ?q2" "{#}"]
          distinct_upt by blast
    qed
    have by3: "streams_by_prio q3 = ?by"
      unfolding q3(5) using wf by (auto simp: fun_eq_iff well_formed_def levels_ok_def)
    have sp3: "stream_packets q3 p s = (if s = ssrc then [] else stream_packets q p s)" for p s
      using q3(4) sp [of p s] by (simp add: stream_packets_def)
    have "contents q3 = contents ?q2" using by3 sp3 sp by (intro contents_cong) simp_all
    moreover have "keys_ok ?sq" by (simp add: keys_ok_def)
    then have "streams_ok q3" using wf q3(4) by (auto simp: well_formed_def streams_ok_def)
    moreover have "levels_ok q3"
      unfolding levels_ok_def by3 sp3 using wf by (auto simp: well_formed_def levels_ok_def)
    ultimately have wf3: "well_formed {#} q3" using q3(2) by (simp add: well_formed_def)
    have top3: "top_active_prio_level q3 = top_active_prio_level q" using q3(3) by (simp add: same_frame_def)
    have "top_ok q3 \<or> top_active_prio_level q3 = -1 \<or>
        (\<exists>p. top_active_prio_level q3 = int p \<and> streams_by_prio q3 p = [])"
      using top top3 by3 by (auto simp: top_ok_def split: if_splits)
    then obtain q' where q': "MaybeUpdateTopPrioLevel q3 = Some q'" "queue_inv q'" "purged_state q3 q'"
      using MaybeUpdateTopPrioLevel_ok [OF wf3] by blast
    have "RemovePacketsForSsrc ssrc q = Some q'"
      using Some q3(1) q'(1) by (simp add: RemovePacketsForSsrc_def DequeueAll_def)
    moreover have "last_update_time q3 = last_update_time q" "time_to_live_per_prio q3 = time_to_live_per_prio q"
      using q3(3) by (simp_all add: same_frame_def)
    ultimately show ?thesis using q'(2,3) by (auto simp: purged_state_def sp3)
  qed
qed

section \<open>Properties\<close>

datatype queue_op =
  OpPush int rtp_packet_to_send | OpPop | OpPause bool int | OpUpdate int | OpRemove u32

fun queue_step :: "queue_op \<Rightarrow> packet_queue \<Rightarrow> packet_queue option" where
  "queue_step (OpPush t packet) q = Push t packet q"
| "queue_step OpPop q = map_option snd (Pop q)"
| "queue_step (OpPause b t) q = Some (SetPauseState b t q)"
| "queue_step (OpUpdate t) q = Some (UpdateAverageQueueTime t q)"
| "queue_step (OpRemove ssrc) q = RemovePacketsForSsrc ssrc q"

fun queue_run :: "queue_op list \<Rightarrow> packet_queue \<Rightarrow> packet_queue option" where
  "queue_run [] q = Some q"
| "queue_run (op # ops) q = do { q' \<leftarrow> queue_step op q; queue_run ops q' }"

lemma queue_inv_init: "queue_inv (packet_queue_init t prioritize ttl)"
  by (simp add: queue_inv_def well_formed_def levels_ok_def streams_ok_def books_def contents_def
      top_ok_def packet_queue_init_def stream_packets_def)

lemma queue_inv_update: "queue_inv q \<Longrightarrow> queue_inv (UpdateAverageQueueTime t q)"
  using UpdateAverageQueueTime_ok [of "{#}" q t]
  by (simp add: queue_inv_def top_ok_def UpdateAverageQueueTime_def Let_def)

lemma top_ok_cong:
  "streams_by_prio q' = streams_by_prio q \<Longrightarrow> top_active_prio_level q' = top_active_prio_level q \<Longrightarrow>
     top_ok q' = top_ok q"
  unfolding top_ok_def by presburger

lemma queue_inv_paused: "queue_inv (q\<lparr>paused := b\<rparr>) = queue_inv q"
proof -
  have sp: "stream_packets (q\<lparr>paused := b\<rparr>) = stream_packets q" by (simp add: fun_eq_iff stream_packets_def)
  then have "contents (q\<lparr>paused := b\<rparr>) = contents q" by (intro contents_cong) simp_all
  moreover have "levels_ok (q\<lparr>paused := b\<rparr>) = levels_ok q" by (simp add: levels_ok_def sp)
  moreover have "books M {#} (q\<lparr>paused := b\<rparr>) = books M {#} q" for M by (simp add: books_def)
  moreover have "streams_ok (q\<lparr>paused := b\<rparr>) = streams_ok q" by (simp add: streams_ok_def)
  moreover have "top_ok (q\<lparr>paused := b\<rparr>) = top_ok q" by (rule top_ok_cong) simp_all
  ultimately show ?thesis by (simp add: queue_inv_def well_formed_def)
qed

lemma queue_inv_step: "queue_inv q \<Longrightarrow> \<exists>q'. queue_step op q = Some q' \<and> queue_inv q'"
proof (cases op)
  case (OpPush t packet)
  then show "queue_inv q \<Longrightarrow> ?thesis" using Push_ok [of q t packet] by auto
next
  case OpPop
  then show "queue_inv q \<Longrightarrow> ?thesis"
    using Pop_nonempty [of q] by (cases "size_packets q = 0") (auto simp: Pop_def)
next
  case (OpRemove ssrc)
  then show "queue_inv q \<Longrightarrow> ?thesis" using RemovePacketsForSsrc_ok [of q ssrc] by auto
qed (auto simp: SetPauseState_def queue_inv_paused queue_inv_update)

lemma queue_inv_run: "queue_inv q \<Longrightarrow> \<exists>q'. queue_run ops q = Some q' \<and> queue_inv q'"
proof (induction ops arbitrary: q)
  case (Cons op ops)
  obtain q1 where "queue_step op q = Some q1" "queue_inv q1" using queue_inv_step [OF Cons.prems] by blast
  then show ?case using Cons.IH [of q1] by simp
qed simp


text \<open>
  C2: \<open>Pop\<close> on a non-empty queue (in any reachable state) returns the oldest packet of the stream
  whose turn it is at the first non-empty level, stamped with its time in the queue outside pauses;
  the rest of that stream's level keeps its order, the stream moves to the end of the round robin
  (or leaves it when it has no more packets), and everything else is unchanged as long as the level
  still has packets; when it has none, expired packets of other levels may be purged, from the front
  of their queues only.
\<close>

theorem packet_queue_pop:
  assumes "queue_run ops (packet_queue_init t prioritize ttl) = Some q" and "\<not> PQ_Empty q"
  shows "\<exists>p s ss x xs q'. p < kNumPriorityLevels \<and> (\<forall>p' < p. streams_by_prio q p' = []) \<and>
    streams_by_prio q p = s # ss \<and> stream_packets q p s = x # xs \<and>
    Pop q = Some (Some ((qp_packet x)\<lparr>pk_time_in_send_queue :=
       Some (last_update_time q - qp_enqueue_time x - pause_time_sum q)\<rparr>), q') \<and>
    (if xs \<noteq> [] \<or> ss \<noteq> [] then
       (\<forall>p' s'. stream_packets q' p' s' = (if p' = p \<and> s' = s then xs else stream_packets q p' s')) \<and>
       streams_by_prio q' = (streams_by_prio q)(p := ss @ (if xs = [] then [] else [s]))
     else \<forall>p' s'. let rest = (if p' = p \<and> s' = s then xs else stream_packets q p' s') in
       stream_packets q' p' s' = rest \<or>
       stream_packets q' p' s' = purged (last_update_time q) (time_to_live_per_prio q p') rest)"
proof -
  have "queue_inv q" using queue_inv_run [OF queue_inv_init] assms(1) by (metis option.inject)
  then show ?thesis using Pop_nonempty [of q] assms(2) unfolding PQ_Empty_def by blast
qed

definition demo_packet :: "u32 \<Rightarrow> media_type \<Rightarrow> rtp_packet_to_send" where
  "demo_packet ssrc type = \<lparr>pk_ssrc = ssrc, pk_seq = 0, pk_type = type, pk_original = None,
     pk_key_frame = False, pk_payload_size = 100, pk_padding_size = 0, pk_time_in_send_queue = None\<rparr>"

definition no_ttl :: packet_queue_ttl where
  "no_ttl = \<lparr>ttl_audio_retransmission = None, ttl_video_retransmission = None, ttl_video = None\<rparr>"

lemma demo_run:
  "\<exists>q. queue_run [OpPush 5 (demo_packet 1 kVideo), OpPush 6 (demo_packet 2 kAudio)]
     (packet_queue_init 0 False no_ttl) = Some q \<and> size_packets q = 2"
  by (simp add: Push_def Let_def packet_queue_init_def no_ttl_def demo_packet_def GetPriorityForType_def
      PurgeOldPacketsAtPriorityLevel_def ToTtlPerPrio_def UpdateAverageQueueTime_def EnqueuePacket_def
      StreamQueue_init_def cull_streams_def kTimeout_def)

theorem packet_queue_pop_witness:
  "\<exists>q p x q'. queue_run [OpPush 5 (demo_packet 1 kVideo), OpPush 6 (demo_packet 2 kAudio)]
     (packet_queue_init 0 False no_ttl) = Some q \<and> p < kNumPriorityLevels \<and> Pop q = Some (Some x, q')"
proof -
  obtain q where q: "queue_run [OpPush 5 (demo_packet 1 kVideo), OpPush 6 (demo_packet 2 kAudio)]
     (packet_queue_init 0 False no_ttl) = Some q" "size_packets q = 2" using demo_run by blast
  with packet_queue_pop [OF q(1)] show ?thesis by (auto simp: PQ_Empty_def)
qed

text \<open>
  C3: \<open>Push\<close> in any reachable state appends the packet to its stream's queue at the level of its
  type, after dropping from the front of the queues of that level the packets older than the level's
  time to live; no other level changes.
\<close>

theorem packet_queue_push:
  assumes "queue_run ops (packet_queue_init t prioritize ttl) = Some q"
  shows "\<exists>q' x. Push now packet q = Some q' \<and> qp_packet x = packet \<and>
    (\<forall>p s. stream_packets q' p s =
       (if p = GetPriorityForType (pk_type packet)
              (if prioritize_audio_retransmission q then pk_original packet else None)
        then purged now (time_to_live_per_prio q p) (stream_packets q p s) @
          (if s = pk_ssrc packet then [x] else [])
        else stream_packets q p s))"
proof -
  have "queue_inv q" using queue_inv_run [OF queue_inv_init] assms by (metis option.inject)
  then show ?thesis using Push_ok [of q now packet] unfolding push_prio_def by blast
qed

theorem packet_queue_push_witness:
  "\<exists>q q' x. queue_run [OpPush 5 (demo_packet 1 kVideo), OpPush 6 (demo_packet 2 kAudio)]
     (packet_queue_init 0 False no_ttl) = Some q \<and>
     Push 7 (demo_packet 1 kVideo) q = Some q' \<and>
     stream_packets q' 3 1 = purged 7 (time_to_live_per_prio q 3) (stream_packets q 3 1) @ [x]"
proof -
  obtain q where q: "queue_run [OpPush 5 (demo_packet 1 kVideo), OpPush 6 (demo_packet 2 kAudio)]
     (packet_queue_init 0 False no_ttl) = Some q" using demo_run by blast
  obtain q' x where "Push 7 (demo_packet 1 kVideo) q = Some q'"
    "\<forall>p s. stream_packets q' p s = (if p = 3 then purged 7 (time_to_live_per_prio q p) (stream_packets q p s) @
       (if s = 1 then [x] else []) else stream_packets q p s)"
    using packet_queue_push [OF q, of 7 "demo_packet 1 kVideo"]
    by (auto simp: demo_packet_def GetPriorityForType_def)
  with q show ?thesis by auto
qed

text \<open>
  \<open>RemovePacketsForSsrc\<close> in any reachable state leaves no packet of the stream in the queue, and
  of the other streams' queues removes at most expired packets at the front.
\<close>

theorem packet_queue_remove:
  assumes "queue_run ops (packet_queue_init t prioritize ttl) = Some q"
  shows "\<exists>q'. RemovePacketsForSsrc ssrc q = Some q' \<and> (\<forall>p. stream_packets q' p ssrc = []) \<and>
    (\<forall>p s. s \<noteq> ssrc \<longrightarrow> stream_packets q' p s = stream_packets q p s \<or>
       stream_packets q' p s = purged (last_update_time q) (time_to_live_per_prio q p) (stream_packets q p s))"
proof -
  have "queue_inv q" using queue_inv_run [OF queue_inv_init] assms by (metis option.inject)
  then obtain q' where q': "RemovePacketsForSsrc ssrc q = Some q'"
    "\<forall>p s. let rest = (if s = ssrc then [] else stream_packets q p s) in
       stream_packets q' p s = rest \<or>
       stream_packets q' p s = purged (last_update_time q) (time_to_live_per_prio q p) rest"
    using RemovePacketsForSsrc_ok by blast
  have "stream_packets q' p ssrc = []" for p
    using spec [OF spec [OF q'(2), of p], of ssrc] by (auto simp: Let_def)
  moreover have "s \<noteq> ssrc \<longrightarrow> stream_packets q' p s = stream_packets q p s \<or>
      stream_packets q' p s = purged (last_update_time q) (time_to_live_per_prio q p) (stream_packets q p s)" for p s
    using spec [OF spec [OF q'(2), of p], of s] by (auto simp: Let_def)
  ultimately show ?thesis using q'(1) by blast
qed

theorem packet_queue_remove_witness:
  "\<exists>q q'. queue_run [OpPush 5 (demo_packet 1 kVideo), OpPush 6 (demo_packet 2 kAudio)]
     (packet_queue_init 0 False no_ttl) = Some q \<and>
     RemovePacketsForSsrc 1 q = Some q' \<and> stream_packets q' 3 1 = []"
proof -
  obtain q where q: "queue_run [OpPush 5 (demo_packet 1 kVideo), OpPush 6 (demo_packet 2 kAudio)]
     (packet_queue_init 0 False no_ttl) = Some q" using demo_run by blast
  then show ?thesis using packet_queue_remove [OF q, of 1] by blast
qed

end
