(* ===== verification/Punch_Protocol.thy ===== *)
theory Punch_Protocol
  imports Prelude
begin

text \<open>
  The wire protocol of UDP hole punching (\<^verbatim>\<open>src/ice/punch_protocol.cpp\<close>): authenticated packets,
  the schema of the JSON control messages, probe payloads, the generation id, IPv4 syntax and the
  replay window.

  OpenSSL's SHA-256 and HMAC-SHA-256 are the parameters \<open>sha\<close> and \<open>hmac\<close> (key, data). The JSON
  library is used through its parser, the parameter \<open>json_parse\<close> (the parse events and the value,
  or \<^const>\<open>None\<close> where it throws), and its printer \<open>json_dump\<close>; a JSON value is the
  tree that the accessors of the library read, with integers, and objects that map keys to values.
\<close>

section \<open>Constants and data\<close>

definition kHeaderSize :: nat where "kHeaderSize = 44"
definition kTagSize :: nat where "kTagSize = 16"
definition kControlMax :: nat where "kControlMax = 1200"
definition kProbeSize :: nat where "kProbeSize = 80"

datatype kind = Hello | Prepare | Ready | Start | Started | Cancel | Probe | Ack

datatype domain = ControlDomain | ProbeDomain

fun kind_byte :: "kind \<Rightarrow> u8" where
  "kind_byte Hello = 1" | "kind_byte Prepare = 2" | "kind_byte Ready = 3" | "kind_byte Start = 4"
| "kind_byte Started = 5" | "kind_byte Cancel = 7" | "kind_byte Probe = 0x20" | "kind_byte Ack = 0x21"

text \<open>A byte cast to \<open>Kind\<close>; the values outside the enumeration are \<^const>\<open>None\<close>.\<close>

definition kind_of_byte :: "u8 \<Rightarrow> kind option" where
  "kind_of_byte b =
     (if b = 1 then Some Hello else if b = 2 then Some Prepare else if b = 3 then Some Ready
      else if b = 4 then Some Start else if b = 5 then Some Started else if b = 7 then Some Cancel
      else if b = 0x20 then Some Probe else if b = 0x21 then Some Ack else None)"

record punch_packet =
  pp_kind :: kind
  pp_generation :: bytes
  pp_round :: bytes
  pp_sequence :: u32
  pp_payload :: bytes

record probe =
  pr_socket :: u64
  pr_nonce :: bytes

datatype json =
    JNull | JBool bool | JInt int | JFloat | JString string | JArray "json list"
  | JObject "(string \<times> json) list"

datatype json_event = ObjectStart | ObjectEnd | Key string | OtherEvent

section \<open>Helpers of the codec\<close>

definition punch_magic :: bytes where "punch_magic = [0xf3, 0x4d, 0x50, 0x31]"

text \<open>\<open>Put\<close>: the low \<open>count\<close> bytes of a number, most significant first; \<open>Get\<close> reads them.\<close>

fun Put :: "u64 \<Rightarrow> nat \<Rightarrow> bytes" where
  "Put n 0 = []"
| "Put n (Suc k) = ucast (drop_bit (k * 8) n) # Put n k"

fun Get_loop :: "u64 \<Rightarrow> bytes \<Rightarrow> u64" where
  "Get_loop n [] = n"
| "Get_loop n (b # bs) = Get_loop (push_bit 8 n OR ucast b) bs"

definition byte_slice :: "bytes \<Rightarrow> nat \<Rightarrow> nat \<Rightarrow> bytes option" where
  "byte_slice data off n = (if off + n \<le> length data then Some (take n (drop off data)) else None)"

definition Get :: "bytes \<Rightarrow> nat \<Rightarrow> nat \<Rightarrow> u64 option" where
  "Get data off count = map_option (Get_loop 0) (byte_slice data off count)"

definition IsZero :: "bytes \<Rightarrow> bool" where
  "IsZero ident = list_all (\<lambda>n. n = 0) ident"

definition IsMagic :: "bytes \<Rightarrow> nat \<Rightarrow> bool option" where
  "IsMagic data sz =
     (if sz < length punch_magic then Some False
      else map_option (\<lambda>b. b = punch_magic) (byte_slice data 0 (length punch_magic)))"

definition Known :: "kind option \<Rightarrow> domain \<Rightarrow> bool" where
  "Known k d =
     (case k of
        None \<Rightarrow> False
      | Some kind \<Rightarrow>
          (if d = ProbeDomain then kind = Probe \<or> kind = Ack
           else (1 \<le> kind_byte kind \<and> kind_byte kind \<le> 5) \<or> kind = Cancel))"

section \<open>IPv4 syntax\<close>

definition is_digit :: "char \<Rightarrow> bool" where
  "is_digit c = (48 \<le> (of_char c :: nat) \<and> (of_char c :: nat) \<le> 57)"

definition digit_value :: "char \<Rightarrow> nat" where
  "digit_value c = of_char c - 48"

text \<open>
  The digit loop of one component: the number so far and the digits consumed; \<^const>\<open>None\<close> where
  the function returns false.
\<close>

fun ipv4_digits :: "nat \<Rightarrow> nat \<Rightarrow> string \<Rightarrow> (nat \<times> string) option" where
  "ipv4_digits n count [] = Some (count, [])"
| "ipv4_digits n count (c # cs) =
     (if is_digit c then
        (let n' = n * 10 + digit_value c; count' = Suc count in
         if n' > 255 \<or> count' > 3 then None else ipv4_digits n' count' cs)
      else Some (count, c # cs))"

definition ipv4_component :: "string \<Rightarrow> string option" where
  "ipv4_component s =
     do { (count, rest) \<leftarrow> ipv4_digits 0 0 s;
          if count = 0 \<or> (count > 1 \<and> hd s = CHR ''0'') then None else Some rest }"

definition ipv4_dot :: "string \<Rightarrow> string option" where
  "ipv4_dot s = (case s of [] \<Rightarrow> None | c # cs \<Rightarrow> if c = CHR ''.'' then Some cs else None)"

definition ValidIpv4 :: "string \<Rightarrow> bool" where
  "ValidIpv4 ip =
     (case do { r1 \<leftarrow> ipv4_component ip; r1 \<leftarrow> ipv4_dot r1;
                r2 \<leftarrow> ipv4_component r1; r2 \<leftarrow> ipv4_dot r2;
                r3 \<leftarrow> ipv4_component r2; r3 \<leftarrow> ipv4_dot r3;
                ipv4_component r3 } of
        None \<Rightarrow> False | Some rest \<Rightarrow> rest = [])"

section \<open>Schema of the control messages\<close>

definition jfield :: "json \<Rightarrow> string \<Rightarrow> json" where
  "jfield j f = (case j of JObject fs \<Rightarrow> (case map_of fs f of Some v \<Rightarrow> v | None \<Rightarrow> JNull) | _ \<Rightarrow> JNull)"

definition Fields :: "json \<Rightarrow> string list \<Rightarrow> bool" where
  "Fields j names =
     (case j of
        JObject fs \<Rightarrow> length fs = length names \<and> list_all (\<lambda>f. f \<in> fst ` set fs) names
      | _ \<Rightarrow> False)"

definition Number :: "json \<Rightarrow> int \<Rightarrow> int \<Rightarrow> bool" where
  "Number j low high = (case j of JInt n \<Rightarrow> 0 \<le> n \<and> low \<le> n \<and> n \<le> high | _ \<Rightarrow> False)"

definition String :: "json \<Rightarrow> nat \<Rightarrow> nat \<Rightarrow> bool" where
  "String j low high =
     (case j of JString s \<Rightarrow> low \<le> length s \<and> length s \<le> high \<and> CHR 0x00 \<notin> set s | _ \<Rightarrow> False)"

definition is_hex :: "char \<Rightarrow> bool" where
  "is_hex c = (is_digit c \<or> (97 \<le> (of_char c :: nat) \<and> (of_char c :: nat) \<le> 102))"

definition jstring :: "json \<Rightarrow> string" where
  "jstring j = (case j of JString s \<Rightarrow> s | _ \<Rightarrow> [])"

definition HexDigest :: "json \<Rightarrow> bool" where
  "HexDigest j = (String j 64 64 \<and> list_all is_hex (jstring j))"

definition Ip :: "json \<Rightarrow> bool" where
  "Ip j = (String j 7 15 \<and> ValidIpv4 (jstring j))"

definition Endpoint :: "json \<Rightarrow> bool" where
  "Endpoint j = (Fields j [''ip'', ''port''] \<and> Ip (jfield j ''ip'') \<and> Number (jfield j ''port'') 1 65535)"

definition Budget :: "json \<Rightarrow> bool" where
  "Budget j =
     (Fields j [''pool_size'', ''target_port_count'', ''probe_pps'', ''burst_packets'',
                ''pool_probe_rounds'', ''round_duration_ms'', ''ice_finish_reserve_ms'',
                ''probe_packet_budget'', ''control_packet_budget'', ''promoted_endpoint_limit''] \<and>
      Number (jfield j ''pool_size'') 1 128 \<and> Number (jfield j ''target_port_count'') 1 1024 \<and>
      Number (jfield j ''probe_pps'') 1 200 \<and> Number (jfield j ''burst_packets'') 1 8 \<and>
      Number (jfield j ''pool_probe_rounds'') 1 3 \<and> Number (jfield j ''round_duration_ms'') 1 15000 \<and>
      Number (jfield j ''ice_finish_reserve_ms'') 3000 15000 \<and>
      Number (jfield j ''probe_packet_budget'') 1 1024 \<and>
      Number (jfield j ''control_packet_budget'') 1 48 \<and>
      Number (jfield j ''promoted_endpoint_limit'') 1 8)"

definition hello_sample_ok :: "json \<Rightarrow> bool" where
  "hello_sample_ok s =
     (Fields s [''server'', ''server_port'', ''ip'', ''port'', ''age_ms'', ''sequence''] \<and>
      Ip (jfield s ''server'') \<and> Number (jfield s ''server_port'') 1 65535 \<and>
      Ip (jfield s ''ip'') \<and> Number (jfield s ''port'') 1 65535 \<and>
      Number (jfield s ''age_ms'') 0 15000 \<and> Number (jfield s ''sequence'') 0 4294967295)"

definition cancel_reasons :: "string list" where
  "cancel_reasons = [''timeout'', ''state-change'', ''ineligible'', ''resources'', ''conflict'',
     ''disconnect'', ''interface-change'', ''generation-change'', ''budget'']"

fun Schema :: "kind \<Rightarrow> json \<Rightarrow> bool" where
  "Schema Hello j =
     (Fields j [''base'', ''samples'', ''budget'', ''remaining_ms'', ''mode''] \<and>
      Budget (jfield j ''budget'') \<and> Number (jfield j ''remaining_ms'') 1 30000 \<and>
      (jfield j ''mode'' = JString ''pool-wide'' \<or> jfield j ''mode'' = JString ''pool-wide-retry'') \<and>
      (let base = jfield j ''base'' in
         Fields base [''ip'', ''port'', ''socket'', ''foundation'', ''component''] \<and>
         Ip (jfield base ''ip'') \<and> Number (jfield base ''port'') 1 65535 \<and>
         Number (jfield base ''socket'') 1 18446744073709551615 \<and>
         String (jfield base ''foundation'') 1 32 \<and> Number (jfield base ''component'') 1 1) \<and>
      (case jfield j ''samples'' of
         JArray ss \<Rightarrow> length ss \<le> 3 \<and> list_all hello_sample_ok ss | _ \<Rightarrow> False))"
| "Schema Prepare j =
     (Fields j [''anchor'', ''anchor_endpoint'', ''peer_ip'', ''budget'', ''duration_ms'',
                ''offer_hello'', ''answer_hello''] \<and>
      (jfield j ''anchor'' = JString ''offer'' \<or> jfield j ''anchor'' = JString ''answer'') \<and>
      Endpoint (jfield j ''anchor_endpoint'') \<and> Ip (jfield j ''peer_ip'') \<and>
      Budget (jfield j ''budget'') \<and> Number (jfield j ''duration_ms'') 1 15000 \<and>
      HexDigest (jfield j ''offer_hello'') \<and> HexDigest (jfield j ''answer_hello''))"
| "Schema Ready j =
     (Fields j [''digest'', ''budget''] \<and> HexDigest (jfield j ''digest'') \<and> Budget (jfield j ''budget''))"
| "Schema Start j = (Fields j [''digest''] \<and> HexDigest (jfield j ''digest''))"
| "Schema Started j = (Fields j [''digest''] \<and> HexDigest (jfield j ''digest''))"
| "Schema Cancel j =
     (Fields j [''reason''] \<and> String (jfield j ''reason'') 1 32 \<and>
      jstring (jfield j ''reason'') \<in> set cancel_reasons)"
| "Schema Probe j = False"
| "Schema Ack j = False"

text \<open>
  The parser callback of \<open>ParseControl\<close>: nesting of at most 8 levels, no key twice in one object.
  Events carry their depth; the state is the stack of the key sets of the open objects.
\<close>

fun callback_ok :: "string list list \<Rightarrow> (nat \<times> json_event) list \<Rightarrow> bool" where
  "callback_ok keys [] = True"
| "callback_ok keys ((depth, event) # es) =
     (depth \<le> 8 \<and>
      (case event of
         ObjectStart \<Rightarrow> callback_ok ([] # keys) es
       | Key k \<Rightarrow> (case keys of [] \<Rightarrow> False
                   | ks # rest \<Rightarrow> k \<notin> set ks \<and> callback_ok ((k # ks) # rest) es)
       | ObjectEnd \<Rightarrow> callback_ok (tl keys) es
       | OtherEvent \<Rightarrow> callback_ok keys es))"

type_synonym json_parser = "bytes \<Rightarrow> ((nat \<times> json_event) list \<times> json) option"

definition ParseControl :: "json_parser \<Rightarrow> kind \<Rightarrow> bytes \<Rightarrow> json option" where
  "ParseControl json_parse kind payload =
     (if \<not> Known (Some kind) ControlDomain \<or> length payload > kControlMax - kHeaderSize - kTagSize then None
      else case json_parse payload of
        None \<Rightarrow> None
      | Some (events, j) \<Rightarrow> if callback_ok [] events \<and> Schema kind j then Some j else None)"

definition ControlPayload :: "(json \<Rightarrow> bytes option) \<Rightarrow> kind \<Rightarrow> json \<Rightarrow> bytes" where
  "ControlPayload json_dump kind j =
     (if \<not> Schema kind j then []
      else case json_dump j of
        None \<Rightarrow> []
      | Some s \<Rightarrow> if length s \<le> kControlMax - kHeaderSize - kTagSize then s else [])"

section \<open>Payloads and packets\<close>

definition ProbePayload :: "probe \<Rightarrow> bytes" where
  "ProbePayload p = (if pr_socket p = 0 then [] else Put (pr_socket p) 8 @ pr_nonce p)"

definition ParseProbe :: "bytes \<Rightarrow> probe option" where
  "ParseProbe p =
     (if length p \<noteq> 20 then None
      else let socket = Get_loop 0 (take 8 p) in
        if socket \<noteq> 0 then Some \<lparr>pr_socket = socket, pr_nonce = take 12 (drop 8 p)\<rparr> else None)"

definition kind_domain :: "kind \<Rightarrow> domain" where
  "kind_domain k = (if k = Probe \<or> k = Ack then ProbeDomain else ControlDomain)"

definition payload_ok :: "json_parser \<Rightarrow> domain \<Rightarrow> kind \<Rightarrow> bytes \<Rightarrow> bool" where
  "payload_ok json_parse d k payload =
     (if d = ControlDomain then ParseControl json_parse k payload \<noteq> None else ParseProbe payload \<noteq> None)"

definition round_ok :: "kind \<Rightarrow> bytes \<Rightarrow> bool" where
  "round_ok k round = (if k = Hello then IsZero round else \<not> IsZero round)"

text \<open>The empty vector is the result for a packet that may not be sent.\<close>

definition Encode :: "(bytes \<Rightarrow> bytes \<Rightarrow> bytes) \<Rightarrow> json_parser \<Rightarrow> punch_packet \<Rightarrow> bytes \<Rightarrow> bytes" where
  "Encode hmac json_parse p key =
     (if pp_sequence p = 0 \<or> IsZero (pp_generation p) \<or> \<not> round_ok (pp_kind p) (pp_round p) \<or>
         \<not> payload_ok json_parse (kind_domain (pp_kind p)) (pp_kind p) (pp_payload p)
      then []
      else let out = punch_magic @ [1, kind_byte (pp_kind p)] @
                     Put (of_nat (length (pp_payload p))) 2 @ pp_generation p @ pp_round p @
                     Put (ucast (pp_sequence p)) 4 @ pp_payload p
           in out @ take kTagSize (hmac key out))"

text \<open>
  \<open>Some None\<close> is the code's rejection, \<^const>\<open>None\<close> a read outside the datagram. The guards are
  evaluated from left to right, as \<open>||\<close> does.
\<close>

definition Decode ::
  "(bytes \<Rightarrow> bytes \<Rightarrow> bytes) \<Rightarrow> json_parser \<Rightarrow> bytes \<Rightarrow> nat \<Rightarrow> bytes \<Rightarrow> domain \<Rightarrow> bytes \<Rightarrow>
     punch_packet option option" where
  "Decode hmac json_parse data sz key d generation =
     do {
       ok \<leftarrow> IsMagic data sz;
       if \<not> ok \<or> sz < kHeaderSize + kTagSize \<or> sz > kControlMax then Some None
       else do {
         version \<leftarrow> rd8 data 4; kind_b \<leftarrow> rd8 data 5;
         if version \<noteq> 1 \<or> \<not> Known (kind_of_byte kind_b) d then Some None
         else do {
           len \<leftarrow> Get data 6 2; gen \<leftarrow> byte_slice data 8 (length generation);
           if sz \<noteq> kHeaderSize + unat len + kTagSize \<or> (d = ProbeDomain \<and> sz \<noteq> kProbeSize) \<or>
              IsZero generation \<or> gen \<noteq> generation then Some None
           else do {
             signed \<leftarrow> byte_slice data 0 (sz - kTagSize);
             tag \<leftarrow> byte_slice data (sz - kTagSize) kTagSize;
             if take kTagSize (hmac key signed) \<noteq> tag then Some None
             else do {
               round \<leftarrow> byte_slice data 24 16;
               seq \<leftarrow> Get data 40 4;
               let k = the (kind_of_byte kind_b);
               if ucast seq = (0 :: u32) \<or> \<not> round_ok k round then Some None
               else do {
                 payload \<leftarrow> byte_slice data kHeaderSize (sz - kTagSize - kHeaderSize);
                 if \<not> payload_ok json_parse d k payload then Some None
                 else Some (Some \<lparr>pp_kind = k, pp_generation = generation, pp_round = round,
                                  pp_sequence = ucast seq, pp_payload = payload\<rparr>) } } } } } }"

section \<open>Generation ids\<close>

definition ufrag_ok :: "string \<Rightarrow> bool" where
  "ufrag_ok u = (u \<noteq> [] \<and> length u \<le> 256 \<and> list_all (\<lambda>c. c \<notin> {CHR '' '', CHR 0x09, CHR 0x0D, CHR 0x0A}) u \<and>
     CHR 0x00 \<notin> set u)"

definition ufrag_bytes :: "string \<Rightarrow> bytes" where
  "ufrag_bytes u = Put (of_nat (length u)) 2 @ map of_char u"

definition GenerationContext :: "string \<Rightarrow> string \<Rightarrow> bytes" where
  "GenerationContext offer answer =
     (if \<not> ufrag_ok offer then [] else if \<not> ufrag_ok answer then []
      else ufrag_bytes offer @ ufrag_bytes answer)"

definition GenerationId :: "(bytes \<Rightarrow> bytes) \<Rightarrow> bytes \<Rightarrow> bytes" where
  "GenerationId sha context = (if context \<noteq> [] then take 16 (sha context) else replicate 16 0)"

definition hex_digit :: "u8 \<Rightarrow> char" where
  "hex_digit n = ''0123456789abcdef'' ! unat n"

definition Digest :: "(bytes \<Rightarrow> bytes) \<Rightarrow> bytes \<Rightarrow> string" where
  "Digest sha bs = concat (map (\<lambda>c. [hex_digit (drop_bit 4 c), hex_digit (c AND 15)]) (sha bs))"

section \<open>Replay window\<close>

datatype replay_result = Fresh | Duplicate | TooOld | Conflict

text \<open>\<open>seen_\<close> is a bit set of 256 bits, \<open>digests_\<close> an array of 256 digests.\<close>

record replay_window =
  rw_high :: u32
  rw_seen :: "nat \<Rightarrow> bool"
  rw_digests :: "nat \<Rightarrow> bytes"

definition replay_init :: replay_window where
  "replay_init = \<lparr>rw_high = 0, rw_seen = (\<lambda>_. False), rw_digests = (\<lambda>_. replicate 32 0)\<rparr>"

definition Accept :: "(bytes \<Rightarrow> bytes) \<Rightarrow> replay_window \<Rightarrow> u32 \<Rightarrow> bytes \<Rightarrow> replay_result \<times> replay_window" where
  "Accept sha rw seq bs =
     (if seq = 0 \<or> (seq \<le> rw_high rw \<and> rw_high rw - seq \<ge> 256) then (TooOld, rw)
      else
        let rw1 = (if seq > rw_high rw then
                     let shift = seq - rw_high rw in
                     rw\<lparr>rw_seen := (if shift \<ge> 256 then (\<lambda>_. False)
                                    else (\<lambda>i. i < 256 \<and> unat shift \<le> i \<and> rw_seen rw (i - unat shift))),
                        rw_high := seq\<rparr>
                   else rw);
            offset = unat (rw_high rw1 - seq);
            hash = sha bs
        in if rw_seen rw1 offset
           then (if hash = rw_digests rw1 (unat seq mod 256) then Duplicate else Conflict, rw1)
           else (Fresh, rw1\<lparr>rw_seen := (rw_seen rw1)(offset := True),
                            rw_digests := (rw_digests rw1)(unat seq mod 256 := hash)\<rparr>))"

lemmas punch_consts [simp] = kHeaderSize_def kTagSize_def kControlMax_def kProbeSize_def

section \<open>Numbers on the wire\<close>

lemma length_Put [simp]: "length (Put n k) = k"
  by (induction k) auto

lemma Put_snoc: "Put n (Suc k) = Put (drop_bit 8 n) k @ [ucast n]"
  by (induction k) (auto simp: add.commute)

lemma Get_loop_snoc: "Get_loop n (bs @ [b]) = push_bit 8 (Get_loop n bs) OR ucast b"
  by (induction n bs rule: Get_loop.induct) auto

lemma Get_loop_Put: "Get_loop 0 (Put n k) = take_bit (8 * k) n"
proof (induction k arbitrary: n)
  case (Suc k)
  show ?case
    unfolding Put_snoc Get_loop_snoc Suc.IH
    by (rule bit_word_eqI) (auto simp: bit_simps not_le)
qed simp

lemma Get_loop_bound: "bit (Get_loop 0 bs) i \<Longrightarrow> i < 8 * length bs"
proof (induction bs arbitrary: i rule: rev_induct)
  case (snoc b bs)
  then have "8 \<le> i \<and> bit (Get_loop 0 bs) (i - 8) \<or> bit b i" by (auto simp: Get_loop_snoc bit_simps)
  then show ?case using snoc.IH [of "i - 8"] bit_imp_le_length [of b i] by auto
qed simp

lemma Put_Get_loop: "length bs \<le> 8 \<Longrightarrow> Put (Get_loop 0 bs) (length bs) = bs"
proof (induction bs rule: rev_induct)
  case (snoc b bs)
  let ?G = "Get_loop 0 bs"
  have "drop_bit 8 (push_bit 8 ?G OR ucast b) = ?G"
    using snoc.prems Get_loop_bound [of bs]
    by (intro bit_word_eqI) (fastforce simp: bit_simps)
  moreover have "ucast (push_bit 8 ?G OR ucast b) = b"
    by (rule bit_word_eqI) (auto simp: bit_simps)
  ultimately show ?case
    using snoc by (simp add: Put_snoc Get_loop_snoc del: Put.simps)
qed simp

lemma slice_Some: "off + n \<le> length data \<Longrightarrow> byte_slice data off n = Some (take n (drop off data))"
  by (simp add: byte_slice_def)

lemma slice_at: "data = a @ b @ c \<Longrightarrow> off = length a \<Longrightarrow> n = length b \<Longrightarrow> byte_slice data off n = Some b"
  by (simp add: byte_slice_def)

lemma kind_roundtrip [simp]: "kind_of_byte (kind_byte k) = Some k"
  by (cases k) (simp_all add: kind_of_byte_def)

lemma kind_of_byte_Some: "kind_of_byte b = Some k \<Longrightarrow> kind_byte k = b"
  by (auto simp: kind_of_byte_def split: if_splits)

lemma Known_domain: "Known (Some k) d \<longleftrightarrow> d = kind_domain k"
  by (cases k; cases d) (simp_all add: Known_def kind_domain_def)

section \<open>Packets\<close>

lemma payload_ok_length:
  "payload_ok json_parse (kind_domain k) k payload \<Longrightarrow>
     length payload \<le> 1140 \<and> (kind_domain k = ProbeDomain \<longrightarrow> length payload = 20)"
  by (auto simp: payload_ok_def ParseControl_def ParseProbe_def kind_domain_def split: if_splits)

lemma length_magic [simp]: "length punch_magic = 4"
  by (simp add: punch_magic_def)

lemma IsMagic_Some: "IsMagic (punch_magic @ rest) (length (punch_magic @ rest)) = Some True"
  by (simp add: IsMagic_def byte_slice_def)

lemma decode_encode:
  assumes hm: "\<And>d. 16 \<le> length (hmac key d)"
    and p: "length (pp_generation p) = 16" "length (pp_round p) = 16"
    and ok: "Encode hmac json_parse p key \<noteq> []"
  shows "Decode hmac json_parse (Encode hmac json_parse p key) (length (Encode hmac json_parse p key)) key
    (kind_domain (pp_kind p)) (pp_generation p) = Some (Some p)"
proof -
  let ?k = "pp_kind p" and ?g = "pp_generation p" and ?r = "pp_round p" and ?pl = "pp_payload p"
  let ?lb = "Put (of_nat (length ?pl)) 2" and ?sb = "Put (ucast (pp_sequence p)) 4"
  define out where "out = punch_magic @ [1, kind_byte ?k] @ ?lb @ ?g @ ?r @ ?sb @ ?pl"
  define tag where "tag = take 16 (hmac key out)"
  define data where "data = out @ tag"
  have c: "pp_sequence p \<noteq> 0" "\<not> IsZero ?g" "round_ok ?k ?r" "payload_ok json_parse (kind_domain ?k) ?k ?pl"
    using ok by (auto simp: Encode_def split: if_splits)
  have enc: "Encode hmac json_parse p key = data"
    using c by (simp add: Encode_def Let_def data_def tag_def out_def)
  have m: "length punch_magic = 4" by (simp add: punch_magic_def)
  have tl: "length tag = 16" using hm [of out] by (simp add: tag_def)
  have ol: "length out = 44 + length ?pl" using p m by (simp add: out_def)
  have pl: "length ?pl \<le> 1140" "kind_domain ?k = ProbeDomain \<Longrightarrow> length ?pl = 20"
    using payload_ok_length [OF c(4)] by auto
  have dl: "length data = 60 + length ?pl" using ol tl by (simp add: data_def)
  have 1: "IsMagic data (length data) = Some True"
    using IsMagic_Some [of "[1, kind_byte ?k] @ ?lb @ ?g @ ?r @ ?sb @ ?pl @ tag"] by (simp add: data_def out_def)
  have 2: "rd8 data 4 = Some 1" "rd8 data 5 = Some (kind_byte ?k)"
    by (simp_all add: data_def out_def wire_simps m)
  note parts = data_def out_def m p
  have "byte_slice data 6 2 = Some ?lb"
    by (rule slice_at [of _ "punch_magic @ [1, kind_byte ?k]" _ "?g @ ?r @ ?sb @ ?pl @ tag"])
       (simp_all add: parts del: Put.simps)
  then have "Get data 6 2 = Some (take_bit (8 * 2) (of_nat (length ?pl)))"
    by (simp add: Get_def Get_loop_Put del: Put.simps)
  moreover have "unat (take_bit (8 * 2) (of_nat (length ?pl)) :: u64) = length ?pl"
    using pl(1) by (simp add: unsigned_take_bit_eq unsigned_of_nat take_bit_nat_eq_self)
  ultimately obtain len where 3: "Get data 6 2 = Some len" "unat len = length ?pl" by blast
  have 4: "byte_slice data 8 16 = Some ?g"
    by (rule slice_at [of _ "punch_magic @ [1, kind_byte ?k] @ ?lb" _ "?r @ ?sb @ ?pl @ tag"])
       (simp_all add: parts del: Put.simps)
  have 5: "byte_slice data 0 (44 + length ?pl) = Some out" "byte_slice data (44 + length ?pl) 16 = Some tag"
    by (rule slice_at [of _ "[]" _ tag], simp_all add: data_def ol)
       (rule slice_at [of _ out _ "[]"], simp_all add: data_def ol tl)
  have 6: "byte_slice data 24 16 = Some ?r"
    by (rule slice_at [of _ "punch_magic @ [1, kind_byte ?k] @ ?lb @ ?g" _ "?sb @ ?pl @ tag"])
       (simp_all add: parts del: Put.simps)
  have "byte_slice data 40 4 = Some ?sb"
    by (rule slice_at [of _ "punch_magic @ [1, kind_byte ?k] @ ?lb @ ?g @ ?r" _ "?pl @ tag"])
       (simp_all add: parts del: Put.simps)
  then have "Get data 40 4 = Some (take_bit (8 * 4) (ucast (pp_sequence p)))"
    by (simp add: Get_def Get_loop_Put del: Put.simps)
  moreover have "(ucast (take_bit (8 * 4) (ucast (pp_sequence p)) :: u64) :: u32) = pp_sequence p"
    by (rule bit_word_eqI) (simp add: bit_simps)
  ultimately obtain seq where 7: "Get data 40 4 = Some seq" "(ucast seq :: u32) = pp_sequence p" by blast
  have 9: "byte_slice data 44 (length ?pl) = Some ?pl"
    by (rule slice_at [of _ "punch_magic @ [1, kind_byte ?k] @ ?lb @ ?g @ ?r @ ?sb" _ tag])
       (simp_all add: parts del: Put.simps)
  show ?thesis
    unfolding enc Decode_def dl p(1)
    using pl by (simp add: 1 [unfolded dl] 2 3 4 5 6 7 9 c p Known_domain Let_def tag_def [symmetric])
qed

text \<open>With enough bytes for header and tag every read is inside the datagram.\<close>

definition decode_guards ::
  "(bytes \<Rightarrow> bytes \<Rightarrow> bytes) \<Rightarrow> json_parser \<Rightarrow> bytes \<Rightarrow> nat \<Rightarrow> bytes \<Rightarrow> domain \<Rightarrow> bytes \<Rightarrow> punch_packet \<Rightarrow> bool" where
  "decode_guards hmac json_parse data sz key d generation p \<longleftrightarrow>
     take 4 data = punch_magic \<and> sz \<le> 1200 \<and> data ! 4 = 1 \<and> kind_of_byte (data ! 5) = Some (pp_kind p) \<and>
     d = kind_domain (pp_kind p) \<and> sz = 60 + unat (Get_loop 0 (take 2 (drop 6 data))) \<and>
     \<not> IsZero generation \<and> take 16 (drop 8 data) = generation \<and>
     take 16 (hmac key (take (sz - 16) data)) = take 16 (drop (sz - 16) data) \<and>
     pp_generation p = generation \<and> pp_round p = take 16 (drop 24 data) \<and>
     pp_sequence p = ucast (Get_loop 0 (take 4 (drop 40 data))) \<and> pp_sequence p \<noteq> 0 \<and>
     round_ok (pp_kind p) (pp_round p) \<and> pp_payload p = take (sz - 60) (drop 44 data) \<and>
     payload_ok json_parse d (pp_kind p) (pp_payload p)"

lemma decode_cases:
  assumes g: "length generation = 16" and sz: "sz \<le> length data"
  shows "\<exists>r. Decode hmac json_parse data sz key d generation = Some r \<and>
    (case r of None \<Rightarrow> True | Some p \<Rightarrow> 60 \<le> sz \<and> decode_guards hmac json_parse data sz key d generation p)"
proof (cases "60 \<le> sz")
  case False
  then show ?thesis
    using sz by (cases "sz < 4") (auto simp: Decode_def IsMagic_def slice_Some)
next
  case True
  then have magic: "IsMagic data sz = Some (take 4 data = punch_magic)"
    using sz by (simp add: IsMagic_def slice_Some)
  have rds: "rd8 data 4 = Some (data ! 4)" "rd8 data 5 = Some (data ! 5)"
      "byte_slice data 8 16 = Some (take 16 (drop 8 data))" "byte_slice data 24 16 = Some (take 16 (drop 24 data))"
      "Get data 6 2 = Some (Get_loop 0 (take 2 (drop 6 data)))" "Get data 40 4 = Some (Get_loop 0 (take 4 (drop 40 data)))"
      "byte_slice data 0 (sz - 16) = Some (take (sz - 16) data)"
      "byte_slice data (sz - 16) 16 = Some (take 16 (drop (sz - 16) data))"
      "byte_slice data 44 (sz - 60) = Some (take (sz - 60) (drop 44 data))"
    using True sz by (simp_all add: slice_Some Get_def)
  show ?thesis
  proof (cases "kind_of_byte (data ! 5)")
    case None
    then show ?thesis using True g by (auto simp: Decode_def magic rds Known_def)
  next
    case (Some k)
    have kn: "Known (Some k) d = (d = kind_domain k)" by (rule Known_domain)
    show ?thesis
      unfolding Decode_def magic Option.bind.bind_lunit rds Some option.sel Let_def kn g
      using True Some sz by (auto simp: rds slice_Some decode_guards_def)
  qed
qed

lemma header_layout:
  assumes "44 + n \<le> length data"
  shows "take (44 + n) data = take 4 data @ [data ! 4, data ! 5] @ take 2 (drop 6 data) @
    take 16 (drop 8 data) @ take 16 (drop 24 data) @ take 4 (drop 40 data) @ take n (drop 44 data)"
proof -
  have "take 2 (drop 4 data) = [data ! 4, data ! 5]"
    using assms by (simp add: take_Suc_conv_app_nth numeral_2_eq_2)
  then show ?thesis
    using take_add [of 4 "2 + (2 + (16 + (16 + (4 + n))))" data] take_add [of 2 "2 + (16 + (16 + (4 + n)))" "drop 4 data"]
      take_add [of 2 "16 + (16 + (4 + n))" "drop 6 data"] take_add [of 16 "16 + (4 + n)" "drop 8 data"]
      take_add [of 16 "4 + n" "drop 24 data"] take_add [of 4 n "drop 40 data"]
    by (simp add: add.assoc)
qed

lemma decode_canonical:
  assumes g: "length generation = 16" and sz: "sz \<le> length data" "60 \<le> sz"
    and ok: "decode_guards hmac json_parse data sz key d generation p"
  shows "Encode hmac json_parse p key = take sz data"
proof -
  define pl where "pl = take (sz - 60) (drop 44 data)"
  have lpl: "length pl = sz - 60" "length pl < 65536" using sz ok by (auto simp: pl_def decode_guards_def)
  have c: "take 4 data = punch_magic" "data ! 4 = 1" "data ! 5 = kind_byte (pp_kind p)"
    "sz - 60 = unat (Get_loop 0 (take 2 (drop 6 data)))" "pp_generation p = take 16 (drop 8 data)"
    "take 16 (hmac key (take (sz - 16) data)) = take 16 (drop (sz - 16) data)"
    "pp_round p = take 16 (drop 24 data)" "pp_sequence p = ucast (Get_loop 0 (take 4 (drop 40 data)))"
    "pp_payload p = pl"
    using ok kind_of_byte_Some by (auto simp: decode_guards_def pl_def)
  have lenb: "Put (of_nat (length pl)) 2 = take 2 (drop 6 data)"
  proof -
    have "of_nat (length pl) = Get_loop 0 (take 2 (drop 6 data))" using c(4) lpl(1) by simp
    then show ?thesis using Put_Get_loop [of "take 2 (drop 6 data)"] sz by simp
  qed
  have seqb: "Put (ucast (pp_sequence p)) 4 = take 4 (drop 40 data)"
  proof -
    let ?G = "Get_loop 0 (take 4 (drop 40 data))"
    have "ucast (ucast ?G :: u32) = ?G"
      using Get_loop_bound [of "take 4 (drop 40 data)"] sz
      by (intro bit_word_eqI) (fastforce simp: bit_simps)
    then show ?thesis using Put_Get_loop [of "take 4 (drop 40 data)"] sz c(8) by simp
  qed
  have split: "sz = (44 + (sz - 60)) + 16" "sz - 16 = 44 + (sz - 60)" using sz by simp_all
  have signed: "take (sz - 16) data = punch_magic @ [1, kind_byte (pp_kind p)] @ Put (of_nat (length pl)) 2 @
      pp_generation p @ pp_round p @ Put (ucast (pp_sequence p)) 4 @ pl"
    unfolding split(2) lenb seqb using header_layout [of "sz - 60" data, folded pl_def] sz
    by (simp only: c(1-3,5,7))
  have "take sz data = take (sz - 16) data @ take 16 (drop (sz - 16) data)"
    using take_add [of "sz - 16" 16 data] sz by simp
  moreover have "Encode hmac json_parse p key =
      take (sz - 16) data @ take 16 (hmac key (take (sz - 16) data))"
    unfolding signed using ok c(9) by (auto simp: Encode_def Let_def decode_guards_def)
  ultimately show ?thesis using c(6) by simp
qed

section \<open>The replay window refines a map of accepted packets\<close>

text \<open>
  The specification keeps the highest sequence number and a map from the sequence numbers of the
  last 256 to the digest of the packet that was accepted under them.
\<close>

definition in_window :: "u32 \<Rightarrow> u32 \<Rightarrow> bool" where
  "in_window high s \<longleftrightarrow> s \<noteq> 0 \<and> s \<le> high \<and> unat high - unat s < 256"

definition replay_abs :: "replay_window \<Rightarrow> u32 \<rightharpoonup> bytes" where
  "replay_abs rw s = (if in_window (rw_high rw) s \<and> rw_seen rw (unat (rw_high rw) - unat s)
                      then Some (rw_digests rw (unat s mod 256)) else None)"

definition replay_spec ::
  "(bytes \<Rightarrow> bytes) \<Rightarrow> u32 \<Rightarrow> (u32 \<rightharpoonup> bytes) \<Rightarrow> u32 \<Rightarrow> bytes \<Rightarrow> replay_result \<times> u32 \<times> (u32 \<rightharpoonup> bytes)" where
  "replay_spec sha high m s bs =
     (if s = 0 \<or> (s \<le> high \<and> \<not> in_window high s) then (TooOld, high, m)
      else let high' = max high s; m' = m |` {t. in_window high' t}
           in case m' s of
                Some d \<Rightarrow> (if sha bs = d then Duplicate else Conflict, high', m')
              | None \<Rightarrow> (Fresh, high', m'(s \<mapsto> sha bs)))"

lemma unat_diff [simp]: "(a :: u32) \<le> b \<Longrightarrow> unat (b - a) = unat b - unat a"
  by (simp add: unat_sub word_le_nat_alt)

lemma window_slots_nat:
  fixes a b h :: nat
  assumes "a \<le> h" "b \<le> h" "h - a < 256" "h - b < 256" "a mod 256 = b mod 256"
  shows "a = b"
proof -
  obtain q p r where "a = 256 * q + r" "b = 256 * p + r"
    using assms(5) by (metis mult_div_mod_eq)
  then show ?thesis using assms(1-4) by (cases q p rule: linorder_cases) auto
qed

lemma window_slots:
  "in_window h s \<Longrightarrow> in_window h t \<Longrightarrow> unat s mod 256 = unat t mod 256 \<Longrightarrow> s = t"
  using window_slots_nat [of "unat s" "unat h" "unat t"]
  by (auto simp: in_window_def word_le_nat_alt word_unat_eq_iff)

text \<open>Moving the window forward forgets exactly the sequence numbers that leave it.\<close>

definition replay_advance :: "replay_window \<Rightarrow> u32 \<Rightarrow> replay_window" where
  "replay_advance rw s = (if s > rw_high rw then
                     let shift = s - rw_high rw in
                     rw\<lparr>rw_seen := (if shift \<ge> 256 then (\<lambda>_. False)
                                    else (\<lambda>i. i < 256 \<and> unat shift \<le> i \<and> rw_seen rw (i - unat shift))),
                        rw_high := s\<rparr>
                   else rw)"

lemma replay_advance_high: "rw_high (replay_advance rw s) = max (rw_high rw) s"
  by (auto simp: replay_advance_def Let_def max_def)

lemma replay_advance_abs:
  "replay_abs (replay_advance rw s) = replay_abs rw |` {t. in_window (max (rw_high rw) s) t}"
proof (cases "s > rw_high rw")
  case True
  then have le: "rw_high rw \<le> s" by simp
  have big: "256 \<le> s - rw_high rw \<longleftrightarrow> 256 \<le> unat s - unat (rw_high rw)"
    using le by (simp add: word_le_nat_alt)
  show ?thesis
  proof (rule ext)
    fix t
    show "replay_abs (replay_advance rw s) t = (replay_abs rw |` {t. in_window (max (rw_high rw) s) t}) t"
      using True le big
      by (cases "t \<le> rw_high rw")
         (auto simp: replay_abs_def replay_advance_def Let_def restrict_map_def in_window_def max_def
           word_le_nat_alt word_less_nat_alt)
  qed
next
  case False
  then show ?thesis
    by (auto simp: replay_advance_def restrict_map_def replay_abs_def max_def intro!: ext)
qed

lemma Accept_advance:
  assumes "\<not> (s = 0 \<or> (s \<le> rw_high rw \<and> rw_high rw - s \<ge> 256))"
  shows "Accept sha rw s bs =
    (let rw1 = replay_advance rw s; offset = unat (rw_high rw1) - unat s in
       if rw_seen rw1 offset
       then (if sha bs = rw_digests rw1 (unat s mod 256) then Duplicate else Conflict, rw1)
       else (Fresh, rw1\<lparr>rw_seen := (rw_seen rw1)(offset := True),
                        rw_digests := (rw_digests rw1)(unat s mod 256 := sha bs)\<rparr>))"
  using assms unfolding Accept_def replay_advance_def [symmetric]
  by (simp add: Let_def replay_advance_high unat_diff)

lemma Accept_refines:
  "(case Accept sha rw s bs of (r, rw') \<Rightarrow> (r, rw_high rw', replay_abs rw')) =
   replay_spec sha (rw_high rw) (replay_abs rw) s bs"
proof (cases "s = 0 \<or> (s \<le> rw_high rw \<and> rw_high rw - s \<ge> 256)")
  case True
  then have "s = 0 \<or> (s \<le> rw_high rw \<and> \<not> in_window (rw_high rw) s)"
    by (auto simp: in_window_def word_le_nat_alt)
  then show ?thesis using True by (simp only: Accept_def replay_spec_def if_P) simp
next
  case False
  define rw1 where "rw1 = replay_advance rw s"
  have w: "in_window (rw_high rw1) s"
    using False by (auto simp: rw1_def replay_advance_high in_window_def max_def word_le_nat_alt)
  have seen: "rw_seen rw1 (unat (rw_high rw1) - unat s) \<longleftrightarrow> replay_abs rw1 s \<noteq> None"
    using w by (simp add: replay_abs_def)
  have upd: "replay_abs (rw1\<lparr>rw_seen := (rw_seen rw1)(unat (rw_high rw1) - unat s := True),
                        rw_digests := (rw_digests rw1)(unat s mod 256 := d)\<rparr>) = (replay_abs rw1)(s \<mapsto> d)" for d
  proof (rule ext)
    fix t
    show "replay_abs (rw1\<lparr>rw_seen := (rw_seen rw1)(unat (rw_high rw1) - unat s := True),
                        rw_digests := (rw_digests rw1)(unat s mod 256 := d)\<rparr>) t = ((replay_abs rw1)(s \<mapsto> d)) t"
    proof (cases "in_window (rw_high rw1) t")
      case True
      then have "unat (rw_high rw1) - unat t = unat (rw_high rw1) - unat s \<longleftrightarrow> t = s"
        using w by (auto simp: in_window_def word_le_nat_alt word_unat_eq_iff)
      then show ?thesis using w True window_slots [OF w True] by (auto simp: replay_abs_def)
    next
      case False
      then show ?thesis using w by (auto simp: replay_abs_def)
    qed
  qed
  have g: "\<not> (s = 0 \<or> (s \<le> rw_high rw \<and> \<not> in_window (rw_high rw) s))"
    using False by (auto simp: in_window_def word_le_nat_alt)
  have spec: "replay_spec sha (rw_high rw) (replay_abs rw) s bs =
      (case replay_abs rw1 s of
         Some d \<Rightarrow> (if sha bs = d then Duplicate else Conflict, rw_high rw1, replay_abs rw1)
       | None \<Rightarrow> (Fresh, rw_high rw1, (replay_abs rw1)(s \<mapsto> sha bs)))"
    unfolding replay_spec_def if_not_P [OF g] rw1_def replay_advance_high replay_advance_abs Let_def by (rule refl)
  show ?thesis
  proof (cases "replay_abs rw1 s")
    case None
    then show ?thesis
      unfolding Accept_advance [OF False] rw1_def [symmetric] Let_def spec
      using seen by (simp add: upd)
  next
    case (Some d)
    then have "rw_digests rw1 (unat s mod 256) = d" by (auto simp: replay_abs_def split: if_splits)
    then show ?thesis
      unfolding Accept_advance [OF False] rw1_def [symmetric] Let_def spec
      using seen Some by simp
  qed
qed

section \<open>Runs of the replay window\<close>

text \<open>The results of a sequence of authenticated packets.\<close>

fun replay_run :: "(bytes \<Rightarrow> bytes) \<Rightarrow> replay_window \<Rightarrow> (u32 \<times> bytes) list \<Rightarrow> (u32 \<times> replay_result) list" where
  "replay_run sha rw [] = []"
| "replay_run sha rw ((s, bs) # ps) =
     (case Accept sha rw s bs of (r, rw') \<Rightarrow> (s, r) # replay_run sha rw' ps)"

definition replay_spent :: "replay_window \<Rightarrow> u32 \<Rightarrow> bool" where
  "replay_spent rw s \<longleftrightarrow> s \<le> rw_high rw \<and> (in_window (rw_high rw) s \<longrightarrow> replay_abs rw s \<noteq> None)"

lemma in_window_max: "t \<le> high \<Longrightarrow> in_window (max high s) t \<Longrightarrow> in_window high t"
  by (auto simp: in_window_def max_def word_le_nat_alt split: if_splits)

lemma Accept_spent:
  assumes "Accept sha rw s bs = (r, rw')"
  shows "replay_spent rw t \<Longrightarrow> replay_spent rw' t" and "replay_spent rw s \<Longrightarrow> r \<noteq> Fresh"
    and "r = Fresh \<Longrightarrow> replay_spent rw' s"
proof -
  have eq: "(r, rw_high rw', replay_abs rw') = replay_spec sha (rw_high rw) (replay_abs rw) s bs"
    using Accept_refines [of sha rw s bs] assms by simp
  show "replay_spent rw' t" if "replay_spent rw t"
    using eq that in_window_max [of t "rw_high rw" s]
    by (auto simp: replay_spec_def replay_spent_def Let_def le_max_iff_disj restrict_map_def
        split: if_splits option.splits)
  show "r \<noteq> Fresh" if "replay_spent rw s"
    using eq that in_window_max [of s "rw_high rw" s]
    by (auto simp: replay_spec_def replay_spent_def Let_def restrict_map_def max_def
        split: if_splits option.splits)
  show "replay_spent rw' s" if "r = Fresh"
    using eq that
    by (auto simp: replay_spec_def replay_spent_def Let_def split: if_splits option.splits)
qed

lemma replay_run_fresh:
  "distinct (map fst (filter (\<lambda>(s, r). r = Fresh) (replay_run sha rw ps))) \<and>
   (\<forall>s. replay_spent rw s \<longrightarrow> s \<notin> fst ` set (filter (\<lambda>(s, r). r = Fresh) (replay_run sha rw ps)))"
proof (induction ps arbitrary: rw)
  case (Cons a ps)
  obtain s bs r rw' where a: "a = (s, bs)" "Accept sha rw s bs = (r, rw')" by (metis surj_pair)
  note sp = Accept_spent [OF a(2)]
  show ?case
    using Cons.IH [of rw'] sp by (auto simp: a)
qed simp

section \<open>IPv4 addresses are four decimal octets\<close>

definition digit_char :: "nat \<Rightarrow> char" where
  "digit_char k = char_of (48 + k)"

definition dec_octet :: "nat \<Rightarrow> string" where
  "dec_octet n =
     (if n < 10 then [digit_char n]
      else if n < 100 then [digit_char (n div 10), digit_char (n mod 10)]
      else [digit_char (n div 100), digit_char (n div 10 mod 10), digit_char (n mod 10)])"

definition dotted :: "nat \<Rightarrow> nat \<Rightarrow> nat \<Rightarrow> nat \<Rightarrow> string" where
  "dotted a b c d = dec_octet a @ ''.'' @ dec_octet b @ ''.'' @ dec_octet c @ ''.'' @ dec_octet d"

lemma digit_char [simp]:
  "k < 10 \<Longrightarrow> is_digit (digit_char k)" "k < 10 \<Longrightarrow> digit_value (digit_char k) = k"
  by (simp_all add: digit_char_def is_digit_def digit_value_def of_char_of)

lemma digit_value [simp]: "is_digit c \<Longrightarrow> digit_value c < 10" "is_digit c \<Longrightarrow> digit_char (digit_value c) = c"
  by (auto simp: digit_char_def is_digit_def digit_value_def char_of_eq_iff)

lemma digit_char_0: "digit_char 0 = CHR ''0''"
  by (simp add: digit_char_def char_of_eq_iff take_bit_eq_mod)

lemma digit_zero: "is_digit c \<Longrightarrow> c = CHR ''0'' \<longleftrightarrow> digit_value c = 0"
  using digit_value(2) [of c] digit_char_0 by (auto simp: digit_value_def)

lemma dot_no_digit [simp]: "\<not> is_digit CHR ''.''" by (simp add: is_digit_def)

definition stops :: "string \<Rightarrow> bool" where
  "stops rest \<longleftrightarrow> rest = [] \<or> \<not> is_digit (hd rest)"

lemma ipv4_digits_stop: "stops rest \<Longrightarrow> ipv4_digits n count rest = Some (count, rest)"
  by (cases rest) (auto simp: stops_def)

lemma digits_split:
  fixes x y z :: nat
  assumes "x < 10" "y < 10" "z < 10"
  shows "(x * 100 + y * 10 + z) div 100 = x" "(x * 100 + y * 10 + z) div 10 mod 10 = y"
    "(x * 100 + y * 10 + z) mod 10 = z"
proof -
  have n: "x * 100 + y * 10 + z = z + (y + x * 10) * 10" by simp
  show "(x * 100 + y * 10 + z) div 100 = x" using assms by (intro div_nat_eqI) auto
  show "(x * 100 + y * 10 + z) div 10 mod 10 = y" "(x * 100 + y * 10 + z) mod 10 = z"
    unfolding n using assms by (simp_all only: div_mult_self1 mod_mult_self1 mod_less div_less) simp_all
qed

lemma ipv4_component_digits:
  "stops rest \<Longrightarrow> x < 10 \<Longrightarrow> ipv4_component (digit_char x # rest) = Some rest"
  "stops rest \<Longrightarrow> 0 < x \<Longrightarrow> x < 10 \<Longrightarrow> y < 10 \<Longrightarrow>
     ipv4_component (digit_char x # digit_char y # rest) = Some rest"
  "stops rest \<Longrightarrow> 0 < x \<Longrightarrow> x < 10 \<Longrightarrow> y < 10 \<Longrightarrow> z < 10 \<Longrightarrow> x * 100 + y * 10 + z < 256 \<Longrightarrow>
     ipv4_component (digit_char x # digit_char y # digit_char z # rest) = Some rest"
  by (simp_all add: ipv4_component_def ipv4_digits_stop Let_def digit_zero)

lemma octet_digits: "(n div 100 * 10 + n div 10 mod 10) * 10 + n mod 10 = (n :: nat)"
proof -
  have "n div 100 = n div 10 div 10" using div_mult2_eq [of n 10 10] by simp
  then show ?thesis by (simp only: div_mult_mod_eq)
qed

lemma ipv4_component_dec:
  assumes n: "n < 256" and rest: "stops rest"
  shows "ipv4_component (dec_octet n @ rest) = Some rest"
proof -
  consider "n < 10" | "10 \<le> n" "n < 100" | "100 \<le> n" by linarith
  then show ?thesis
  proof cases
    case 1 then show ?thesis using ipv4_component_digits(1) [OF rest] by (simp add: dec_octet_def)
  next
    case 2
    then have "0 < n div 10" "n div 10 < 10" by auto
    then show ?thesis using 2 ipv4_component_digits(2) [OF rest] by (simp add: dec_octet_def)
  next
    case 3
    have eq: "n div 100 * 100 + n div 10 mod 10 * 10 + n mod 10 = n"
      using octet_digits [of n] by (simp add: add_mult_distrib)
    have "0 < n div 100" "n div 100 < 10" using 3 n by auto
    then show ?thesis
      using 3 n ipv4_component_digits(3) [OF rest, of "n div 100" "n div 10 mod 10" "n mod 10", unfolded eq]
      by (simp add: dec_octet_def)
  qed
qed

lemma ipv4_component_Some:
  assumes "ipv4_component s = Some rest"
  shows "\<exists>n < 256. s = dec_octet n @ rest \<and> stops rest"
proof -
  consider "stops s" | a t where "s = a # t" "is_digit a" "stops t"
    | a b t where "s = a # b # t" "is_digit a" "is_digit b" "stops t"
    | a b c t where "s = a # b # c # t" "is_digit a" "is_digit b" "is_digit c" "stops t"
    | a b c d t where "s = a # b # c # d # t" "is_digit a" "is_digit b" "is_digit c" "is_digit d"
    unfolding stops_def by (metis list.collapse)
  then show ?thesis
  proof cases
    case 1 then show ?thesis using assms by (simp add: ipv4_component_def ipv4_digits_stop)
  next
    case 2
    then show ?thesis using assms
      by (intro exI [of _ "digit_value a"])
         (auto simp: ipv4_component_def ipv4_digits_stop dec_octet_def Let_def split: if_splits)
  next
    case 3
    have "digit_value a \<noteq> 0" "rest = t"
      using 3 assms by (auto simp: ipv4_component_def ipv4_digits_stop Let_def digit_zero split: if_splits)
    moreover have "digit_value a * 10 + digit_value b < 100"
      using digit_value(1) [of a] digit_value(1) [of b] 3 by linarith
    ultimately show ?thesis using 3
      by (intro exI [of _ "digit_value a * 10 + digit_value b"]) (auto simp: dec_octet_def)
  next
    case 4
    let ?n = "digit_value a * 100 + digit_value b * 10 + digit_value c"
    have "digit_value a \<noteq> 0" "rest = t" "?n < 256"
      using 4 assms by (auto simp: ipv4_component_def ipv4_digits_stop Let_def digit_zero split: if_splits)
    moreover have "?n div 100 = digit_value a" "?n div 10 mod 10 = digit_value b" "?n mod 10 = digit_value c"
      using 4 by (simp_all only: digits_split digit_value(1))
    ultimately show ?thesis using 4
      by (intro exI [of _ ?n]) (auto simp: dec_octet_def)
  next
    case 5
    then show ?thesis using assms by (simp add: ipv4_component_def Let_def split: if_splits)
  qed
qed

lemma ipv4_dot_Some: "ipv4_dot s = Some r \<longleftrightarrow> s = CHR ''.'' # r"
  by (auto simp: ipv4_dot_def split: list.splits if_splits)

lemma ipv4_component_iff: "ipv4_component s = Some rest \<longleftrightarrow> (\<exists>n < 256. s = dec_octet n @ rest \<and> stops rest)"
  using ipv4_component_Some ipv4_component_dec by blast

lemma stops_dot [simp]: "stops (CHR ''.'' # r)" "stops []"
  by (simp_all add: stops_def)

lemma ValidIpv4_iff: "ValidIpv4 ip \<longleftrightarrow> (\<exists>a < 256. \<exists>b < 256. \<exists>c < 256. \<exists>d < 256. ip = dotted a b c d)"
proof
  assume "ValidIpv4 ip"
  then obtain r1 r2 r3 where "ipv4_component ip = Some (CHR ''.'' # r1)"
     "ipv4_component r1 = Some (CHR ''.'' # r2)" "ipv4_component r2 = Some (CHR ''.'' # r3)"
     "ipv4_component r3 = Some []"
    by (auto simp: ValidIpv4_def ipv4_dot_Some bind_eq_Some_conv split: option.splits)
  then show "\<exists>a < 256. \<exists>b < 256. \<exists>c < 256. \<exists>d < 256. ip = dotted a b c d"
    unfolding ipv4_component_iff dotted_def by auto
next
  assume "\<exists>a < 256. \<exists>b < 256. \<exists>c < 256. \<exists>d < 256. ip = dotted a b c d"
  then show "ValidIpv4 ip"
    using ipv4_component_dec [of _ "[]"]
    by (auto simp: ValidIpv4_def dotted_def ipv4_component_dec ipv4_dot_def)
qed

section \<open>Generation contexts and probe payloads\<close>

lemma char_byte: "char_of (unat (of_char c :: u8)) = c"
proof -
  have "(of_char c :: u8) = of_nat (of_char c)" by (simp add: of_nat_of_char)
  then show ?thesis using nat_of_char_less_256 [of c] by (simp add: unsigned_of_nat take_bit_nat_eq_self)
qed

lemma GenerationContext_inj:
  assumes "GenerationContext o1 a1 \<noteq> []" "GenerationContext o1 a1 = GenerationContext o2 a2"
  shows "o1 = o2 \<and> a1 = a2"
proof -
  have ok: "ufrag_ok o1" "ufrag_ok a1" "ufrag_ok o2" "ufrag_ok a2"
    using assms by (auto simp: GenerationContext_def split: if_splits)
  have pre: "u = v \<and> x = y" if "ufrag_bytes u @ x = ufrag_bytes v @ y" "ufrag_ok u" "ufrag_ok v" for u v x y
  proof -
    have "Put (of_nat (length u)) 2 = Put (of_nat (length v)) 2" and rest: "map of_char u @ x = map of_char v @ y"
      using that(1) by (simp_all add: ufrag_bytes_def append_eq_append_conv del: Put.simps)
    then have "Get_loop 0 (Put (of_nat (length u)) 2) = Get_loop 0 (Put (of_nat (length v)) 2)" by simp
    then have "take_bit 16 (of_nat (length u) :: u64) = take_bit 16 (of_nat (length v))"
      by (simp add: Get_loop_Put del: Put.simps)
    moreover have "unat (take_bit 16 (of_nat (length w)) :: u64) = length w" if "ufrag_ok w" for w
      using that by (simp add: ufrag_ok_def unsigned_take_bit_eq unsigned_of_nat take_bit_nat_eq_self)
    ultimately have "length u = length v" using that(2,3) by metis
    then have "map (of_char :: char \<Rightarrow> u8) u = map of_char v" "x = y" using rest by simp_all
    moreover have "inj (of_char :: char \<Rightarrow> u8)"
      by (rule injI) (metis char_byte)
    ultimately show ?thesis by (simp add: inj_map_eq_map)
  qed
  have "ufrag_bytes o1 @ ufrag_bytes a1 = ufrag_bytes o2 @ ufrag_bytes a2"
    using assms(2) ok by (simp add: GenerationContext_def)
  then have "o1 = o2" "ufrag_bytes a1 = ufrag_bytes a2" using pre ok by blast+
  then show ?thesis using pre [of a1 "[]" a2 "[]"] ok by simp
qed

lemma ParseProbe_iff:
  "length p = 20 \<Longrightarrow> ParseProbe p = Some pr \<Longrightarrow> ProbePayload pr = p"
  using Put_Get_loop [of "take 8 p"] append_take_drop_id [of 8 p]
  by (auto simp: ParseProbe_def ProbePayload_def Let_def split: if_splits simp del: Put.simps)

lemma ParseProbe_ProbePayload:
  "pr_socket p \<noteq> 0 \<Longrightarrow> length (pr_nonce p) = 12 \<Longrightarrow> ParseProbe (ProbePayload p) = Some p"
  using Get_loop_Put [of "pr_socket p" 8]
  by (auto simp: ParseProbe_def ProbePayload_def Let_def take_bit_word_eq_self simp del: Put.simps)

section \<open>Properties\<close>

text \<open>
  C14: A packet that may be sent is received unchanged: under the same key, in the domain of its kind
  and for its generation, \<open>Decode\<close> of \<open>Encode\<close> returns the packet. The HMAC is only required to give
  at least 16 bytes.
\<close>

theorem punch_encode_decode:
  assumes "\<forall>data. 16 \<le> length (hmac key data)"
    and "length (pp_generation p) = 16" "length (pp_round p) = 16"
    and "Encode hmac json_parse p key \<noteq> []"
  shows "Decode hmac json_parse (Encode hmac json_parse p key) (length (Encode hmac json_parse p key)) key
    (kind_domain (pp_kind p)) (pp_generation p) = Some (Some p)"
  using assms by (intro decode_encode) auto

theorem punch_encode_decode_witness:
  "let p = \<lparr>pp_kind = Probe, pp_generation = replicate 16 1, pp_round = replicate 16 2, pp_sequence = 7,
            pp_payload = replicate 20 3\<rparr>;
       hmac = (\<lambda>key data. replicate 32 (fold (+) (key @ data) 0));
       e = Encode hmac (\<lambda>_. None) p [1] in
     length e = 80 \<and> Decode hmac (\<lambda>_. None) e (length e) [1] ProbeDomain (replicate 16 1) = Some (Some p)"
proof -
  let ?p = "\<lparr>pp_kind = Probe, pp_generation = replicate 16 1, pp_round = replicate 16 2, pp_sequence = 7,
            pp_payload = replicate 20 3\<rparr> :: punch_packet"
  let ?h = "\<lambda>(key :: bytes) data. replicate 32 (fold (+) (key @ data) 0 :: u8)"
  have e: "length (Encode ?h (\<lambda>_. None) ?p [1]) = 80" by code_simp
  then have "Encode ?h (\<lambda>_. None) ?p [1] \<noteq> []" by force
  then show ?thesis
    using punch_encode_decode [of ?h "[1]" ?p "\<lambda>_. None"] e by (simp add: Let_def kind_domain_def)
qed

text \<open>
  C15: \<open>Decode\<close> reads only inside the datagram, and what it accepts is exactly what \<open>Encode\<close> produces:
  the accepted bytes are the encoding of the returned packet under the same key, so a packet has one
  encoding, carries the expected generation and a valid tag, and fits the domain.
\<close>

theorem punch_decode_sound:
  assumes "length generation = 16" "sz \<le> length data"
  shows "\<exists>r. Decode hmac json_parse data sz key d generation = Some r \<and>
    (\<forall>p. r = Some p \<longrightarrow> Encode hmac json_parse p key = take sz data \<and> pp_generation p = generation \<and>
       kind_domain (pp_kind p) = d \<and> pp_sequence p \<noteq> 0 \<and> sz \<le> kControlMax \<and>
       take kTagSize (hmac key (take (sz - kTagSize) data)) = drop (sz - kTagSize) (take sz data))"
proof -
  obtain r where r: "Decode hmac json_parse data sz key d generation = Some r"
    "case r of None \<Rightarrow> True | Some p \<Rightarrow> 60 \<le> sz \<and> decode_guards hmac json_parse data sz key d generation p"
    using decode_cases [OF assms] by blast
  have "take 16 (drop (sz - 16) data) = drop (sz - 16) (take sz data)" if "60 \<le> sz"
    using that by (simp add: drop_take)
  then show ?thesis
    using r decode_canonical [OF assms] by (intro exI [of _ r]) (auto simp: decode_guards_def)
qed

theorem punch_decode_sound_witness:
  "\<exists>r. Decode (\<lambda>key data. replicate 32 0) (\<lambda>_. None) (punch_magic @ replicate 76 0) 80 [] ProbeDomain (replicate 16 1) = Some r \<and>
    (\<forall>p. r = Some p \<longrightarrow> pp_generation p = replicate 16 1)"
  using punch_decode_sound [of "replicate 16 1" 80 "punch_magic @ replicate 76 0" "\<lambda>key data. replicate 32 0"
      "\<lambda>_. None" "[]" ProbeDomain]
  by (auto simp: punch_magic_def)

text \<open>
  C16: The bit set and the array of digests of \<open>ReplayWindow\<close> implement a map from the last 256
  sequence numbers to the digests of the packets accepted under them: a number below the window is too
  old, a known number is a duplicate when the digest agrees and a conflict when not, a new one is
  recorded.
\<close>

theorem replay_refines_map:
  "(case Accept sha rw s bs of (r, rw') \<Rightarrow> (r, rw_high rw', replay_abs rw')) =
   replay_spec sha (rw_high rw) (replay_abs rw) s bs"
  by (rule Accept_refines)

text \<open>C17: In every run of the replay window no sequence number is accepted as fresh twice.\<close>

theorem replay_fresh_once:
  "distinct (map fst (filter (\<lambda>(s, r). r = Fresh) (replay_run sha replay_init packets)))"
  using replay_run_fresh by blast

text \<open>
  C18: \<open>ValidIpv4\<close> accepts exactly the dotted notations of four octets, in decimal and without
  leading zeros.
\<close>

theorem ValidIpv4_exact:
  "ValidIpv4 ip = (\<exists>a < 256. \<exists>b < 256. \<exists>c < 256. \<exists>d < 256. ip = dotted a b c d)"
  by (rule ValidIpv4_iff)

text \<open>
  Different pairs of ICE user fragments have different generation contexts, so that generation
  ids collide only where SHA-256 does.
\<close>

theorem generation_context_injective:
  assumes "GenerationContext o1 a1 \<noteq> []" "GenerationContext o1 a1 = GenerationContext o2 a2"
  shows "o1 = o2 \<and> a1 = a2"
  using assms by (rule GenerationContext_inj)

theorem generation_context_injective_witness:
  "GenerationContext ''ab'' ''c'' \<noteq> [] \<and> GenerationContext ''ab'' ''c'' \<noteq> GenerationContext ''a'' ''bc''"
proof -
  have "GenerationContext ''ab'' ''c'' \<noteq> []" by code_simp
  then show ?thesis using generation_context_injective [of "''ab''" "''c''" "''a''" "''bc''"] by auto
qed

end
