(* ===== verification/Nat_Traversal.thy ===== *)
theory Nat_Traversal
  imports Punch_Protocol "HOL-Library.AList" "HOL-Library.Multiset"
begin

text \<open>
  Observed NAT mappings (\<^verbatim>\<open>src/ice/nat_traversal.h\<close>): the analysis of mapping samples, the test for
  public IPv4 addresses and the prediction of remote ports. Ports are 16-bit words; \<open>int(port)\<close> is
  \<^const>\<open>uint\<close>.
\<close>

section \<open>Analysis of mapping samples\<close>

record nat_sample =
  ns_server_ip :: string
  ns_server_port :: u16
  ns_mapped_ip :: string
  ns_mapped_port :: u16
  ns_sequence :: u32

record nat_analysis =
  na_mapping :: string
  na_port_pattern :: string
  na_port_step :: int
  na_samples :: nat

definition nat_analysis_init :: nat_analysis where
  "nat_analysis_init = \<lparr>na_mapping = ''insufficient-samples'', na_port_pattern = ''unknown'',
     na_port_step = 0, na_samples = 0\<rparr>"

text \<open>The \<open>remove_if\<close>: incomplete samples and repeated server endpoints are dropped.\<close>

fun unique_samples :: "(string \<times> u16) list \<Rightarrow> nat_sample list \<Rightarrow> nat_sample list" where
  "unique_samples endpoints [] = []"
| "unique_samples endpoints (s # ss) =
     (if ns_server_port s = 0 \<or> ns_mapped_port s = 0 \<or> ns_server_ip s = [] \<or> ns_mapped_ip s = []
      then unique_samples endpoints ss
      else if (ns_server_ip s, ns_server_port s) \<in> set endpoints then unique_samples endpoints ss
      else s # unique_samples ((ns_server_ip s, ns_server_port s) # endpoints) ss)"

definition port_diff :: "nat_sample \<Rightarrow> nat_sample \<Rightarrow> int" where
  "port_diff a b = uint (ns_mapped_port b) - uint (ns_mapped_port a)"

text \<open>The loop that compares neighbours; \<open>linear\<close> is its accumulator.\<close>

fun linear_loop :: "int \<Rightarrow> bool \<Rightarrow> nat_sample list \<Rightarrow> bool" where
  "linear_loop step linear (a # b # ss) =
     linear_loop step (linear \<and> ns_sequence b > ns_sequence a \<and> port_diff a b = step) (b # ss)"
| "linear_loop step linear _ = linear"

text \<open>The part behind the sort, for the sorted samples (at least two).\<close>

definition analyze_sorted :: "nat_analysis \<Rightarrow> nat_sample list \<Rightarrow> nat_analysis" where
  "analyze_sorted result samples =
     (let first = hd samples;
          same_ip = list_all (\<lambda>s. ns_mapped_ip s = ns_mapped_ip first) samples;
          stable = list_all (\<lambda>s. ns_mapped_ip s = ns_mapped_ip first \<and> ns_mapped_port s = ns_mapped_port first) samples;
          different_servers = list_ex (\<lambda>s. ns_server_ip s \<noteq> ns_server_ip first) samples;
          result = result\<lparr>na_mapping := (if stable then (if different_servers then ''endpoint-independent''
                                          else ''insufficient-destination-diversity'')
                                        else ''destination-dependent''),
                          na_port_pattern := (if stable then ''stable'' else ''unknown'')\<rparr>
      in if stable \<or> \<not> same_ip \<or> length samples < 3 then result
         else
           let step = port_diff first (samples ! 1);
               linear = linear_loop step (step \<noteq> 0 \<and> -1024 \<le> step \<and> step \<le> 1024) samples
           in result\<lparr>na_port_pattern := (if linear then ''linear-observed'' else ''irregular-observed''),
                     na_port_step := (if linear then step else 0)\<rparr>)"

definition AnalyzeNatMappings :: "nat_sample list \<Rightarrow> nat_analysis" where
  "AnalyzeNatMappings samples =
     (let samples = unique_samples [] samples;
          result = nat_analysis_init\<lparr>na_samples := length samples\<rparr>
      in if length samples < 2 then result
         else analyze_sorted result (sort_key ns_sequence samples))"

section \<open>Public addresses\<close>

fun pub_digits :: "nat \<Rightarrow> nat \<Rightarrow> string \<Rightarrow> (nat \<times> nat \<times> string) option" where
  "pub_digits n cnt [] = Some (n, cnt, [])"
| "pub_digits n cnt (c # cs) =
     (if is_digit c then
        (let n' = n * 10 + digit_value c; cnt' = Suc cnt in
         if n' > 255 \<or> cnt' > 3 then None else pub_digits n' cnt' cs)
      else Some (n, cnt, c # cs))"

definition pub_octet :: "string \<Rightarrow> (nat \<times> string) option" where
  "pub_octet s = do { (n, cnt, rest) \<leftarrow> pub_digits 0 0 s; if cnt = 0 then None else Some (n, rest) }"

definition pub_parse :: "string \<Rightarrow> (nat \<times> nat \<times> nat \<times> nat) option" where
  "pub_parse ip =
     do { (a, r) \<leftarrow> pub_octet ip; r \<leftarrow> ipv4_dot r;
          (b, r) \<leftarrow> pub_octet r; r \<leftarrow> ipv4_dot r;
          (c, r) \<leftarrow> pub_octet r; r \<leftarrow> ipv4_dot r;
          (d, r) \<leftarrow> pub_octet r;
          if r \<noteq> [] then None else Some (a, b, c, d) }"

definition public_octets :: "nat \<Rightarrow> nat \<Rightarrow> nat \<Rightarrow> bool" where
  "public_octets a b c =
     (a \<noteq> 0 \<and> a \<noteq> 10 \<and> a \<noteq> 127 \<and> a < 224 \<and>
      \<not> (a = 100 \<and> b \<ge> 64 \<and> b \<le> 127) \<and>
      \<not> (a = 169 \<and> b = 254) \<and>
      \<not> (a = 172 \<and> b \<ge> 16 \<and> b \<le> 31) \<and>
      \<not> (a = 192 \<and> (b = 168 \<or> (b = 0 \<and> c = 0))) \<and>
      \<not> (a = 198 \<and> (b = 18 \<or> b = 19)))"

definition IsPublicIpv4ForPrediction :: "string \<Rightarrow> bool" where
  "IsPublicIpv4ForPrediction ip =
     (case pub_parse ip of None \<Rightarrow> False | Some (a, b, c, d) \<Rightarrow> public_octets a b c)"

section \<open>Prediction of remote ports\<close>

definition kMaxPredictions :: nat where "kMaxPredictions = 32"

record port_group =
  pg_observed :: "u16 list"
  pg_predicted :: "u16 list"

record port_predictor =
  rp_groups :: "(string \<times> port_group) list"
  rp_predictions :: nat

definition predictor_init :: port_predictor where
  "predictor_init = \<lparr>rp_groups = [], rp_predictions = 0\<rparr>"

fun step_loop :: "int \<Rightarrow> u16 list \<Rightarrow> int" where
  "step_loop step (a # b # ps) = (if uint b - uint a \<noteq> step then 0 else step_loop step (b # ps))"
| "step_loop step _ = step"

definition predict_step :: "u16 list \<Rightarrow> int" where
  "predict_step observed =
     (if length observed \<ge> 3
      then let step = step_loop (uint (observed ! 1) - uint (observed ! 0)) (drop 1 observed)
           in if step < -64 \<or> step > 64 then 0 else step
      else 0)"

definition predict_offset :: "int \<Rightarrow> int \<Rightarrow> int" where
  "predict_offset step i = (if step \<noteq> 0 then step * i else ((i + 1) div 2) * (if i mod 2 \<noteq> 0 then 1 else -1))"

text \<open>The candidates in the order of \<open>i\<close>, with the predicted ports and the counter of the class.\<close>

fun predict_loop :: "u16 \<Rightarrow> int \<Rightarrow> u16 list \<Rightarrow> int list \<Rightarrow> u16 list \<Rightarrow> nat \<Rightarrow> u16 list \<times> u16 list \<times> nat" where
  "predict_loop port step observed [] predicted n = ([], predicted, n)"
| "predict_loop port step observed (i # js) predicted n =
     (if \<not> n < kMaxPredictions then ([], predicted, n)
      else
        let candidate = uint port + predict_offset step i in
        if candidate < 1024 \<or> candidate > 65535 \<or> list_ex (\<lambda>o'. uint o' = candidate) observed \<or>
           word_of_int candidate \<in> set predicted
        then predict_loop port step observed js predicted n
        else case predict_loop port step observed js (word_of_int candidate # predicted) (Suc n) of
          (result, predicted', n') \<Rightarrow> (word_of_int candidate # result, predicted', n'))"

definition Observe :: "port_predictor \<Rightarrow> string \<Rightarrow> u16 \<Rightarrow> u16 list \<times> port_predictor" where
  "Observe rp grp port =
     (if port = 0 \<or> (map_of (rp_groups rp) grp = None \<and> length (rp_groups rp) \<ge> 8) then ([], rp)
      else
        let state = (case map_of (rp_groups rp) grp of Some g \<Rightarrow> g | None \<Rightarrow> \<lparr>pg_observed = [], pg_predicted = []\<rparr>)
        in if port \<in> set (pg_observed state) \<or> length (pg_observed state) \<ge> 8
           then ([], rp\<lparr>rp_groups := AList.update grp state (rp_groups rp)\<rparr>)
           else
             let observed = pg_observed state @ [port];
                 state = state\<lparr>pg_observed := observed\<rparr>
             in if length observed < 2 \<or> rp_predictions rp \<ge> kMaxPredictions
                then ([], rp\<lparr>rp_groups := AList.update grp state (rp_groups rp)\<rparr>)
                else case predict_loop port (predict_step observed) observed [1..8] (pg_predicted state)
                            (rp_predictions rp) of
                  (result, predicted, n) \<Rightarrow>
                    (result, rp\<lparr>rp_groups := AList.update grp (state\<lparr>pg_predicted := predicted\<rparr>) (rp_groups rp),
                                rp_predictions := n\<rparr>))"

section \<open>Properties of the predictor\<close>

definition predicted_of :: "port_predictor \<Rightarrow> string \<Rightarrow> u16 set" where
  "predicted_of rp g = (case map_of (rp_groups rp) g of None \<Rightarrow> {} | Some s \<Rightarrow> set (pg_predicted s))"

definition observed_of :: "port_predictor \<Rightarrow> string \<Rightarrow> u16 list" where
  "observed_of rp g = (case map_of (rp_groups rp) g of None \<Rightarrow> [] | Some s \<Rightarrow> pg_observed s)"

text \<open>At most 8 groups with at most 8 distinct observations each, and at most 32 predictions.\<close>

definition predictor_inv :: "port_predictor \<Rightarrow> bool" where
  "predictor_inv rp \<longleftrightarrow> length (rp_groups rp) \<le> 8 \<and> rp_predictions rp \<le> kMaxPredictions \<and>
     (\<forall>g. length (observed_of rp g) \<le> 8 \<and> distinct (observed_of rp g))"

lemma length_alist_update:
  "length (AList.update k v al) = (if map_of al k = None then Suc (length al) else length al)"
  by (induction al) auto

lemma uint_port: "0 \<le> c \<Longrightarrow> c \<le> 65535 \<Longrightarrow> uint (word_of_int c :: u16) = c"
  by (simp add: unsigned_of_int take_bit_int_eq_self)

definition loop_ok :: "u16 list \<Rightarrow> int list \<Rightarrow> u16 list \<Rightarrow> nat \<Rightarrow> u16 list \<times> u16 list \<times> nat \<Rightarrow> bool" where
  "loop_ok observed js predicted n r \<longleftrightarrow> (case r of (res, predicted', n') \<Rightarrow>
     set predicted' = set predicted \<union> set res \<and> distinct res \<and> set res \<inter> set predicted = {} \<and>
     set res \<inter> set observed = {} \<and> (\<forall>q \<in> set res. 1024 \<le> uint q) \<and> length res \<le> length js \<and>
     n' = n + length res \<and> (n \<le> kMaxPredictions \<longrightarrow> n' \<le> kMaxPredictions))"

lemma predict_loop_ok: "loop_ok observed js predicted n (predict_loop port step observed js predicted n)"
proof (induction js arbitrary: predicted n)
  case Nil then show ?case by (simp add: loop_ok_def)
next
  case (Cons i js)
  let ?c = "uint port + predict_offset step i"
  show ?case
  proof (cases "n < kMaxPredictions \<and> \<not> (?c < 1024 \<or> ?c > 65535 \<or> list_ex (\<lambda>o'. uint o' = ?c) observed \<or>
           (word_of_int ?c :: u16) \<in> set predicted)")
    case True
    obtain res pr n' where r: "predict_loop port step observed js (word_of_int ?c # predicted) (Suc n) = (res, pr, n')"
      by (metis surj_pair)
    have "predict_loop port step observed (i # js) predicted n = (word_of_int ?c # res, pr, n')"
      using True r by (simp add: Let_def)
    moreover have "uint (word_of_int ?c :: u16) = ?c" using True by (intro uint_port) auto
    moreover have "(word_of_int ?c :: u16) \<notin> set observed"
      using True \<open>uint (word_of_int ?c :: u16) = ?c\<close> by (auto simp: list_ex_iff)
    ultimately show ?thesis
      using True Cons.IH [of "word_of_int ?c # predicted" "Suc n"] by (auto simp: r loop_ok_def)
  next
    case False
    then show ?thesis using Cons.IH [of predicted n] by (auto simp: Let_def loop_ok_def)
  qed
qed

definition observe_ok :: "port_predictor \<Rightarrow> string \<Rightarrow> u16 \<Rightarrow> u16 list \<times> port_predictor \<Rightarrow> bool" where
  "observe_ok rp grp port r \<longleftrightarrow> (case r of (res, rp') \<Rightarrow>
     predictor_inv rp' \<and> rp_predictions rp' = rp_predictions rp + length res \<and> distinct res \<and> length res \<le> 8 \<and>
     (\<forall>g. predicted_of rp' g = predicted_of rp g \<union> (if g = grp then set res else {})) \<and>
     set res \<inter> predicted_of rp grp = {} \<and>
     (\<forall>q \<in> set res. 1024 \<le> uint q \<and> q \<noteq> port \<and> q \<notin> set (observed_of rp grp)))"

lemma Observe_ok:
  assumes inv: "predictor_inv rp"
  shows "observe_ok rp grp port (Observe rp grp port)"
proof (cases "port = 0 \<or> (map_of (rp_groups rp) grp = None \<and> length (rp_groups rp) \<ge> 8)")
  case True
  then show ?thesis using inv by (simp add: Observe_def observe_ok_def)
next
  case False
  define st where "st = (case map_of (rp_groups rp) grp of Some g \<Rightarrow> g | None \<Rightarrow> \<lparr>pg_observed = [], pg_predicted = []\<rparr>)"
  have ob: "pg_observed st = observed_of rp grp" "set (pg_predicted st) = predicted_of rp grp"
    by (auto simp: st_def observed_of_def predicted_of_def split: option.splits)
  have ol: "length (pg_observed st) \<le> 8" "distinct (pg_observed st)" using inv ob by (auto simp: predictor_inv_def)
  have upd: "predicted_of (rp\<lparr>rp_groups := AList.update grp s' (rp_groups rp), rp_predictions := n\<rparr>) g =
        (if g = grp then set (pg_predicted s') else predicted_of rp g)"
    "observed_of (rp\<lparr>rp_groups := AList.update grp s' (rp_groups rp), rp_predictions := n\<rparr>) g =
        (if g = grp then pg_observed s' else observed_of rp g)" for s' n g
    by (auto simp: predicted_of_def observed_of_def update_conv')
  note upd0 = upd [where n = "rp_predictions rp", simplified]
  have inv': "predictor_inv (rp\<lparr>rp_groups := AList.update grp s' (rp_groups rp), rp_predictions := n\<rparr>)"
    if "n \<le> kMaxPredictions" "length (pg_observed s') \<le> 8" "distinct (pg_observed s')" for s' n
    using that inv False by (auto simp: predictor_inv_def upd length_alist_update not_le)
  show ?thesis
  proof (cases "port \<in> set (pg_observed st) \<or> length (pg_observed st) \<ge> 8")
    case True
    then have "Observe rp grp port = ([], rp\<lparr>rp_groups := AList.update grp st (rp_groups rp), rp_predictions := rp_predictions rp\<rparr>)"
      using False by (auto simp: Observe_def st_def [symmetric] Let_def)
    then show ?thesis
      using inv' [of "rp_predictions rp" st] inv ol ob
      by (simp add: observe_ok_def upd0 predictor_inv_def)
  next
    case new: False
    let ?ob = "pg_observed st @ [port]"
    show ?thesis
    proof (cases "length ?ob < 2 \<or> rp_predictions rp \<ge> kMaxPredictions")
      case True
      then have "Observe rp grp port = ([], rp\<lparr>rp_groups := AList.update grp (st\<lparr>pg_observed := ?ob\<rparr>) (rp_groups rp),
          rp_predictions := rp_predictions rp\<rparr>)"
        using False new by (auto simp: Observe_def st_def [symmetric] Let_def)
      then show ?thesis
        using inv' [of "rp_predictions rp" "st\<lparr>pg_observed := ?ob\<rparr>"] inv ol ob new
        by (simp add: observe_ok_def upd0 predictor_inv_def)
    next
      case go: False
      obtain res pr n where r: "predict_loop port (predict_step ?ob) ?ob [1..8] (pg_predicted st) (rp_predictions rp) = (res, pr, n)"
        by (metis surj_pair)
      have "Observe rp grp port = (res, rp\<lparr>rp_groups := AList.update grp (st\<lparr>pg_observed := ?ob, pg_predicted := pr\<rparr>) (rp_groups rp),
              rp_predictions := n\<rparr>)"
        using False new go by (auto simp: Observe_def st_def [symmetric] Let_def r)
      moreover have "loop_ok ?ob [1..8] (pg_predicted st) (rp_predictions rp) (res, pr, n)"
        using predict_loop_ok [of ?ob "[1..8]" "pg_predicted st" "rp_predictions rp" port "predict_step ?ob"] r by simp
      ultimately show ?thesis
        using inv' [of n "st\<lparr>pg_observed := ?ob, pg_predicted := pr\<rparr>"] inv ol ob new
        by (auto simp: observe_ok_def loop_ok_def upd predictor_inv_def)
    qed
  qed
qed

text \<open>A history of observations and the predictions made, as pairs of group and port.\<close>

fun observe_run :: "port_predictor \<Rightarrow> (string \<times> u16) list \<Rightarrow> (string \<times> u16) list \<times> port_predictor" where
  "observe_run rp [] = ([], rp)"
| "observe_run rp ((g, p) # ops) =
     (case Observe rp g p of (res, rp') \<Rightarrow>
        (case observe_run rp' ops of (out, rp'') \<Rightarrow> (map (Pair g) res @ out, rp'')))"

lemma observe_run_ok:
  "predictor_inv rp \<Longrightarrow> observe_run rp ops = (out, rp') \<Longrightarrow>
   predictor_inv rp' \<and> distinct out \<and> rp_predictions rp' = rp_predictions rp + length out \<and>
   (\<forall>(g, q) \<in> set out. 1024 \<le> uint q \<and> q \<notin> predicted_of rp g)"
proof (induction rp ops arbitrary: out rule: observe_run.induct)
  case (2 rp g p ops)
  obtain res rp1 where o1: "Observe rp g p = (res, rp1)" by fastforce
  obtain out1 where o2: "observe_run rp1 ops = (out1, rp')" "out = map (Pair g) res @ out1"
    using 2 o1 by (auto split: prod.splits)
  have "observe_ok rp g p (res, rp1)" using Observe_ok [OF 2(2), of g p] o1 by simp
  moreover from this have "predictor_inv rp1" by (simp add: observe_ok_def)
  ultimately show ?case
    using 2(1) [OF o1 [symmetric] _ o2(1)] o2(2)
    by (auto simp: observe_ok_def distinct_map inj_on_def)
qed auto

text \<open>
  C29: Whatever ports are observed for whatever groups, a fresh predictor keeps at most 8 groups of at
  most 8 observations, makes at most 32 predictions in all, all of them above the well-known ports, and
  never predicts the same port for a group twice.
\<close>

theorem predictor_bounded:
  "case observe_run predictor_init observations of (out, rp) \<Rightarrow>
     length (rp_groups rp) \<le> 8 \<and> (\<forall>g. length (observed_of rp g) \<le> 8) \<and>
     length out = rp_predictions rp \<and> length out \<le> kMaxPredictions \<and> distinct out \<and>
     (\<forall>(g, q) \<in> set out. 1024 \<le> uint q)"
proof -
  obtain out rp where r: "observe_run predictor_init observations = (out, rp)" by fastforce
  have "predictor_inv predictor_init"
    by (simp add: predictor_inv_def predictor_init_def observed_of_def kMaxPredictions_def)
  then show ?thesis
    using observe_run_ok [OF _ r] r by (auto simp: predictor_inv_def predictor_init_def)
qed

theorem predictor_bounded_witness:
  "case observe_run predictor_init [(''g'', 4000), (''g'', 4002), (''g'', 4004)] of (out, rp) \<Rightarrow>
     out \<noteq> [] \<and> length out \<le> kMaxPredictions \<and> 1024 \<le> uint (snd (hd out))"
proof -
  obtain out rp where r: "observe_run predictor_init [(''g'', 4000), (''g'', 4002), (''g'', 4004)] = (out, rp)" by fastforce
  have "fst (observe_run predictor_init [(''g'', 4000), (''g'', 4002), (''g'', 4004)]) \<noteq> []" by code_simp
  then have "hd out \<in> set out" using r by simp
  then show ?thesis
    using predictor_bounded [of "[(''g'', 4000), (''g'', 4002), (''g'', 4004)]"] r by (auto simp: case_prod_beta)
qed

section \<open>The analysis does not depend on how ties are sorted\<close>

lemma linear_loop_iff:
  "linear_loop step linear ss \<longleftrightarrow> linear \<and>
     (\<forall>i < length ss - 1. ns_sequence (ss ! i) < ns_sequence (ss ! Suc i) \<and> port_diff (ss ! i) (ss ! Suc i) = step)"
  by (induction step linear ss rule: linear_loop.induct) (auto simp: All_less_Suc2)

lemma linear_loop_distinct:
  assumes "linear_loop step linear ss" "sorted (map ns_sequence ss)"
  shows "distinct (map ns_sequence ss)"
proof -
  have adj: "ns_sequence (ss ! i) < ns_sequence (ss ! Suc i)" if "Suc i < length ss" for i
    using assms(1) that by (auto simp: linear_loop_iff)
  have "ns_sequence (ss ! i) < ns_sequence (ss ! j)" if "i < j" "j < length ss" for i j
    using that
  proof (induction j)
    case (Suc j)
    then show ?case using adj [of j] by (cases "i = j") (auto intro: less_trans)
  qed simp
  then show ?thesis by (simp add: distinct_conv_nth) (metis less_irrefl linorder_neqE_nat)
qed

lemma sorted_by_unique:
  assumes "sorted (map ns_sequence xs)" "sorted (map ns_sequence ys)" "mset xs = mset ys"
    "distinct (map ns_sequence xs)"
  shows "xs = ys"
proof -
  have "set xs = set ys" using assms(3) by (metis set_mset_mset)
  moreover have "mset (map ns_sequence xs) = mset (map ns_sequence ys)" using assms(3) by simp
  then have "distinct (map ns_sequence ys)" using assms(4) mset_eq_imp_distinct_iff by blast
  moreover have "inj_on ns_sequence (set xs)" using assms(4) by (simp add: distinct_map)
  ultimately show ?thesis using assms map_sorted_distinct_set_unique [of ns_sequence xs ys] by simp
qed

lemma list_all_first:
  "xs \<noteq> [] \<Longrightarrow> list_all (\<lambda>s. f s = f (hd xs)) xs \<longleftrightarrow> (\<forall>a \<in> set xs. \<forall>b \<in> set xs. f a = f b)"
  by (cases xs) (auto simp: list_all_iff)

lemma analyze_sorted_perm:
  assumes xs: "sorted (map ns_sequence xs)" and ys: "sorted (map ns_sequence ys)"
    and perm: "mset xs = mset ys" and ne: "xs \<noteq> []"
  shows "analyze_sorted r xs = analyze_sorted r ys"
proof (cases "xs = ys")
  case False
  have dx: "\<not> distinct (map ns_sequence xs)" "\<not> distinct (map ns_sequence ys)"
    using sorted_by_unique [OF xs ys perm] sorted_by_unique [OF ys xs perm [symmetric]] False by auto
  then have nl: "\<not> linear_loop step linear xs" "\<not> linear_loop step linear ys" for step linear
    using linear_loop_distinct xs ys by blast+
  have ne': "ys \<noteq> []" using ne perm by auto
  have st: "set xs = set ys" "length xs = length ys" using perm by (metis set_mset_mset, metis size_mset)
  have ex: "list_ex (\<lambda>s. ns_server_ip s \<noteq> ns_server_ip (hd zs)) zs \<longleftrightarrow>
      \<not> list_all (\<lambda>s. ns_server_ip s = ns_server_ip (hd zs)) zs" for zs
    by (auto simp: list_ex_iff list_all_iff)
  have st2: "list_all (\<lambda>s. ns_mapped_ip s = ns_mapped_ip (hd zs) \<and> ns_mapped_port s = ns_mapped_port (hd zs)) zs \<longleftrightarrow>
      list_all (\<lambda>s. (ns_mapped_ip s, ns_mapped_port s) = (ns_mapped_ip (hd zs), ns_mapped_port (hd zs))) zs" for zs
    by simp
  show ?thesis
    unfolding analyze_sorted_def ex st2 Let_def
    by (simp only: list_all_first [OF ne] list_all_first [OF ne'] nl st
        list_all_first [OF ne, of "\<lambda>s. (ns_mapped_ip s, ns_mapped_port s)"]
        list_all_first [OF ne', of "\<lambda>s. (ns_mapped_ip s, ns_mapped_port s)"] if_False)
qed simp

lemma analyze_perm:
  assumes "mset ys = mset (unique_samples [] samples)" "sorted (map ns_sequence ys)"
    and "2 \<le> length ys"
  shows "AnalyzeNatMappings samples = analyze_sorted (nat_analysis_init\<lparr>na_samples := length ys\<rparr>) ys"
proof -
  have l: "length (unique_samples [] samples) = length ys" using assms(1) by (metis size_mset)
  then have "sort_key ns_sequence (unique_samples [] samples) \<noteq> []"
    using assms(3) by (metis length_sort list.size(3) not_numeral_le_zero)
  then show ?thesis
    using assms l analyze_sorted_perm [of "sort_key ns_sequence (unique_samples [] samples)" ys]
    by (auto simp: AnalyzeNatMappings_def Let_def)
qed

definition linear_progression :: "nat_sample list \<Rightarrow> int \<Rightarrow> bool" where
  "linear_progression ys step \<longleftrightarrow> 3 \<le> length ys \<and> sorted_wrt (<) (map ns_sequence ys) \<and>
     (\<forall>s \<in> set ys. ns_mapped_ip s = ns_mapped_ip (hd ys)) \<and>
     (\<forall>i < length ys - 1. port_diff (ys ! i) (ys ! Suc i) = step) \<and> step \<noteq> 0 \<and> \<bar>step\<bar> \<le> 1024"

lemma analyze_sorted_linear:
  assumes s: "sorted (map ns_sequence ys)" and l: "2 \<le> length ys"
  shows "na_port_pattern (analyze_sorted r ys) = ''linear-observed'' \<and> na_port_step (analyze_sorted r ys) = step \<longleftrightarrow>
    linear_progression ys step"
proof
  assume a: "na_port_pattern (analyze_sorted r ys) = ''linear-observed'' \<and> na_port_step (analyze_sorted r ys) = step"
  let ?st = "port_diff (hd ys) (ys ! 1)"
  have b: "3 \<le> length ys" "\<forall>s \<in> set ys. ns_mapped_ip s = ns_mapped_ip (hd ys)" "step = ?st"
    "linear_loop ?st (?st \<noteq> 0 \<and> -1024 \<le> ?st \<and> ?st \<le> 1024) ys"
    using a by (auto simp: analyze_sorted_def Let_def list_all_iff split: if_splits)
  have "sorted_wrt (<) (map ns_sequence ys)"
    using linear_loop_distinct [OF b(4) s] s strict_sorted_iff by blast
  then show "linear_progression ys step"
    using b by (auto simp: linear_progression_def linear_loop_iff)
next
  assume p: "linear_progression ys step"
  have hd: "hd ys = ys ! 0" using l by (cases ys) auto
  have d0: "port_diff (ys ! 0) (ys ! 1) = step" using p l by (auto simp: linear_progression_def)
  moreover have "step \<noteq> 0" using p by (simp add: linear_progression_def)
  ultimately have "ns_mapped_port (ys ! 1) \<noteq> ns_mapped_port (ys ! 0)" by (auto simp: port_diff_def)
  moreover have "ys ! 1 \<in> set ys" using l by simp
  ultimately have "\<not> list_all (\<lambda>s. ns_mapped_ip s = ns_mapped_ip (hd ys) \<and> ns_mapped_port s = ns_mapped_port (hd ys)) ys"
    by (auto simp: list_all_iff hd)
  moreover have "linear_loop step (step \<noteq> 0 \<and> -1024 \<le> step \<and> step \<le> 1024) ys"
    using p by (auto simp: linear_loop_iff linear_progression_def sorted_wrt_iff_nth_less)
  ultimately show "na_port_pattern (analyze_sorted r ys) = ''linear-observed'' \<and> na_port_step (analyze_sorted r ys) = step"
    using p d0 hd by (auto simp: analyze_sorted_def Let_def linear_progression_def list_all_iff)
qed

text \<open>
  C30: The analysis reports a linear port pattern with a step exactly when the complete samples of
  distinct server endpoints can be arranged by strictly increasing sequence number, at least three of
  them, with one mapped address and the step as the difference of every two neighbouring ports. So the
  order in which \<open>std::sort\<close> leaves equal sequence numbers does not matter.
\<close>

theorem nat_analysis_linear:
  "(na_port_pattern (AnalyzeNatMappings samples) = ''linear-observed'' \<and> na_port_step (AnalyzeNatMappings samples) = step) =
   (\<exists>ys. mset ys = mset (unique_samples [] samples) \<and> linear_progression ys step)"
proof (cases "2 \<le> length (unique_samples [] samples)")
  case True
  let ?ys = "sort_key ns_sequence (unique_samples [] samples)"
  have l: "2 \<le> length ys" if "mset ys = mset (unique_samples [] samples)" for ys
    using True that by (metis size_mset)
  have "AnalyzeNatMappings samples = analyze_sorted (nat_analysis_init\<lparr>na_samples := length ?ys\<rparr>) ?ys"
    using True by (intro analyze_perm) auto
  then have eq: "(na_port_pattern (AnalyzeNatMappings samples) = ''linear-observed'' \<and>
      na_port_step (AnalyzeNatMappings samples) = step) = linear_progression ?ys step"
    using analyze_sorted_linear [of ?ys] True by simp
  have "linear_progression ?ys step" if "mset ys = mset (unique_samples [] samples)" "linear_progression ys step" for ys
  proof -
    have "sorted (map ns_sequence ys)" using that(2) strict_sorted_iff by (auto simp: linear_progression_def)
    then show ?thesis
      using eq analyze_perm [OF that(1) _ l [OF that(1)]] analyze_sorted_linear [OF _ l [OF that(1)]] that(2) by simp
  qed
  then show ?thesis unfolding eq by (metis mset_sort)
next
  case False
  have "\<not> linear_progression ys step" if "mset ys = mset (unique_samples [] samples)" for ys
    using False that by (metis size_mset linear_progression_def numeral_le_iff order_trans semiring_norm(68,71,72,77) numeral_3_eq_3 numeral_2_eq_2 Suc_leD)
  then show ?thesis using False by (auto simp: AnalyzeNatMappings_def nat_analysis_init_def)
qed

section \<open>Public addresses are those outside the reserved blocks\<close>

text \<open>Blocks as pairs of the prefix (the leading bits as a number) and its length.\<close>

definition reserved_blocks :: "(nat \<times> nat) list" where
  "reserved_blocks =
     [(0, 8), (10, 8), (127, 8), (7, 3),
      (100 * 2 ^ 2 + 64 div 2 ^ 6, 10), (169 * 2 ^ 8 + 254, 16), (172 * 2 ^ 4 + 16 div 2 ^ 4, 12),
      (192 * 2 ^ 8 + 168, 16), (192 * 2 ^ 16, 24), (198 * 2 ^ 7 + 18 div 2, 15)]"

definition ipv4_number :: "nat \<Rightarrow> nat \<Rightarrow> nat \<Rightarrow> nat \<Rightarrow> nat" where
  "ipv4_number a b c d = ((a * 256 + b) * 256 + c) * 256 + d"

definition in_block :: "nat \<Rightarrow> nat \<times> nat \<Rightarrow> bool" where
  "in_block addr blk \<longleftrightarrow> addr div 2 ^ (32 - snd blk) = fst blk"

lemma div_shift: "d < 256 \<Longrightarrow> (x * 256 + d) div (256 * k) = x div (k :: nat)"
  by (simp add: div_mult2_eq)

lemma prefix_split: "y < n \<Longrightarrow> x * n + y = a * n + b \<longleftrightarrow> x = a \<and> y = b" if "b < n" for x y a b n :: nat
proof
  assume "y < n" "x * n + y = a * n + b"
  then have "(x * n + y) div n = (a * n + b) div n" "(x * n + y) mod n = (a * n + b) mod n" by simp_all
  then show "x = a \<and> y = b" using \<open>y < n\<close> that by simp
qed simp

lemma number_prefixes:
  assumes "a < 256" "b < 256" "c < 256" "d < 256"
  shows "ipv4_number a b c d div 2 ^ 24 = a" "ipv4_number a b c d div 2 ^ 29 = a div 32"
    "ipv4_number a b c d div 2 ^ 22 = a * 4 + b div 64" "ipv4_number a b c d div 2 ^ 16 = a * 256 + b"
    "ipv4_number a b c d div 2 ^ 20 = a * 16 + b div 16" "ipv4_number a b c d div 2 ^ 8 = (a * 256 + b) * 256 + c"
    "ipv4_number a b c d div 2 ^ 17 = a * 128 + b div 2"
proof -
  have 8: "ipv4_number a b c d div 256 = (a * 256 + b) * 256 + c"
    and 16: "ipv4_number a b c d div 256 div 256 = a * 256 + b"
    and 24: "ipv4_number a b c d div 256 div 256 div 256 = a"
    using assms by (simp_all add: ipv4_number_def)
  have p: "ipv4_number a b c d div (256 * (256 * k)) = (a * 256 + b) div k" for k
    unfolding div_mult2_eq 16 by (rule refl)
  show "ipv4_number a b c d div 2 ^ 8 = (a * 256 + b) * 256 + c" using 8 by simp
  show "ipv4_number a b c d div 2 ^ 16 = a * 256 + b" using p [of 1] by simp
  show "ipv4_number a b c d div 2 ^ 24 = a" using p [of 256] assms by simp
  show "ipv4_number a b c d div 2 ^ 29 = a div 32"
    using p [of "256 * 32"] div_mult2_eq [of "a * 256 + b" 256 32] assms by simp
  have "(a * (k * m) + b) div m = a * k + b div m" if "0 < m" for k m :: nat
    using that div_mult_self3 [of m "a * k" b] by (simp add: ac_simps)
  from this [of 64 4] this [of 16 16] this [of 2 128]
  show "ipv4_number a b c d div 2 ^ 22 = a * 4 + b div 64" "ipv4_number a b c d div 2 ^ 20 = a * 16 + b div 16"
    "ipv4_number a b c d div 2 ^ 17 = a * 128 + b div 2"
    using p [of 64] p [of 16] p [of 2] by simp_all
qed

lemma div_ranges:
  fixes a b :: nat
  shows "a < 256 \<Longrightarrow> a div 32 = 7 \<longleftrightarrow> \<not> a < 224" "b div 64 = 1 \<longleftrightarrow> 64 \<le> b \<and> b \<le> 127"
    "b div 16 = 1 \<longleftrightarrow> 16 \<le> b \<and> b \<le> 31" "b div 2 = 9 \<longleftrightarrow> b = 18 \<or> b = 19"
  by auto

lemma block_tests:
  assumes "a < 256" "b < 256" "c < 256" "d < 256"
  defines "n \<equiv> ipv4_number a b c d"
  shows "in_block n (k, 8) \<longleftrightarrow> a = k" "in_block n (7, 3) \<longleftrightarrow> \<not> a < 224"
    "in_block n (100 * 2 ^ 2 + 64 div 2 ^ 6, 10) \<longleftrightarrow> a = 100 \<and> 64 \<le> b \<and> b \<le> 127"
    "in_block n (169 * 2 ^ 8 + 254, 16) \<longleftrightarrow> a = 169 \<and> b = 254"
    "in_block n (172 * 2 ^ 4 + 16 div 2 ^ 4, 12) \<longleftrightarrow> a = 172 \<and> 16 \<le> b \<and> b \<le> 31"
    "in_block n (192 * 2 ^ 8 + 168, 16) \<longleftrightarrow> a = 192 \<and> b = 168"
    "in_block n (192 * 2 ^ 16, 24) \<longleftrightarrow> a = 192 \<and> b = 0 \<and> c = 0"
    "in_block n (198 * 2 ^ 7 + 18 div 2, 15) \<longleftrightarrow> a = 198 \<and> (b = 18 \<or> b = 19)"
proof -
  have b: "b div 64 < 4" "b div 16 < 16" "b div 2 < 128" using assms(2) by (simp_all add: less_mult_imp_div_less)
  note p = number_prefixes [OF assms(1-4), folded n_def]
  show "in_block n (k, 8) \<longleftrightarrow> a = k" using p(1) by (simp add: in_block_def)
  show "in_block n (7, 3) \<longleftrightarrow> \<not> a < 224" using p(2) div_ranges(1) [OF assms(1)] by (simp add: in_block_def)
  show "in_block n (100 * 2 ^ 2 + 64 div 2 ^ 6, 10) \<longleftrightarrow> a = 100 \<and> 64 \<le> b \<and> b \<le> 127"
    using p(3) prefix_split [of 1 4 "b div 64" a 100] b(1) div_ranges(2) [of b] by (simp add: in_block_def)
  show "in_block n (169 * 2 ^ 8 + 254, 16) \<longleftrightarrow> a = 169 \<and> b = 254"
    using p(4) prefix_split [of 254 256 b a 169] assms(2) by (simp add: in_block_def)
  show "in_block n (172 * 2 ^ 4 + 16 div 2 ^ 4, 12) \<longleftrightarrow> a = 172 \<and> 16 \<le> b \<and> b \<le> 31"
    using p(5) prefix_split [of 1 16 "b div 16" a 172] b(2) div_ranges(3) [of b] by (simp add: in_block_def)
  show "in_block n (192 * 2 ^ 8 + 168, 16) \<longleftrightarrow> a = 192 \<and> b = 168"
    using p(4) prefix_split [of 168 256 b a 192] assms(2) by (simp add: in_block_def)
  show "in_block n (192 * 2 ^ 16, 24) \<longleftrightarrow> a = 192 \<and> b = 0 \<and> c = 0"
    using p(6) prefix_split [of 0 256 c "a * 256 + b" "192 * 256"] prefix_split [of 0 256 b a 192] assms(2,3)
    by (simp add: in_block_def)
  show "in_block n (198 * 2 ^ 7 + 18 div 2, 15) \<longleftrightarrow> a = 198 \<and> (b = 18 \<or> b = 19)"
    using p(7) prefix_split [of 9 128 "b div 2" a 198] b(3) div_ranges(4) [of b] by (simp add: in_block_def)
qed

lemma blocks_public:
  assumes "a < 256" "b < 256" "c < 256" "d < 256"
  shows "public_octets a b c \<longleftrightarrow> (\<forall>blk \<in> set reserved_blocks. \<not> in_block (ipv4_number a b c d) blk)"
  unfolding reserved_blocks_def list.set ball_simps insert_iff block_tests [OF assms] public_octets_def
  by blast

lemma pub_digits_stop: "stops rest \<Longrightarrow> pub_digits n cnt rest = Some (n, cnt, rest)"
  by (cases rest) (auto simp: stops_def)

lemma pub_octet_dec:
  assumes n: "n < 256" and rest: "stops rest"
  shows "pub_octet (dec_octet n @ rest) = Some (n, rest)"
proof -
  consider "n < 10" | "10 \<le> n" "n < 100" | "100 \<le> n" by linarith
  then show ?thesis
  proof cases
    case 1 then show ?thesis using rest by (simp add: dec_octet_def pub_octet_def pub_digits_stop Let_def)
  next
    case 2
    then have "n div 10 < 10" by auto
    then show ?thesis using 2 rest by (simp add: dec_octet_def pub_octet_def pub_digits_stop Let_def)
  next
    case 3
    have "n div 100 < 10" using n by auto
    moreover have "(n div 100 * 10 + n div 10 mod 10) * 10 + n mod 10 = n" 
      using octet_digits [of n] by simp
    ultimately show ?thesis using 3 n rest by (simp add: dec_octet_def pub_octet_def pub_digits_stop Let_def)
  qed
qed

lemma pub_parse_dotted:
  assumes "a < 256" "b < 256" "c < 256" "d < 256"
  shows "pub_parse (dotted a b c d) = Some (a, b, c, d)"
  using assms pub_octet_dec [of d "[]"] by (simp add: pub_parse_def dotted_def pub_octet_dec ipv4_dot_def)

text \<open>
  For the dotted notation of an address \<open>IsPublicIpv4ForPrediction\<close> is false exactly in the
  reserved blocks 0/8, 10/8, 127/8, 224/3, 100.64/10, 169.254/16, 172.16/12, 192.168/16, 192.0.0/24 and
  198.18/15.
\<close>

theorem public_ipv4_blocks:
  assumes "a < 256" "b < 256" "c < 256" "d < 256"
  shows "IsPublicIpv4ForPrediction (dotted a b c d) =
    (\<forall>blk \<in> set reserved_blocks. \<not> in_block (ipv4_number a b c d) blk)"
  using pub_parse_dotted [OF assms] blocks_public [OF assms] by (simp add: IsPublicIpv4ForPrediction_def)

theorem public_ipv4_blocks_witness:
  "\<not> IsPublicIpv4ForPrediction (dotted 192 168 1 7) \<and> dotted 192 168 1 7 = ''192.168.1.7''"
proof -
  have "in_block (ipv4_number 192 168 1 7) (192 * 2 ^ 8 + 168, 16)"
    using block_tests(6) [of 192 168 1 7] by simp
  moreover have "dotted 192 168 1 7 = ''192.168.1.7''" by code_simp
  ultimately show ?thesis using public_ipv4_blocks [of 192 168 1 7] by (auto simp: reserved_blocks_def)
qed

end
