(* ===== verification/Punch_Config.thy ===== *)
theory Punch_Config
  imports Punch_Protocol
begin

text \<open>
  The configuration of hole punching (\<^verbatim>\<open>src/ice/punch_config.cpp\<close>): defaults, validation, overrides
  from the environment and eligibility. The environment is the parameter \<open>get\<close> (the code passes a
  lookup function as well), with the empty string for an unset variable.
\<close>

section \<open>Configuration\<close>

datatype punch_mode = Off | PoolWide

record punch_config =
  pc_mode :: punch_mode
  trigger_delay_ms :: u32
  mapping_sample_max_age_ms :: u32
  pool_size :: u32
  target_port_count :: u32
  probe_pps :: u32
  burst_packets :: u32
  pool_probe_rounds :: u32
  round_duration_ms :: u32
  ice_finish_reserve_ms :: u32
  probe_packet_budget :: u32
  control_packet_budget :: u32
  promoted_endpoint_limit :: u32

definition config_init :: punch_config where
  "config_init = \<lparr>pc_mode = Off, trigger_delay_ms = 1500, mapping_sample_max_age_ms = 15000, pool_size = 128,
     target_port_count = 1024, probe_pps = 128, burst_packets = 8, pool_probe_rounds = 3,
     round_duration_ms = 10000, ice_finish_reserve_ms = 3000, probe_packet_budget = 1024,
     control_packet_budget = 48, promoted_endpoint_limit = 4\<rparr>"

definition enabled :: "punch_config \<Rightarrow> bool" where
  "enabled c = (pc_mode c \<noteq> Off)"

definition Validate :: "punch_config \<Rightarrow> bool" where
  "Validate c =
     (if pc_mode c \<noteq> Off \<and> pc_mode c \<noteq> PoolWide then False
      else if trigger_delay_ms c > 15000 \<or> mapping_sample_max_age_ms c = 0 \<or>
        mapping_sample_max_age_ms c > 15000 \<or> pool_size c = 0 \<or> pool_size c > 128 \<or>
        target_port_count c = 0 \<or> target_port_count c > 1024 \<or> probe_pps c = 0 \<or>
        probe_pps c > 200 \<or> burst_packets c = 0 \<or> burst_packets c > 8 \<or>
        pool_probe_rounds c = 0 \<or> pool_probe_rounds c > 3 \<or> round_duration_ms c = 0 \<or>
        round_duration_ms c > 15000 \<or> ice_finish_reserve_ms c < 3000 \<or>
        ice_finish_reserve_ms c > 15000 \<or> probe_packet_budget c = 0 \<or>
        probe_packet_budget c > 1024 \<or> control_packet_budget c = 0 \<or>
        control_packet_budget c > 48 \<or> promoted_endpoint_limit c = 0 \<or>
        promoted_endpoint_limit c > 8 then False
      else True)"

text \<open>
  \<open>std::from_chars\<close> for \<open>uint32_t\<close>: the longest run of decimal digits, an error without a digit or
  beyond 32 bits; the second component is the rest at which \<open>ptr\<close> points.
\<close>

fun chars_loop :: "nat \<Rightarrow> string \<Rightarrow> nat \<times> string" where
  "chars_loop n (c # cs) = (if is_digit c then chars_loop (n * 10 + digit_value c) cs else (n, c # cs))"
| "chars_loop n [] = (n, [])"

definition from_chars :: "string \<Rightarrow> (u32 \<times> string) option" where
  "from_chars s =
     (if s = [] \<or> \<not> is_digit (hd s) then None
      else case chars_loop 0 s of (n, rest) \<Rightarrow> if n < 2 ^ 32 then Some (of_nat n, rest) else None)"

definition config_fields :: "(string \<times> (u32 \<Rightarrow> punch_config \<Rightarrow> punch_config)) list" where
  "config_fields =
     [(''TRIGGER_DELAY_MS'', \<lambda>n. trigger_delay_ms_update (\<lambda>_. n)),
      (''SAMPLE_MAX_AGE_MS'', \<lambda>n. mapping_sample_max_age_ms_update (\<lambda>_. n)),
      (''POOL_SIZE'', \<lambda>n. pool_size_update (\<lambda>_. n)),
      (''TARGET_PORT_COUNT'', \<lambda>n. target_port_count_update (\<lambda>_. n)),
      (''PROBE_PPS'', \<lambda>n. probe_pps_update (\<lambda>_. n)),
      (''BURST_PACKETS'', \<lambda>n. burst_packets_update (\<lambda>_. n)),
      (''POOL_PROBE_ROUNDS'', \<lambda>n. pool_probe_rounds_update (\<lambda>_. n)),
      (''ROUND_DURATION_MS'', \<lambda>n. round_duration_ms_update (\<lambda>_. n)),
      (''ICE_FINISH_RESERVE_MS'', \<lambda>n. ice_finish_reserve_ms_update (\<lambda>_. n)),
      (''PROBE_PACKET_BUDGET'', \<lambda>n. probe_packet_budget_update (\<lambda>_. n)),
      (''CONTROL_PACKET_BUDGET'', \<lambda>n. control_packet_budget_update (\<lambda>_. n)),
      (''PROMOTED_ENDPOINT_LIMIT'', \<lambda>n. promoted_endpoint_limit_update (\<lambda>_. n))]"

text \<open>The loop over the fields; \<^const>\<open>None\<close> is the early return of a default configuration.\<close>

fun read_fields ::
  "(string \<Rightarrow> string) \<Rightarrow> (string \<times> (u32 \<Rightarrow> punch_config \<Rightarrow> punch_config)) list \<Rightarrow> punch_config \<Rightarrow> punch_config option" where
  "read_fields get [] c = Some c"
| "read_fields get ((name, setter) # fs) c =
     (let value = get (''MINIRTC_UDP_PUNCH_'' @ name) in
      if value = [] then read_fields get fs c
      else case from_chars value of
        None \<Rightarrow> None
      | Some (n, rest) \<Rightarrow> if rest \<noteq> [] then None else read_fields get fs (setter n c))"

definition ReadPunchConfig :: "(string \<Rightarrow> string) \<Rightarrow> bool \<Rightarrow> punch_config" where
  "ReadPunchConfig get platform_supported =
     (if \<not> platform_supported then config_init
      else case read_fields get config_fields (config_init\<lparr>pc_mode := PoolWide\<rparr>) of
        None \<Rightarrow> config_init
      | Some c \<Rightarrow> if \<not> Validate c then config_init else c)"

definition PunchEligible :: "punch_config \<Rightarrow> bool \<Rightarrow> u32 \<Rightarrow> bool \<Rightarrow> bool \<Rightarrow> u32 \<Rightarrow> bool" where
  "PunchEligible config platform_supported backend_abi reliable turn_auto components =
     (platform_supported \<and> backend_abi = 2 \<and> enabled config \<and>
      Validate config \<and> \<not> reliable \<and> turn_auto \<and> components = 1)"

section \<open>Properties\<close>

lemma config_init_valid: "Validate config_init" "\<not> enabled config_init"
  by (simp_all add: Validate_def config_init_def enabled_def)

lemma read_fields_default: "(\<forall>f \<in> set fs. get (''MINIRTC_UDP_PUNCH_'' @ fst f) = []) \<Longrightarrow> read_fields get fs c = Some c"
  by (induction fs) (auto simp: Let_def)

lemma read_fields_mode:
  "read_fields get fs c = Some c' \<Longrightarrow> \<forall>f \<in> set fs. \<forall>n d. pc_mode (snd f n d) = pc_mode d \<Longrightarrow> pc_mode c' = pc_mode c"
  by (induction get fs c rule: read_fields.induct) (auto simp: Let_def split: if_splits option.splits)

lemma config_fields_mode: "\<forall>f \<in> set config_fields. \<forall>n d. pc_mode (snd f n d) = pc_mode d"
  by (simp add: config_fields_def)

lemma chars_loop_digits: "list_all is_digit s \<Longrightarrow> chars_loop n s = (foldl (\<lambda>n c. n * 10 + digit_value c) n s, [])"
  by (induction s arbitrary: n) auto

lemma chars_loop_all: "chars_loop n s = (m, []) \<Longrightarrow> list_all is_digit s \<and> m = foldl (\<lambda>n c. n * 10 + digit_value c) n s"
  by (induction n s rule: chars_loop.induct) (auto split: if_splits)

text \<open>A variable is accepted exactly when it is a decimal number below \<open>2^32\<close>.\<close>

lemma from_chars_iff:
  "from_chars s = Some (n, []) \<longleftrightarrow>
     s \<noteq> [] \<and> list_all is_digit s \<and> foldl (\<lambda>n c. n * 10 + digit_value c) 0 s < 2 ^ 32 \<and>
     n = of_nat (foldl (\<lambda>n c. n * 10 + digit_value c) 0 s)"
proof (cases "list_all is_digit s")
  case True
  then show ?thesis using chars_loop_digits [OF True, of 0] by (cases s) (auto simp: from_chars_def)
next
  case False
  obtain m rest where r: "chars_loop 0 s = (m, rest)" by fastforce
  have "rest \<noteq> []" using chars_loop_all [of 0 s m] r False by auto
  then show ?thesis using False by (simp add: from_chars_def r)
qed


end
