(* ===== verification/Punch_Plan.thy ===== *)
theory Punch_Plan
  imports Punch_Config Nat_Traversal "HOL-Library.List_Lexorder" "HOL-Library.Product_Lexorder" "HOL-Library.Char_ord"
begin

text \<open>
  From observed mappings to the agreed punching plan (\<^verbatim>\<open>src/ice/punch_scheduler.cpp\<close>, first part):
  classification of mapping snapshots, choice of a snapshot, the HELLO message, and the plan that both
  peers derive from the two HELLO messages. Times are 64-bit milliseconds of a monotonic clock, as
  integers.

  The accessors on JSON values read members that the schema check has found: \<open>MakePunchPlan\<close> looks at
  a HELLO only after \<open>ControlPayload\<close> accepted it.
\<close>

section \<open>Mapping snapshots\<close>

record mapping_sample =
  ms_socket :: u64
  ms_generation :: u64
  ms_server_ip :: string
  ms_mapped_ip :: string
  ms_server_port :: u16
  ms_mapped_port :: u16
  ms_received :: int
  ms_sequence :: u32

record mapping_snapshot =
  sn_socket :: u64
  sn_generation :: u64
  sn_local_ip :: string
  sn_foundation :: string
  sn_local_port :: u16
  sn_component :: u32
  sn_samples :: "mapping_sample list"

datatype punch_mapping = Unknown | StableObserved | DependentObserved

fun classify_loop ::
  "mapping_snapshot \<Rightarrow> u64 \<Rightarrow> int \<Rightarrow> u32 \<Rightarrow> mapping_sample list \<Rightarrow> string \<Rightarrow> string set \<Rightarrow> u16 set \<Rightarrow>
     (string set \<times> u16 set) option" where
  "classify_loop s gen now age [] ip servers ports = Some (servers, ports)"
| "classify_loop s gen now age (v # vs) ip servers ports =
     (if ms_socket v \<noteq> sn_socket s \<or> ms_generation v \<noteq> gen \<or>
         ms_received v > now \<or> now - ms_received v > uint age \<or>
         \<not> IsPublicIpv4ForPrediction (ms_server_ip v) \<or> ms_server_port v = 0 \<or>
         \<not> IsPublicIpv4ForPrediction (ms_mapped_ip v) \<or> ms_mapped_port v = 0
      then None
      else if ip \<noteq> [] \<and> ip \<noteq> ms_mapped_ip v then None
      else classify_loop s gen now age vs (ms_mapped_ip v) (insert (ms_server_ip v) servers)
             (insert (ms_mapped_port v) ports))"

definition ClassifyPunchMapping :: "mapping_snapshot \<Rightarrow> u64 \<Rightarrow> int \<Rightarrow> u32 \<Rightarrow> punch_mapping" where
  "ClassifyPunchMapping s gen now age =
     (if sn_socket s = 0 \<or> gen = 0 \<or> sn_generation s \<noteq> gen \<or> sn_local_port s = 0 \<or>
         \<not> ValidIpv4 (sn_local_ip s) \<or> sn_component s \<noteq> 1 \<or> sn_foundation s = [] \<or>
         length (sn_samples s) < 2 \<or> length (sn_samples s) > 32
      then Unknown
      else case classify_loop s gen now age (sn_samples s) [] {} {} of
        None \<Rightarrow> Unknown
      | Some (servers, ports) \<Rightarrow>
          if card servers < 2 then Unknown
          else if card ports = 1 then StableObserved else DependentObserved)"

type_synonym mapping_rank = "int \<times> int \<times> int \<times> string \<times> u16 \<times> string \<times> u64"

text \<open>The copy of a snapshot without its expired samples.\<close>

definition fresh_samples :: "int \<Rightarrow> u32 \<Rightarrow> mapping_snapshot \<Rightarrow> mapping_snapshot" where
  "fresh_samples now age s = s\<lparr>sn_samples := filter (\<lambda>v. \<not> now - ms_received v > uint age) (sn_samples s)\<rparr>"

definition oldest_received :: "mapping_sample list \<Rightarrow> int" where
  "oldest_received vs = Min (set (map ms_received vs))"

definition snapshot_rank :: "string \<Rightarrow> u16 \<Rightarrow> punch_mapping \<Rightarrow> mapping_snapshot \<Rightarrow> mapping_rank" where
  "snapshot_rank selected_ip selected_port mapping s =
     (let same_ip = (sn_local_ip s = selected_ip);
          path = (if same_ip then (if sn_local_port s = selected_port then 0 else 1) else 2)
      in (path, if mapping = StableObserved then 0 else 1, - oldest_received (sn_samples s),
          sn_local_ip s, sn_local_port s, sn_foundation s, sn_socket s))"

fun select_loop ::
  "string \<Rightarrow> u16 \<Rightarrow> u64 \<Rightarrow> int \<Rightarrow> u32 \<Rightarrow> mapping_snapshot list \<Rightarrow>
     (mapping_rank \<times> mapping_snapshot) option \<Rightarrow> (mapping_rank \<times> mapping_snapshot) option" where
  "select_loop ip port gen now age [] best = best"
| "select_loop ip port gen now age (s # ss) best =
     (let snapshot = fresh_samples now age s;
          mapping = ClassifyPunchMapping snapshot gen now age
      in if mapping = Unknown then select_loop ip port gen now age ss best
         else let rank = snapshot_rank ip port mapping snapshot in
           if best = None \<or> rank < fst (the best)
           then select_loop ip port gen now age ss (Some (rank, snapshot))
           else select_loop ip port gen now age ss best)"

definition SelectPunchMapping ::
  "mapping_snapshot list \<Rightarrow> string \<Rightarrow> u16 \<Rightarrow> u64 \<Rightarrow> int \<Rightarrow> u32 \<Rightarrow> mapping_snapshot option" where
  "SelectPunchMapping snapshots selected_ip selected_port gen now age =
     map_option snd (select_loop selected_ip selected_port gen now age snapshots None)"

section \<open>The HELLO message\<close>

definition jword :: "'a::len word \<Rightarrow> json" where "jword w = JInt (uint w)"

definition PunchBudgetJson :: "punch_config \<Rightarrow> json" where
  "PunchBudgetJson c = JObject
     [(''pool_size'', jword (pool_size c)),
      (''target_port_count'', jword (target_port_count c)),
      (''probe_pps'', jword (probe_pps c)),
      (''burst_packets'', jword (burst_packets c)),
      (''pool_probe_rounds'', jword (pool_probe_rounds c)),
      (''round_duration_ms'', jword (round_duration_ms c)),
      (''ice_finish_reserve_ms'', jword (ice_finish_reserve_ms c)),
      (''probe_packet_budget'', jword (probe_packet_budget c)),
      (''control_packet_budget'', jword (control_packet_budget c)),
      (''promoted_endpoint_limit'', jword (promoted_endpoint_limit c))]"

fun pick_other_port :: "u16 \<Rightarrow> mapping_sample list \<Rightarrow> mapping_sample list" where
  "pick_other_port port [] = []"
| "pick_other_port port (v # vs) = (if ms_mapped_port v \<noteq> port then [v] else pick_other_port port vs)"

fun fill_servers :: "mapping_sample list \<Rightarrow> mapping_sample list \<Rightarrow> mapping_sample list" where
  "fill_servers selected [] = selected"
| "fill_servers selected (v # vs) =
     (if length selected \<ge> 3 then selected
      else if list_all (\<lambda>x. ms_server_ip x \<noteq> ms_server_ip v) selected
      then fill_servers (selected @ [v]) vs
      else fill_servers selected vs)"

definition hello_selection :: "mapping_sample list \<Rightarrow> mapping_sample list" where
  "hello_selection samples =
     (let ordered = sort_key ms_sequence samples;
          selected = hd ordered # pick_other_port (ms_mapped_port (hd ordered)) ordered
      in fill_servers selected ordered)"

definition sample_json :: "int \<Rightarrow> mapping_sample \<Rightarrow> json" where
  "sample_json now v = JObject
     [(''server'', JString (ms_server_ip v)), (''server_port'', jword (ms_server_port v)),
      (''ip'', JString (ms_mapped_ip v)), (''port'', jword (ms_mapped_port v)),
      (''age_ms'', JInt (now - ms_received v)), (''sequence'', jword (ms_sequence v))]"

definition PunchHello ::
  "(json \<Rightarrow> bytes option) \<Rightarrow> mapping_snapshot \<Rightarrow> punch_config \<Rightarrow> u64 \<Rightarrow> int \<Rightarrow> int \<Rightarrow> bool \<Rightarrow> json option" where
  "PunchHello json_dump s c gen now remaining retry =
     (if \<not> enabled c \<or> \<not> Validate c \<or> remaining \<le> 0 \<or> remaining > 30000 \<or>
         ClassifyPunchMapping s gen now (mapping_sample_max_age_ms c) = Unknown
      then None
      else
        let hello = JObject
          [(''base'', JObject [(''ip'', JString (sn_local_ip s)), (''port'', jword (sn_local_port s)),
              (''socket'', jword (sn_socket s)), (''foundation'', JString (sn_foundation s)),
              (''component'', jword (sn_component s))]),
           (''samples'', JArray (map (sample_json now) (hello_selection (sn_samples s)))),
           (''budget'', PunchBudgetJson c),
           (''remaining_ms'', JInt remaining),
           (''mode'', JString (if retry then ''pool-wide-retry'' else ''pool-wide''))]
        in if ControlPayload json_dump Hello hello = [] then None else Some hello)"

section \<open>The plan\<close>

definition jint :: "json \<Rightarrow> int" where "jint j = (case j of JInt n \<Rightarrow> n | _ \<Rightarrow> 0)"

definition jnum :: "json \<Rightarrow> 'a::len word" where "jnum j = word_of_int (jint j)"

definition jarray :: "json \<Rightarrow> json list" where "jarray j = (case j of JArray vs \<Rightarrow> vs | _ \<Rightarrow> [])"

definition hello_sample :: "u64 \<Rightarrow> json \<Rightarrow> mapping_sample" where
  "hello_sample sock v =
     \<lparr>ms_socket = sock, ms_generation = 1, ms_server_ip = jstring (jfield v ''server''),
      ms_mapped_ip = jstring (jfield v ''ip''), ms_server_port = jnum (jfield v ''server_port''),
      ms_mapped_port = jnum (jfield v ''port''), ms_received = 15000 - jint (jfield v ''age_ms''),
      ms_sequence = jnum (jfield v ''sequence'')\<rparr>"

definition ClassifyHello :: "json \<Rightarrow> punch_mapping" where
  "ClassifyHello h =
     (let base = jfield h ''base''; sock = jnum (jfield base ''socket'') in
      ClassifyPunchMapping
        \<lparr>sn_socket = sock, sn_generation = 1, sn_local_ip = jstring (jfield base ''ip''),
         sn_foundation = jstring (jfield base ''foundation''), sn_local_port = jnum (jfield base ''port''),
         sn_component = 1, sn_samples = map (hello_sample sock) (jarray (jfield h ''samples''))\<rparr> 1 15000 15000)"

definition jmembers :: "json \<Rightarrow> (string \<times> json) list" where
  "jmembers j = (case j of JObject fs \<Rightarrow> fs | _ \<Rightarrow> [])"

definition merge_budget :: "json \<Rightarrow> json \<Rightarrow> json" where
  "merge_budget offer answer = JObject
     (map (\<lambda>(key, value). let x = jnum value :: u32; y = jnum (jfield answer key) in
             (key, jword (if key = ''ice_finish_reserve_ms'' then max x y else min x y)))
        (jmembers offer))"

definition MakePunchPlan :: "(json \<Rightarrow> bytes option) \<Rightarrow> (bytes \<Rightarrow> bytes) \<Rightarrow> json \<Rightarrow> json \<Rightarrow> json option" where
  "MakePunchPlan json_dump sha offer answer =
     (if ControlPayload json_dump Hello offer = [] \<or> ControlPayload json_dump Hello answer = [] \<or>
         jfield offer ''mode'' \<noteq> jfield answer ''mode''
      then None
      else
        let a = ClassifyHello offer; b = ClassifyHello answer in
        case (if a = StableObserved \<and> b = DependentObserved then Some True
              else if b = StableObserved \<and> a = DependentObserved then Some False else None) of
          None \<Rightarrow> None
        | Some anchor_offer \<Rightarrow>
            let budget = merge_budget (jfield offer ''budget'') (jfield answer ''budget'');
                remaining = min (jnum (jfield offer ''remaining_ms'') :: u32) (jnum (jfield answer ''remaining_ms''));
                reserve = jnum (jfield budget ''ice_finish_reserve_ms'')
            in if remaining \<le> reserve + 3000 then None
               else
                 let duration = min (jnum (jfield budget ''round_duration_ms'')) (remaining - reserve - 3000);
                     anchor = (if anchor_offer then offer else answer);
                     pool = (if anchor_offer then answer else offer);
                     anchor0 = jarray (jfield anchor ''samples'') ! 0;
                     pool0 = jarray (jfield pool ''samples'') ! 0;
                     plan = JObject
                       [(''anchor'', JString (if anchor_offer then ''offer'' else ''answer'')),
                        (''anchor_endpoint'', JObject [(''ip'', jfield anchor0 ''ip''), (''port'', jfield anchor0 ''port'')]),
                        (''peer_ip'', jfield pool0 ''ip''),
                        (''budget'', budget),
                        (''duration_ms'', jword duration),
                        (''offer_hello'', JString (Digest sha (ControlPayload json_dump Hello offer))),
                        (''answer_hello'', JString (Digest sha (ControlPayload json_dump Hello answer)))]
                 in if ControlPayload json_dump Prepare plan = [] then None else Some plan)"

section \<open>Choice of a snapshot\<close>

definition mapping_candidates :: "mapping_snapshot list \<Rightarrow> u64 \<Rightarrow> int \<Rightarrow> u32 \<Rightarrow> mapping_snapshot list" where
  "mapping_candidates snapshots gen now age =
     filter (\<lambda>s. ClassifyPunchMapping s gen now age \<noteq> Unknown) (map (fresh_samples now age) snapshots)"

definition rank_of :: "string \<Rightarrow> u16 \<Rightarrow> u64 \<Rightarrow> int \<Rightarrow> u32 \<Rightarrow> mapping_snapshot \<Rightarrow> mapping_rank" where
  "rank_of ip port gen now age s = snapshot_rank ip port (ClassifyPunchMapping s gen now age) s"

text \<open>The result of a loop that keeps the first candidate of least rank.\<close>

definition least_found :: "('s \<Rightarrow> 'r::linorder) \<Rightarrow> 's list \<Rightarrow> ('r \<times> 's) option \<Rightarrow> ('r \<times> 's) option \<Rightarrow> bool" where
  "least_found rk cands best res \<longleftrightarrow> (case res of
     None \<Rightarrow> best = None \<and> cands = []
   | Some x \<Rightarrow> (best = Some x \<or> (snd x \<in> set cands \<and> fst x = rk (snd x))) \<and>
       (\<forall>b. best = Some b \<longrightarrow> fst x \<le> fst b) \<and> (\<forall>t \<in> set cands. fst x \<le> rk t))"

lemma least_found_skip:
  "least_found rk cands best res \<Longrightarrow> \<not> (best = None \<or> rk c < fst (the best)) \<Longrightarrow> least_found rk (c # cands) best res"
  by (auto simp: least_found_def not_less split: option.splits)

lemma least_found_take:
  "least_found rk cands (Some (rk c, c)) res \<Longrightarrow> best = None \<or> rk c < fst (the best) \<Longrightarrow>
     least_found rk (c # cands) best res"
  by (auto simp: least_found_def split: option.splits)

lemma select_loop_best:
  "least_found (rank_of ip port gen now age) (mapping_candidates ss gen now age) best
     (select_loop ip port gen now age ss best)"
proof (induction ss arbitrary: best)
  case (Cons s ss)
  define sn where "sn = fresh_samples now age s"
  let ?rk = "rank_of ip port gen now age"
  have cand: "mapping_candidates (s # ss) gen now age =
      (if ClassifyPunchMapping sn gen now age = Unknown then mapping_candidates ss gen now age
       else sn # mapping_candidates ss gen now age)"
    by (simp add: mapping_candidates_def sn_def)
  have step: "select_loop ip port gen now age (s # ss) best =
      (if ClassifyPunchMapping sn gen now age = Unknown then select_loop ip port gen now age ss best
       else if best = None \<or> ?rk sn < fst (the best) then select_loop ip port gen now age ss (Some (?rk sn, sn))
       else select_loop ip port gen now age ss best)"
    by (simp add: Let_def sn_def rank_of_def)
  show ?case
    unfolding step cand
    using Cons [of best] least_found_skip [OF Cons [of best], of sn]
      least_found_take [OF Cons [of "Some (?rk sn, sn)"]] by presburger
qed (auto simp: mapping_candidates_def least_found_def split: option.splits)

section \<open>Classification as a condition on all samples\<close>

definition sample_ok :: "u64 \<Rightarrow> u64 \<Rightarrow> int \<Rightarrow> u32 \<Rightarrow> mapping_sample \<Rightarrow> bool" where
  "sample_ok sock gen now age v \<longleftrightarrow>
     ms_socket v = sock \<and> ms_generation v = gen \<and> ms_received v \<le> now \<and> now - ms_received v \<le> uint age \<and>
     IsPublicIpv4ForPrediction (ms_server_ip v) \<and> ms_server_port v \<noteq> 0 \<and>
     IsPublicIpv4ForPrediction (ms_mapped_ip v) \<and> ms_mapped_port v \<noteq> 0"

lemma public_not_empty: "\<not> IsPublicIpv4ForPrediction []"
  by (simp add: IsPublicIpv4ForPrediction_def pub_parse_def pub_octet_def)

lemma classify_loop_Cons:
  "classify_loop s gen now age (v # vs) ip servers ports =
     (if sample_ok (sn_socket s) gen now age v \<and> (ip \<noteq> [] \<longrightarrow> ms_mapped_ip v = ip)
      then classify_loop s gen now age vs (ms_mapped_ip v) (insert (ms_server_ip v) servers) (insert (ms_mapped_port v) ports)
      else None)"
proof -
  have "(ms_socket v \<noteq> sn_socket s \<or> ms_generation v \<noteq> gen \<or>
         ms_received v > now \<or> now - ms_received v > uint age \<or>
         \<not> IsPublicIpv4ForPrediction (ms_server_ip v) \<or> ms_server_port v = 0 \<or>
         \<not> IsPublicIpv4ForPrediction (ms_mapped_ip v) \<or> ms_mapped_port v = 0) = (\<not> sample_ok (sn_socket s) gen now age v)"
    unfolding sample_ok_def de_Morgan_conj not_le not_not by (rule refl)
  then show ?thesis unfolding classify_loop.simps by auto
qed

lemma classify_loop_iff:
  "classify_loop s gen now age vs ip servers ports =
     (if (\<forall>v \<in> set vs. sample_ok (sn_socket s) gen now age v \<and>
             ms_mapped_ip v = (if ip = [] then ms_mapped_ip (hd vs) else ip))
      then Some (servers \<union> ms_server_ip ` set vs, ports \<union> ms_mapped_port ` set vs) else None)"
proof (induction vs arbitrary: ip servers ports)
  case (Cons v vs)
  have "ms_mapped_ip v \<noteq> []" if "sample_ok (sn_socket s) gen now age v"
    using that public_not_empty by (auto simp: sample_ok_def)
  then show ?case unfolding classify_loop_Cons Cons by (auto split: if_splits)
qed simp

definition classified :: "mapping_snapshot \<Rightarrow> u64 \<Rightarrow> int \<Rightarrow> u32 \<Rightarrow> bool" where
  "classified s gen now age \<longleftrightarrow>
     sn_socket s \<noteq> 0 \<and> gen \<noteq> 0 \<and> sn_generation s = gen \<and> sn_local_port s \<noteq> 0 \<and>
     ValidIpv4 (sn_local_ip s) \<and> sn_component s = 1 \<and> sn_foundation s \<noteq> [] \<and>
     2 \<le> length (sn_samples s) \<and> length (sn_samples s) \<le> 32 \<and>
     (\<forall>v \<in> set (sn_samples s). sample_ok (sn_socket s) gen now age v) \<and>
     (\<forall>v \<in> set (sn_samples s). ms_mapped_ip v = ms_mapped_ip (hd (sn_samples s))) \<and>
     2 \<le> card (ms_server_ip ` set (sn_samples s))"

lemma Classify_iff:
  "ClassifyPunchMapping s gen now age =
     (if classified s gen now age
      then if card (ms_mapped_port ` set (sn_samples s)) = 1 then StableObserved else DependentObserved
      else Unknown)"
proof -
  let ?g = "sn_socket s = 0 \<or> gen = 0 \<or> sn_generation s \<noteq> gen \<or> sn_local_port s = 0 \<or>
         \<not> ValidIpv4 (sn_local_ip s) \<or> sn_component s \<noteq> 1 \<or> sn_foundation s = [] \<or>
         length (sn_samples s) < 2 \<or> length (sn_samples s) > 32"
  let ?l = "(\<forall>v \<in> set (sn_samples s). sample_ok (sn_socket s) gen now age v) \<and>
     (\<forall>v \<in> set (sn_samples s). ms_mapped_ip v = ms_mapped_ip (hd (sn_samples s)))"
  have c: "classified s gen now age \<longleftrightarrow> \<not> ?g \<and> ?l \<and> \<not> card (ms_server_ip ` set (sn_samples s)) < 2"
    unfolding classified_def not_less not_le de_Morgan_disj not_not conj_assoc by (rule refl)
  show ?thesis
  proof (cases ?g)
    case True
    then have "\<not> classified s gen now age" unfolding c by blast
    then show ?thesis unfolding ClassifyPunchMapping_def if_P [OF True] by (simp only: if_False)
  next
    case False
    then have c': "classified s gen now age \<longleftrightarrow> ?l \<and> \<not> card (ms_server_ip ` set (sn_samples s)) < 2"
      unfolding c by blast
    have cl: "classify_loop s gen now age (sn_samples s) [] {} {} =
        (if ?l then Some (ms_server_ip ` set (sn_samples s), ms_mapped_port ` set (sn_samples s)) else None)"
      unfolding classify_loop_iff by (simp add: ball_conj_distrib)
    have "?l \<or> \<not> ?l" by blast
    then show ?thesis
    proof
      assume l: ?l
      show ?thesis unfolding ClassifyPunchMapping_def if_not_P [OF False] cl c' if_P [OF l] using l by simp
    next
      assume l: "\<not> ?l"
      show ?thesis unfolding ClassifyPunchMapping_def if_not_P [OF False] cl c' if_not_P [OF l] using l by auto
    qed
  qed
qed

section \<open>The samples of a HELLO\<close>

lemma fill_servers_added:
  "\<exists>added. fill_servers selected vs = selected @ added \<and> set added \<subseteq> set vs \<and>
     (added \<noteq> [] \<longrightarrow> ms_server_ip (hd added) \<notin> ms_server_ip ` set selected) \<and>
     (added = [] \<longrightarrow> 3 \<le> length selected \<or> ms_server_ip ` set vs \<subseteq> ms_server_ip ` set selected) \<and>
     length (fill_servers selected vs) \<le> max 3 (length selected)"
proof (induction selected vs rule: fill_servers.induct)
  case (2 selected v vs)
  show ?case
  proof (cases "3 \<le> length selected")
    case False
    show ?thesis
    proof (cases "list_all (\<lambda>x. ms_server_ip x \<noteq> ms_server_ip v) selected")
      case True
      then obtain added where a: "fill_servers (selected @ [v]) vs = (selected @ [v]) @ added" "set added \<subseteq> set vs"
        "length (fill_servers (selected @ [v]) vs) \<le> max 3 (length (selected @ [v]))"
        using 2(1) [OF False] by blast
      moreover have "ms_server_ip v \<notin> ms_server_ip ` set selected" using True by (auto simp: list_all_iff)
      ultimately show ?thesis using False True by (intro exI [of _ "v # added"]) auto
    next
      case dup: False
      then have "ms_server_ip v \<in> ms_server_ip ` set selected" 
        by (simp add: list_all_iff image_iff) metis
      then show ?thesis using 2(2) [OF False dup] False dup by auto
    qed
  qed auto
qed auto

lemma pick_other_port_cases:
  "pick_other_port p vs = [] \<and> (\<forall>v \<in> set vs. ms_mapped_port v = p) \<or>
   (\<exists>w \<in> set vs. pick_other_port p vs = [w] \<and> ms_mapped_port w \<noteq> p)"
  by (induction p vs rule: pick_other_port.induct) auto

lemma hello_selection_ok:
  assumes ne: "samples \<noteq> []" and servers: "2 \<le> card (ms_server_ip ` set samples)"
  defines "sel \<equiv> hello_selection samples"
  shows "set sel \<subseteq> set samples" "length sel \<le> 3" "sel \<noteq> []" "2 \<le> card (ms_server_ip ` set sel)"
    "card (ms_mapped_port ` set sel) = 1 \<longleftrightarrow> card (ms_mapped_port ` set samples) = 1"
proof -
  let ?ord = "sort_key ms_sequence samples"
  have set: "set ?ord = set samples" by simp
  then have ord: "?ord \<noteq> []" using ne by (metis set_empty)
  obtain a where a: "hd ?ord = a" "a \<in> set samples" using ord set hd_in_set by metis
  define p where "p = ms_mapped_port a"
  define st where "st = a # pick_other_port p ?ord"
  have st: "set st \<subseteq> set samples" "length st \<le> 2" "a \<in> set st"
    using pick_other_port_cases [of p ?ord] a(2) unfolding set st_def by auto
  have sel: "sel = fill_servers st ?ord" by (simp add: sel_def hello_selection_def Let_def st_def p_def a)
  obtain added where ad: "sel = st @ added" "set added \<subseteq> set samples" "length sel \<le> 3"
    "added \<noteq> [] \<Longrightarrow> ms_server_ip (hd added) \<notin> ms_server_ip ` set st"
    "added = [] \<Longrightarrow> ms_server_ip ` set samples \<subseteq> ms_server_ip ` set st"
    using fill_servers_added [of st ?ord] st(2) unfolding sel set by fastforce
  show "set sel \<subseteq> set samples" "length sel \<le> 3" "sel \<noteq> []" using ad st by (auto simp: st_def)
  have fin: "finite (ms_server_ip ` set sel)" by simp
  show "2 \<le> card (ms_server_ip ` set sel)"
  proof (cases "added = []")
    case True
    then show ?thesis using ad(1,5) servers card_mono [OF fin, of "ms_server_ip ` set samples"] by simp
  next
    case False
    have "ms_server_ip a \<noteq> ms_server_ip (hd added)"
      using ad(4) [OF False] imageI [OF st(3), of ms_server_ip] by metis
    then have "card {ms_server_ip a, ms_server_ip (hd added)} = 2" by simp
    moreover have "a \<in> set sel" "hd added \<in> set sel" using ad(1) st(3) False by simp_all
    then have "{ms_server_ip a, ms_server_ip (hd added)} \<subseteq> ms_server_ip ` set sel" by blast
    ultimately show ?thesis using card_mono [OF fin] by metis
  qed
  show "card (ms_mapped_port ` set sel) = 1 \<longleftrightarrow> card (ms_mapped_port ` set samples) = 1"
  proof (cases "\<forall>v \<in> set samples. ms_mapped_port v = p")
    case True
    then have "ms_mapped_port ` set samples = {p}" "ms_mapped_port ` set sel = {p}"
      using a(2) st(3) ad(1,2) st(1) by auto
    then show ?thesis by simp
  next
    case False
    then obtain w where "w \<in> set samples" "w \<in> set st" "ms_mapped_port w \<noteq> p"
      using pick_other_port_cases [of p ?ord] unfolding set st_def by auto
    then have "p \<in> ms_mapped_port ` set samples" "p \<in> ms_mapped_port ` set sel"
      "ms_mapped_port w \<in> ms_mapped_port ` set samples" "ms_mapped_port w \<in> ms_mapped_port ` set sel"
      using a(2) st(3) ad(1) by (auto simp: p_def)
    then show ?thesis using \<open>ms_mapped_port w \<noteq> p\<close> by (metis card_1_singletonE singletonD)
  qed
qed

lemma hello_sample_json:
  "hello_sample sock (sample_json now v) =
     v\<lparr>ms_socket := sock, ms_generation := 1, ms_received := 15000 - (now - ms_received v)\<rparr>"
  by (simp add: hello_sample_def sample_json_def jfield_def jnum_def jint_def jword_def jstring_def)

lemma ClassifyHello_built:
  assumes h: "PunchHello json_dump s c gen now remaining retry = Some hello"
  shows "ClassifyHello hello = ClassifyPunchMapping s gen now (mapping_sample_max_age_ms c)"
proof -
  let ?age = "mapping_sample_max_age_ms c"
  define sel where "sel = hello_selection (sn_samples s)"
  define tr where "tr = (\<lambda>v :: mapping_sample. v\<lparr>ms_socket := sn_socket s, ms_generation := 1, ms_received := 15000 - (now - ms_received v)\<rparr>)"
  have hello: "hello = JObject
          [(''base'', JObject [(''ip'', JString (sn_local_ip s)), (''port'', jword (sn_local_port s)),
              (''socket'', jword (sn_socket s)), (''foundation'', JString (sn_foundation s)),
              (''component'', jword (sn_component s))]),
           (''samples'', JArray (map (sample_json now) sel)),
           (''budget'', PunchBudgetJson c),
           (''remaining_ms'', JInt remaining),
           (''mode'', JString (if retry then ''pool-wide-retry'' else ''pool-wide''))]"
    and valid: "Validate c" and cl: "ClassifyPunchMapping s gen now ?age \<noteq> Unknown"
    using h by (auto simp: PunchHello_def Let_def sel_def split: if_splits)
  have cs: "classified s gen now ?age" using cl by (simp add: Classify_iff split: if_splits)
  then have ne: "sn_samples s \<noteq> []" and two: "2 \<le> card (ms_server_ip ` set (sn_samples s))"
    by (auto simp: classified_def)
  note ok = hello_selection_ok [OF ne two, folded sel_def]
  have age: "uint ?age \<le> 15000" using valid by (simp add: Validate_def not_less word_le_def split: if_splits)
  have so: "sample_ok (sn_socket s) 1 15000 15000 (tr v)" if "v \<in> set sel" for v
  proof -
    have "sample_ok (sn_socket s) gen now ?age v" using cs ok(1) that by (auto simp: classified_def)
    then show ?thesis using age by (auto simp: sample_ok_def tr_def)
  qed
  have img: "ms_server_ip ` tr ` set sel = ms_server_ip ` set sel" "ms_mapped_port ` tr ` set sel = ms_mapped_port ` set sel"
    by (auto simp: tr_def image_image)
  have ip: "ms_mapped_ip (tr v) = ms_mapped_ip (tr (hd sel))" if "v \<in> set sel" for v
  proof -
    have "v \<in> set (sn_samples s)" "hd sel \<in> set (sn_samples s)" using ok(1,3) that by auto
    then have "ms_mapped_ip v = ms_mapped_ip (hd (sn_samples s))" "ms_mapped_ip (hd sel) = ms_mapped_ip (hd (sn_samples s))"
      using cs unfolding classified_def by blast+
    then show ?thesis by (simp add: tr_def)
  qed
  have len: "2 \<le> length sel"
    using ok(4) card_length [of "map ms_server_ip sel"] by (simp add: order_trans)
  define sn where "sn = \<lparr>sn_socket = sn_socket s, sn_generation = 1, sn_local_ip = sn_local_ip s,
      sn_foundation = sn_foundation s, sn_local_port = sn_local_port s, sn_component = 1, sn_samples = map tr sel\<rparr>"
  have "ClassifyHello hello = ClassifyPunchMapping sn 1 15000 15000"
    by (simp add: ClassifyHello_def hello jfield_def jnum_def jint_def jword_def jstring_def jarray_def Let_def
        hello_sample_json o_def sn_def tr_def [symmetric])
  moreover have "classified sn 1 15000 15000"
  proof -
    have "sn_socket s \<noteq> 0 \<and> sn_local_port s \<noteq> 0 \<and> ValidIpv4 (sn_local_ip s) \<and> sn_foundation s \<noteq> []"
      using cs unfolding classified_def by blast
    moreover have "\<forall>v \<in> set (map tr sel). sample_ok (sn_socket s) 1 15000 15000 v" using so by simp
    moreover have "\<forall>v \<in> set (map tr sel). ms_mapped_ip v = ms_mapped_ip (hd (map tr sel))"
      unfolding hd_map [OF ok(3)] set_map using ip by blast
    ultimately show ?thesis unfolding classified_def sn_def using len ok(2,4) img by simp
  qed
  ultimately show ?thesis using cs ok(5) img by (simp add: Classify_iff sn_def)
qed

section \<open>Budgets\<close>

definition budget_ranges :: "(string \<times> int \<times> int) list" where
  "budget_ranges =
     [(''pool_size'', 1, 128), (''target_port_count'', 1, 1024), (''probe_pps'', 1, 200),
      (''burst_packets'', 1, 8), (''pool_probe_rounds'', 1, 3), (''round_duration_ms'', 1, 15000),
      (''ice_finish_reserve_ms'', 3000, 15000), (''probe_packet_budget'', 1, 1024),
      (''control_packet_budget'', 1, 48), (''promoted_endpoint_limit'', 1, 8)]"

abbreviation reserve_key :: string where "reserve_key \<equiv> ''ice_finish_reserve_ms''"

lemma Budget_iff:
  "Budget j \<longleftrightarrow> Fields j (map fst budget_ranges) \<and> (\<forall>(k, lo, hi) \<in> set budget_ranges. Number (jfield j k) lo hi)"
  by (simp add: Budget_def budget_ranges_def)

lemma budget_ranges_bound: "(k, lo, hi) \<in> set budget_ranges \<Longrightarrow> 1 \<le> lo \<and> hi < 2 ^ 32"
  by (auto simp: budget_ranges_def)

lemma Number_exact:
  assumes "Number j lo hi" "hi < 2 ^ 32"
  shows "uint (jnum j :: u32) = jint j" "lo \<le> jint j" "jint j \<le> hi" "0 \<le> jint j"
  using assms by (auto simp: Number_def jnum_def jint_def unsigned_of_int take_bit_int_eq_self split: json.splits)

lemma Number_jword: "Number (jword (w :: u32)) lo hi \<longleftrightarrow> lo \<le> uint w \<and> uint w \<le> hi"
  by (simp add: Number_def jword_def)

lemma uint_min_max: "uint (min a b) = min (uint a) (uint b)" "uint (max a b) = max (uint a) (uint b)"
  by (auto simp: min_def max_def word_le_def)

lemma map_of_map_key: "map_of (map (\<lambda>(k, v). (k, f k v)) xs) k = map_option (f k) (map_of xs k)"
  by (induction xs) auto

lemma Fields_member: "Fields j names \<Longrightarrow> f \<in> set names \<Longrightarrow> \<exists>v. map_of (jmembers j) f = Some v \<and> jfield j f = v"
proof -
  assume "Fields j names" "f \<in> set names"
  then obtain fs where fs: "j = JObject fs" "f \<in> fst ` set fs"
    by (auto simp: Fields_def list_all_iff split: json.splits)
  then have "map_of fs f \<noteq> None" by (simp add: map_of_eq_None_iff)
  then show ?thesis using fs by (auto simp: jmembers_def jfield_def)
qed

lemma jint_jword [simp]: "jint (jword w) = uint w"
  by (simp add: jint_def jword_def)

lemma jfield_object: "jfield (JObject fs) k = (case map_of fs k of Some v \<Rightarrow> v | None \<Rightarrow> JNull)"
  by (simp add: jfield_def)

lemma merge_budget_field:
  assumes "Budget o'" "Budget a" "(k, lo, hi) \<in> set budget_ranges"
  shows "jint (jfield (merge_budget o' a) k) =
      (if k = reserve_key then max else min) (jint (jfield o' k)) (jint (jfield a k))"
    and "Number (jfield (merge_budget o' a) k) lo hi"
proof -
  have n: "Number (jfield o' k) lo hi" "Number (jfield a k) lo hi" "hi < 2 ^ 32"
    using assms budget_ranges_bound by (auto simp: Budget_iff)
  have "k \<in> set (map fst budget_ranges)" using assms(3) by force
  then obtain v where v: "map_of (jmembers o') k = Some v" "jfield o' k = v"
    using Fields_member [of o' "map fst budget_ranges" k] assms(1) unfolding Budget_iff by blast
  have f: "jfield (merge_budget o' a) k =
      jword (if k = reserve_key then max (jnum (jfield o' k) :: u32) (jnum (jfield a k)) else min (jnum (jfield o' k)) (jnum (jfield a k)))"
    using v map_of_map_key [of "\<lambda>key value. jword (if key = reserve_key then max (jnum value :: u32) (jnum (jfield a key))
        else min (jnum value) (jnum (jfield a key)))" "jmembers o'" k]
    by (auto simp: merge_budget_def jfield_object Let_def)
  note ex = Number_exact [OF n(1,3)] Number_exact [OF n(2,3)]
  show "jint (jfield (merge_budget o' a) k) =
      (if k = reserve_key then max else min) (jint (jfield o' k)) (jint (jfield a k))"
    unfolding f using ex by (auto simp: uint_min_max)
  show "Number (jfield (merge_budget o' a) k) lo hi"
    unfolding f using ex by (auto simp: Number_jword uint_min_max)
qed

lemma Budget_merge:
  assumes "Budget o'" "Budget a"
  shows "Budget (merge_budget o' a)"
proof -
  obtain fs where fs: "o' = JObject fs" "length fs = length budget_ranges" "\<forall>k \<in> fst ` set budget_ranges. k \<in> fst ` set fs"
    using assms(1) by (auto simp: Budget_iff Fields_def list_all_iff split: json.splits)
  have "Fields (merge_budget o' a) (map fst budget_ranges)"
    using fs by (auto simp: Fields_def merge_budget_def jmembers_def list_all_iff image_iff Let_def split: prod.splits) fastforce
  then show ?thesis using merge_budget_field [OF assms] by (auto simp: Budget_iff)
qed

lemma uint_pos: "1 \<le> uint w \<longleftrightarrow> w \<noteq> (0 :: 'a::len word)"
proof -
  have "1 \<le> uint w \<longleftrightarrow> 0 < uint w" by linarith
  also have "\<dots> \<longleftrightarrow> 0 < w" by (simp add: word_less_def)
  finally show ?thesis by (auto simp: word_gt_0)
qed

lemma Budget_config:
  assumes "Validate c"
  shows "Budget (PunchBudgetJson c)"
  using assms
  by (simp add: Budget_def PunchBudgetJson_def Fields_def jfield_def Number_jword Validate_def not_less word_le_def
      word_less_def uint_pos split: if_splits)

section \<open>The agreed plan\<close>

lemma ControlPayload_Schema: "ControlPayload json_dump k j \<noteq> [] \<Longrightarrow> Schema k j"
  by (auto simp: ControlPayload_def split: if_splits)

lemma Schema_Hello_parts:
  assumes "Schema Hello j"
  shows "Budget (jfield j ''budget'')" "Number (jfield j ''remaining_ms'') 1 30000"
    "list_all hello_sample_ok (jarray (jfield j ''samples''))"
  using assms by (auto simp: Let_def jarray_def split: json.splits)

lemma ClassifyHello_samples: "ClassifyHello h \<noteq> Unknown \<Longrightarrow> 2 \<le> length (jarray (jfield h ''samples''))"
  by (auto simp: ClassifyHello_def Let_def Classify_iff classified_def split: if_splits)

definition plan_remaining :: "json \<Rightarrow> json \<Rightarrow> int" where
  "plan_remaining offer answer = min (jint (jfield offer ''remaining_ms'')) (jint (jfield answer ''remaining_ms''))"

definition plan_budget :: "json \<Rightarrow> json \<Rightarrow> json" where
  "plan_budget offer answer = merge_budget (jfield offer ''budget'') (jfield answer ''budget'')"

text \<open>The 32-bit arithmetic of the plan is exact on accepted HELLO messages.\<close>

lemma plan_arithmetic:
  assumes o: "Schema Hello offer" and a: "Schema Hello answer"
  defines "rem \<equiv> min (jnum (jfield offer ''remaining_ms'') :: u32) (jnum (jfield answer ''remaining_ms''))"
  defines "res \<equiv> jnum (jfield (plan_budget offer answer) reserve_key) :: u32"
  defines "rd \<equiv> jnum (jfield (plan_budget offer answer) ''round_duration_ms'') :: u32"
  shows "rem \<le> res + 3000 \<longleftrightarrow> plan_remaining offer answer \<le> jint (jfield (plan_budget offer answer) reserve_key) + 3000"
    and "\<not> rem \<le> res + 3000 \<Longrightarrow> uint (min rd (rem - res - 3000)) =
      min (jint (jfield (plan_budget offer answer) ''round_duration_ms''))
        (plan_remaining offer answer - jint (jfield (plan_budget offer answer) reserve_key) - 3000)"
proof -
  have b: "Budget (plan_budget offer answer)"
    using Budget_merge Schema_Hello_parts(1) o a by (simp add: plan_budget_def)
  have n: "Number (jfield (plan_budget offer answer) reserve_key) 3000 15000"
    "Number (jfield (plan_budget offer answer) ''round_duration_ms'') 1 15000"
    using b by (simp_all add: Budget_def)
  have rem: "uint rem = plan_remaining offer answer"
    using Number_exact(1) [OF Schema_Hello_parts(2) [OF o]] Number_exact(1) [OF Schema_Hello_parts(2) [OF a]]
    by (simp add: rem_def plan_remaining_def uint_min_max)
  have res: "uint res = jint (jfield (plan_budget offer answer) reserve_key)" "uint res \<le> 15000"
    using Number_exact [OF n(1)] by (simp_all add: res_def)
  have rd: "uint rd = jint (jfield (plan_budget offer answer) ''round_duration_ms'')"
    using Number_exact [OF n(2)] by (simp add: rd_def)
  have sum: "uint (res + 3000) = uint res + 3000"
    using res(2) by (simp add: uint_word_ariths)
  show "rem \<le> res + 3000 \<longleftrightarrow> plan_remaining offer answer \<le> jint (jfield (plan_budget offer answer) reserve_key) + 3000"
    by (simp add: word_le_def sum rem res(1))
  assume "\<not> rem \<le> res + 3000"
  then have gt: "uint res + 3000 < uint rem" by (simp add: word_le_def sum)
  have "uint (rem - res - 3000) = uint rem - (uint res + 3000)"
    unfolding diff_diff_eq using gt sum uint_sub_lem [of "res + 3000" rem] by simp
  then show "uint (min rd (rem - res - 3000)) =
      min (jint (jfield (plan_budget offer answer) ''round_duration_ms''))
        (plan_remaining offer answer - jint (jfield (plan_budget offer answer) reserve_key) - 3000)"
    by (simp add: uint_min_max rd rem res(1))
qed

definition plan_json :: "(json \<Rightarrow> bytes option) \<Rightarrow> (bytes \<Rightarrow> bytes) \<Rightarrow> json \<Rightarrow> json \<Rightarrow> bool \<Rightarrow> u32 \<Rightarrow> json" where
  "plan_json json_dump sha offer answer anchor_offer duration =
     (let anchor0 = jarray (jfield (if anchor_offer then offer else answer) ''samples'') ! 0;
          pool0 = jarray (jfield (if anchor_offer then answer else offer) ''samples'') ! 0
      in JObject
           [(''anchor'', JString (if anchor_offer then ''offer'' else ''answer'')),
            (''anchor_endpoint'', JObject [(''ip'', jfield anchor0 ''ip''), (''port'', jfield anchor0 ''port'')]),
            (''peer_ip'', jfield pool0 ''ip''),
            (''budget'', plan_budget offer answer),
            (''duration_ms'', jword duration),
            (''offer_hello'', JString (Digest sha (ControlPayload json_dump Hello offer))),
            (''answer_hello'', JString (Digest sha (ControlPayload json_dump Hello answer)))])"

definition plan_duration :: "json \<Rightarrow> json \<Rightarrow> u32" where
  "plan_duration offer answer =
     min (jnum (jfield (plan_budget offer answer) ''round_duration_ms''))
       (min (jnum (jfield offer ''remaining_ms'')) (jnum (jfield answer ''remaining_ms'')) -
        jnum (jfield (plan_budget offer answer) reserve_key) - 3000)"

lemma MakePunchPlan_iff:
  "MakePunchPlan json_dump sha offer answer = Some plan \<longleftrightarrow>
     ControlPayload json_dump Hello offer \<noteq> [] \<and> ControlPayload json_dump Hello answer \<noteq> [] \<and>
     jfield offer ''mode'' = jfield answer ''mode'' \<and>
     jint (jfield (plan_budget offer answer) reserve_key) + 3000 < plan_remaining offer answer \<and>
     (\<exists>anchor_offer.
        {ClassifyHello offer, ClassifyHello answer} = {StableObserved, DependentObserved} \<and>
        anchor_offer = (ClassifyHello offer = StableObserved) \<and>
        plan = plan_json json_dump sha offer answer anchor_offer (plan_duration offer answer) \<and>
        ControlPayload json_dump Prepare plan \<noteq> [])"
proof (cases "ControlPayload json_dump Hello offer = [] \<or> ControlPayload json_dump Hello answer = [] \<or>
    jfield offer ''mode'' \<noteq> jfield answer ''mode''")
  case True
  then show ?thesis by (auto simp: MakePunchPlan_def)
next
  case False
  then have sch: "Schema Hello offer" "Schema Hello answer" using ControlPayload_Schema by blast+
  have dom: "{ClassifyHello offer, ClassifyHello answer} = {StableObserved, DependentObserved} \<longleftrightarrow>
     (ClassifyHello offer = StableObserved \<and> ClassifyHello answer = DependentObserved) \<or>
     (ClassifyHello answer = StableObserved \<and> ClassifyHello offer = DependentObserved)"
    by (auto simp: doubleton_eq_iff)
  note le = plan_arithmetic(1) [OF sch]
  show ?thesis
    unfolding MakePunchPlan_def if_not_P [OF False] Let_def plan_budget_def [symmetric] le dom
      plan_duration_def [symmetric]
    using False by (auto simp: plan_json_def Let_def not_le)
qed

lemma hex_digit_ok:
  assumes "unat n < 16"
  shows "is_hex (hex_digit n)" "hex_digit n \<noteq> CHR 0x00"
proof -
  have "list_all (\<lambda>c. is_hex c \<and> c \<noteq> CHR 0x00) ''0123456789abcdef''" by code_simp
  then show "is_hex (hex_digit n)" "hex_digit n \<noteq> CHR 0x00"
    using assms by (auto simp: list_all_length hex_digit_def)
qed

lemma nibble_bounds: "unat (drop_bit 4 c :: u8) < 16" "unat (c AND 15 :: u8) < 16"
proof -
  have "unat c < 256" by (rule order_less_le_trans [OF unsigned_less]) simp
  then show "unat (drop_bit 4 c) < 16" by (simp add: drop_bit_eq_div unat_div_distrib less_mult_imp_div_less)
  have "c AND 15 = take_bit 4 c" by (rule bit_word_eqI) (auto simp: bit_simps bit_numeral_rec less_Suc_eq numeral_eq_Suc)
  then show "unat (c AND 15) < 16" by (simp add: take_bit_eq_mod unat_mod_distrib)
qed

lemma Digest_hex:
  assumes "length (sha bs) = 32"
  shows "HexDigest (JString (Digest sha bs))"
proof -
  have l: "length (concat (map (\<lambda>c. [f c, g c]) xs)) = 2 * length xs" for f g :: "u8 \<Rightarrow> char" and xs
    by (induction xs) auto
  have "length (Digest sha bs) = 64" using assms by (simp add: Digest_def l)
  moreover have "\<forall>c \<in> set (Digest sha bs). is_hex c \<and> c \<noteq> CHR 0x00"
    using hex_digit_ok nibble_bounds by (auto simp: Digest_def)
  ultimately show ?thesis by (auto simp: HexDigest_def String_def jstring_def list_all_iff)
qed

lemma hello_first_sample:
  assumes "Schema Hello h" "ClassifyHello h \<noteq> Unknown"
  shows "hello_sample_ok (jarray (jfield h ''samples'') ! 0)"
  using Schema_Hello_parts(3) [OF assms(1)] ClassifyHello_samples [OF assms(2)]
  unfolding list_all_length by (auto dest: spec [of _ 0])

lemma Schema_plan:
  assumes sch: "Schema Hello offer" "Schema Hello answer"
    and cl: "ClassifyHello offer \<noteq> Unknown" "ClassifyHello answer \<noteq> Unknown"
    and gt: "jint (jfield (plan_budget offer answer) reserve_key) + 3000 < plan_remaining offer answer"
    and sha: "\<And>bs. length (sha bs) = 32"
  shows "Schema Prepare (plan_json json_dump sha offer answer b (plan_duration offer answer))"
proof -
  have bud: "Budget (plan_budget offer answer)"
    using Budget_merge Schema_Hello_parts(1) sch by (simp add: plan_budget_def)
  have n: "Number (jfield (plan_budget offer answer) ''round_duration_ms'') 1 15000"
    using bud by (simp add: Budget_def)
  have "uint (plan_duration offer answer) =
      min (jint (jfield (plan_budget offer answer) ''round_duration_ms''))
        (plan_remaining offer answer - jint (jfield (plan_budget offer answer) reserve_key) - 3000)"
    using plan_arithmetic [OF sch] gt by (simp add: plan_duration_def)
  then have dur: "Number (jword (plan_duration offer answer)) 1 15000"
    using Number_exact [OF n] gt by (auto simp: Number_jword)
  note s0 = hello_first_sample [OF sch(1) cl(1)] hello_first_sample [OF sch(2) cl(2)]
  show ?thesis
    using s0 bud dur sha
    by (cases b)
       (simp_all add: plan_json_def Let_def Fields_def jfield_object Endpoint_def Digest_hex hello_sample_ok_def)
qed

text \<open>Snapshots and messages for the witnesses, with a printer that prints every value as one byte.\<close>

definition demo_sample :: "string \<Rightarrow> u16 \<Rightarrow> u32 \<Rightarrow> mapping_sample" where
  "demo_sample server port n = \<lparr>ms_socket = 7, ms_generation = 1, ms_server_ip = server,
     ms_mapped_ip = ''5.6.7.8'', ms_server_port = 3478, ms_mapped_port = port, ms_received = 90, ms_sequence = n\<rparr>"

definition demo_snapshot :: "u16 \<Rightarrow> u16 \<Rightarrow> mapping_snapshot" where
  "demo_snapshot p q = \<lparr>sn_socket = 7, sn_generation = 1, sn_local_ip = ''10.0.0.2'', sn_foundation = ''f'',
     sn_local_port = 5000, sn_component = 1,
     sn_samples = [demo_sample ''1.1.1.1'' p 1, demo_sample ''8.8.8.8'' q 2]\<rparr>"

definition demo_dump :: "json \<Rightarrow> bytes option" where "demo_dump j = Some [1]"

definition demo_hello :: "u16 \<Rightarrow> u16 \<Rightarrow> json option" where
  "demo_hello p q = PunchHello demo_dump (demo_snapshot p q) (config_init\<lparr>pc_mode := PoolWide\<rparr>) 1 100 20000 False"

lemma demo_hello_some: "demo_hello 4000 4000 \<noteq> None" "demo_hello 4000 4001 \<noteq> None"
  by code_simp+

text \<open>
  \<open>SelectPunchMapping\<close> returns a snapshot of least rank among the usable ones (expired samples
  removed): route affinity to the selected base first, then a stable mapping, then freshness. It
  returns none exactly when no snapshot is usable.
\<close>

theorem select_mapping_least:
  "case SelectPunchMapping snapshots ip port gen now age of
     None \<Rightarrow> mapping_candidates snapshots gen now age = []
   | Some s \<Rightarrow> s \<in> set (mapping_candidates snapshots gen now age) \<and>
       (\<forall>t \<in> set (mapping_candidates snapshots gen now age).
          rank_of ip port gen now age s \<le> rank_of ip port gen now age t)"
  using select_loop_best [of ip port gen now age snapshots None]
  by (auto simp: SelectPunchMapping_def least_found_def split: option.splits)

theorem select_mapping_least_witness:
  "\<exists>s. SelectPunchMapping [demo_snapshot 4000 4001, demo_snapshot 4000 4000] ''10.0.0.2'' 5000 1 100 60000 = Some s \<and>
     rank_of ''10.0.0.2'' 5000 1 100 60000 s \<le> rank_of ''10.0.0.2'' 5000 1 100 60000 (fresh_samples 100 60000 (demo_snapshot 4000 4000))"
proof -
  let ?ss = "[demo_snapshot 4000 4001, demo_snapshot 4000 4000]"
  have "fresh_samples 100 60000 (demo_snapshot 4000 4000) \<in> set (mapping_candidates ?ss 1 100 60000)" by code_simp
  then show ?thesis using select_mapping_least [where snapshots = ?ss and ip = "''10.0.0.2''" and port = 5000 and gen = 1 and now = 100 and age = 60000]
    by (cases "SelectPunchMapping ?ss ''10.0.0.2'' 5000 1 100 60000") auto
qed

text \<open>
  C23: A HELLO message is accepted by the schema the peer checks, and although it carries at most three
  samples the peer classifies the mapping as the sender does.
\<close>

theorem hello_faithful:
  assumes "PunchHello json_dump s c gen now remaining retry = Some hello"
  shows "Schema Hello hello \<and> ClassifyHello hello = ClassifyPunchMapping s gen now (mapping_sample_max_age_ms c)"
  using ClassifyHello_built [OF assms] assms ControlPayload_Schema [of json_dump Hello hello]
  by (auto simp: PunchHello_def Let_def split: if_splits simp del: Schema.simps)

theorem hello_faithful_witness:
  "\<exists>hello. demo_hello 4000 4001 = Some hello \<and> Schema Hello hello \<and> ClassifyHello hello = DependentObserved"
proof -
  obtain hello where h: "demo_hello 4000 4001 = Some hello" using demo_hello_some(2) by blast
  have "ClassifyPunchMapping (demo_snapshot 4000 4001) 1 100 15000 = DependentObserved" by code_simp
  then show ?thesis
    using hello_faithful [OF h [unfolded demo_hello_def]] h by (simp add: config_init_def del: Schema.simps)
qed

text \<open>
  C21: A plan that two accepted HELLO messages lead to is itself accepted by the schema, has the peer
  with the stable mapping as anchor and is within both peers' limits: every limit of the budget is the
  smaller one (the reserve the larger one), and the duration plus the reserve and three seconds fits
  into the remaining time of both.
\<close>

theorem punch_plan_sound:
  assumes "MakePunchPlan json_dump sha offer answer = Some plan"
  shows "Schema Prepare plan \<and>
    {ClassifyHello offer, ClassifyHello answer} = {StableObserved, DependentObserved} \<and>
    jfield plan ''anchor'' = JString (if ClassifyHello offer = StableObserved then ''offer'' else ''answer'') \<and>
    (\<forall>(k, lo, hi) \<in> set budget_ranges. jint (jfield (jfield plan ''budget'') k) =
       (if k = reserve_key then max else min) (jint (jfield (jfield offer ''budget'') k)) (jint (jfield (jfield answer ''budget'') k))) \<and>
    1 \<le> jint (jfield plan ''duration_ms'') \<and>
    jint (jfield plan ''duration_ms'') \<le> jint (jfield (jfield plan ''budget'') ''round_duration_ms'') \<and>
    jint (jfield plan ''duration_ms'') + jint (jfield (jfield plan ''budget'') reserve_key) + 3000 \<le> plan_remaining offer answer"
proof -
  note p = assms [unfolded MakePunchPlan_iff]
  have sch: "Schema Hello offer" "Schema Hello answer" using p ControlPayload_Schema by blast+
  have gt: "jint (jfield (plan_budget offer answer) reserve_key) + 3000 < plan_remaining offer answer" using p by blast
  have dur: "uint (plan_duration offer answer) =
      min (jint (jfield (plan_budget offer answer) ''round_duration_ms''))
        (plan_remaining offer answer - jint (jfield (plan_budget offer answer) reserve_key) - 3000)"
    using plan_arithmetic [OF sch] gt by (simp add: plan_duration_def)
  obtain b where b: "plan = plan_json json_dump sha offer answer b (plan_duration offer answer)"
    "b = (ClassifyHello offer = StableObserved)" using p by blast
  have f: "jfield plan ''budget'' = plan_budget offer answer" "jint (jfield plan ''duration_ms'') = uint (plan_duration offer answer)"
    "jfield plan ''anchor'' = JString (if b then ''offer'' else ''answer'')"
    by (simp_all add: b(1) plan_json_def Let_def jfield_object)
  have bo: "Budget (jfield offer ''budget'')" "Budget (jfield answer ''budget'')" using Schema_Hello_parts(1) sch by blast+
  then have "Number (jfield (plan_budget offer answer) ''round_duration_ms'') 1 15000"
    using Budget_merge by (simp add: plan_budget_def Budget_def)
  then have "1 \<le> jint (jfield (plan_budget offer answer) ''round_duration_ms'')" using Number_exact(2) by simp
  then show ?thesis
    using f b(2) dur gt p merge_budget_field(1) [OF bo] ControlPayload_Schema [of json_dump Prepare plan]
    by (auto simp: plan_budget_def simp del: Schema.simps)
qed

theorem punch_plan_sound_witness:
  "\<exists>plan. MakePunchPlan demo_dump (\<lambda>_. replicate 32 7) (the (demo_hello 4000 4000)) (the (demo_hello 4000 4001)) = Some plan \<and>
     jfield plan ''anchor'' = JString ''offer'' \<and> Schema Prepare plan"
proof -
  let ?p = "MakePunchPlan demo_dump (\<lambda>_. replicate 32 7) (the (demo_hello 4000 4000)) (the (demo_hello 4000 4001))"
  have "?p \<noteq> None" by code_simp
  then obtain plan where p: "?p = Some plan" by blast
  have "ClassifyHello (the (demo_hello 4000 4000)) = StableObserved" by code_simp
  then show ?thesis using punch_plan_sound [OF p] p by (simp del: Schema.simps)
qed

text \<open>
  C22: Two accepted HELLO messages of the same mode, one with a stable and one with a dependent mapping,
  lead to a plan whenever the remaining time exceeds the larger reserve by more than three seconds,
  provided SHA-256 gives 32 bytes and the JSON library prints the plan in at most 1140 bytes.
\<close>

theorem punch_plan_exists:
  assumes "ControlPayload json_dump Hello offer \<noteq> []" "ControlPayload json_dump Hello answer \<noteq> []"
    and "jfield offer ''mode'' = jfield answer ''mode''"
    and "{ClassifyHello offer, ClassifyHello answer} = {StableObserved, DependentObserved}"
    and "max (jint (jfield (jfield offer ''budget'') reserve_key)) (jint (jfield (jfield answer ''budget'') reserve_key)) + 3000 <
      plan_remaining offer answer"
    and "\<forall>bs. length (sha bs) = 32"
    and "\<forall>j. Schema Prepare j \<longrightarrow> (\<exists>bs. json_dump j = Some bs \<and> bs \<noteq> [] \<and> length bs \<le> 1140)"
  shows "\<exists>plan. MakePunchPlan json_dump sha offer answer = Some plan"
proof -
  have sch: "Schema Hello offer" "Schema Hello answer" using assms(1,2) ControlPayload_Schema by blast+
  have bo: "Budget (jfield offer ''budget'')" "Budget (jfield answer ''budget'')" using Schema_Hello_parts(1) sch by blast+
  have gt: "jint (jfield (plan_budget offer answer) reserve_key) + 3000 < plan_remaining offer answer"
    using merge_budget_field(1) [OF bo, of reserve_key 3000 15000] assms(5) by (simp add: plan_budget_def budget_ranges_def)
  have cl: "ClassifyHello offer \<noteq> Unknown" "ClassifyHello answer \<noteq> Unknown" using assms(4) by (auto simp: doubleton_eq_iff)
  let ?plan = "plan_json json_dump sha offer answer (ClassifyHello offer = StableObserved) (plan_duration offer answer)"
  have s: "Schema Prepare ?plan" using Schema_plan [OF sch cl gt] assms(6) by blast
  then obtain bs where "json_dump ?plan = Some bs" "bs \<noteq> []" "length bs \<le> 1140" using assms(7) by blast
  then have "ControlPayload json_dump Prepare ?plan \<noteq> []" using s by (simp add: ControlPayload_def del: Schema.simps)
  then show ?thesis using assms gt MakePunchPlan_iff by blast
qed

theorem punch_plan_exists_witness:
  "\<exists>plan. MakePunchPlan demo_dump (\<lambda>_. replicate 32 7) (the (demo_hello 4000 4001)) (the (demo_hello 4000 4000)) = Some plan"
proof (rule punch_plan_exists)
  show "ControlPayload demo_dump Hello (the (demo_hello 4000 4001)) \<noteq> []" by code_simp
  show "ControlPayload demo_dump Hello (the (demo_hello 4000 4000)) \<noteq> []" by code_simp
  show "jfield (the (demo_hello 4000 4001)) ''mode'' = jfield (the (demo_hello 4000 4000)) ''mode''" by code_simp
  have "ClassifyHello (the (demo_hello 4000 4001)) = DependentObserved" by code_simp
  moreover have "ClassifyHello (the (demo_hello 4000 4000)) = StableObserved" by code_simp
  ultimately show "{ClassifyHello (the (demo_hello 4000 4001)), ClassifyHello (the (demo_hello 4000 4000))} =
    {StableObserved, DependentObserved}" by auto
  show "max (jint (jfield (jfield (the (demo_hello 4000 4001)) ''budget'') reserve_key))
      (jint (jfield (jfield (the (demo_hello 4000 4000)) ''budget'') reserve_key)) + 3000
      < plan_remaining (the (demo_hello 4000 4001)) (the (demo_hello 4000 4000))" by code_simp
qed (simp_all add: demo_dump_def)

end
