(* ===== verification/Punch_Scheduler.thy ===== *)
theory Punch_Scheduler
  imports Punch_Config "HOL-Library.Multiset"
begin

text \<open>
  Pacing of the probes (\<^verbatim>\<open>src/ice/punch_scheduler.cpp\<close>, second part, and \<^verbatim>\<open>src/ice/punch_budget.cpp\<close>):
  deadlines, the token bucket, the budget of a connection, the round robin over targets, the budget
  shared by the process, and the random choice of ports. Times are milliseconds as integers (\<open>int64_t\<close>
  in the code; the products stay far below 63 bits for validated configurations). A token is counted in
  thousandths.
\<close>

section \<open>Deadlines\<close>

record punch_deadlines =
  dl_probe :: int
  dl_finish :: int

definition MakePunchDeadlines :: "int \<Rightarrow> int \<Rightarrow> u32 \<Rightarrow> u32 \<Rightarrow> punch_deadlines" where
  "MakePunchDeadlines now original duration reserve =
     (if now < 0 \<or> original \<le> now \<or> original - now \<le> uint reserve \<or> duration = 0 \<or>
         duration > 15000 \<or> reserve < 3000 \<or> reserve > 15000
      then \<lparr>dl_probe = 0, dl_finish = 0\<rparr>
      else let probe = now + min (uint duration) (original - now - uint reserve)
           in \<lparr>dl_probe = probe, dl_finish = min original (probe + uint reserve)\<rparr>)"

section \<open>Token bucket\<close>

record token_bucket =
  tb_rate :: u32
  tb_burst :: u32
  tb_tokens :: int
  tb_last :: int

definition bucket_init :: "u32 \<Rightarrow> u32 \<Rightarrow> int \<Rightarrow> token_bucket" where
  "bucket_init rate burst now = \<lparr>tb_rate = rate, tb_burst = burst, tb_tokens = uint burst * 1000, tb_last = now\<rparr>"

definition Available :: "token_bucket \<Rightarrow> int \<Rightarrow> bool \<times> token_bucket" where
  "Available tb now =
     (if now < tb_last tb then (False, tb)
      else let elapsed = min (now - tb_last tb) (1000 * uint (tb_burst tb));
               tokens = min (uint (tb_burst tb) * 1000) (tb_tokens tb + elapsed * uint (tb_rate tb))
           in (tokens \<ge> 1000, tb\<lparr>tb_tokens := tokens, tb_last := now\<rparr>))"

definition Bucket_Take :: "token_bucket \<Rightarrow> int \<Rightarrow> bool \<times> token_bucket" where
  "Bucket_Take tb now =
     (case Available tb now of
        (False, tb) \<Rightarrow> (False, tb)
      | (True, tb) \<Rightarrow> (True, tb\<lparr>tb_tokens := tb_tokens tb - 1000\<rparr>))"

section \<open>Budget of a connection\<close>

record probe_budget =
  pb_bucket :: token_bucket
  pb_attempts :: u32
  pb_probes :: u32
  pb_limit :: u32
  pb_probe_limit :: u32
  pb_round :: u32
  pb_max_rounds :: u32

definition ProbeLimit :: "punch_config \<Rightarrow> u32 \<Rightarrow> u32" where
  "ProbeLimit c ack_reserve = probe_packet_budget c - min ack_reserve (probe_packet_budget c div 8)"

definition probe_budget_init :: "punch_config \<Rightarrow> int \<Rightarrow> bool \<Rightarrow> u32 \<Rightarrow> probe_budget" where
  "probe_budget_init c now retry ack_reserve =
     \<lparr>pb_bucket = bucket_init (probe_pps c) (burst_packets c) now, pb_attempts = 0, pb_probes = 0,
      pb_limit = probe_packet_budget c, pb_probe_limit = ProbeLimit c ack_reserve, pb_round = 1,
      pb_max_rounds = (if retry then 2 else 1)\<rparr>"

text \<open>\<open>&&\<close> evaluates \<open>Available\<close>, which refills the bucket, only when the counters allow.\<close>

definition Budget_Ready :: "probe_budget \<Rightarrow> int \<Rightarrow> bool \<Rightarrow> bool \<times> probe_budget" where
  "Budget_Ready pb now ack =
     (if pb_attempts pb < pb_limit pb \<and> (ack \<or> pb_probes pb < pb_probe_limit pb)
      then case Available (pb_bucket pb) now of (ok, tb) \<Rightarrow> (ok, pb\<lparr>pb_bucket := tb\<rparr>)
      else (False, pb))"

definition Budget_Take :: "probe_budget \<Rightarrow> int \<Rightarrow> bool \<Rightarrow> bool \<times> probe_budget" where
  "Budget_Take pb now ack =
     (case Budget_Ready pb now ack of
        (False, pb) \<Rightarrow> (False, pb)
      | (True, pb) \<Rightarrow>
          (case Bucket_Take (pb_bucket pb) now of
             (False, tb) \<Rightarrow> (False, pb\<lparr>pb_bucket := tb\<rparr>)
           | (True, tb) \<Rightarrow> (True, pb\<lparr>pb_bucket := tb, pb_attempts := pb_attempts pb + 1,
                                    pb_probes := (if ack then pb_probes pb else pb_probes pb + 1)\<rparr>)))"

definition Budget_exhausted :: "probe_budget \<Rightarrow> bool" where
  "Budget_exhausted pb = (pb_attempts pb \<ge> pb_limit pb \<or> pb_probes pb \<ge> pb_probe_limit pb)"

definition NextAttempt :: "probe_budget \<Rightarrow> bool \<times> probe_budget" where
  "NextAttempt pb =
     (if pb_round pb \<ge> pb_max_rounds pb then (False, pb)
      else (True, pb\<lparr>pb_round := pb_round pb + 1, pb_attempts := 0, pb_probes := 0\<rparr>))"

section \<open>Round robin\<close>

record round_robin =
  rr_count :: nat
  rr_index :: nat
  rr_rounds :: nat
  rr_round :: nat
  rr_start :: int

definition rr_init :: "nat \<Rightarrow> nat \<Rightarrow> int \<Rightarrow> round_robin" where
  "rr_init cnt rounds start = \<lparr>rr_count = cnt, rr_index = 0, rr_rounds = rounds, rr_round = 0, rr_start = start\<rparr>"

definition rr_done :: "round_robin \<Rightarrow> bool" where
  "rr_done rr = (rr_count rr = 0 \<or> rr_round rr \<ge> rr_rounds rr)"

definition Peek :: "round_robin \<Rightarrow> int \<Rightarrow> nat option" where
  "Peek rr now = (if rr_done rr \<or> now < rr_start rr then None else Some (rr_index rr))"

definition Commit :: "round_robin \<Rightarrow> int \<Rightarrow> round_robin" where
  "Commit rr now =
     (if Peek rr now = None then rr
      else
        let rr = (if rr_index rr = 0 then rr\<lparr>rr_start := now\<rparr> else rr);
            rr = rr\<lparr>rr_index := rr_index rr + 1\<rparr>
        in if rr_index rr = rr_count rr
           then rr\<lparr>rr_index := 0, rr_round := rr_round rr + 1, rr_start := max (rr_start rr + 1000) now\<rparr>
           else rr)"

section \<open>Budget of the process\<close>

record waiter =
  w_id :: u64
  w_ack :: bool

record process_budget =
  pr_next :: u64
  pr_active :: "u64 list"
  pr_waiting :: "waiter list"
  pr_bucket :: token_bucket

definition process_budget_init :: "int \<Rightarrow> process_budget" where
  "process_budget_init now = \<lparr>pr_next = 0, pr_active = [], pr_waiting = [], pr_bucket = bucket_init 200 8 now\<rparr>"

definition Acquire :: "process_budget \<Rightarrow> u64 \<times> process_budget" where
  "Acquire pb =
     (if length (pr_active pb) \<ge> 2 \<or> pr_next pb = 0xFFFFFFFFFFFFFFFF then (0, pb)
      else let ident = pr_next pb + 1 in (ident, pb\<lparr>pr_next := ident, pr_active := List.insert ident (pr_active pb)\<rparr>))"

definition Release :: "process_budget \<Rightarrow> u64 \<Rightarrow> process_budget" where
  "Release pb ident = pb\<lparr>pr_active := removeAll ident (pr_active pb),
                         pr_waiting := filter (\<lambda>w. \<not> w_id w = ident) (pr_waiting pb)\<rparr>"

text \<open>The own entry is updated in place or appended.\<close>

fun note_waiter :: "u64 \<Rightarrow> bool \<Rightarrow> waiter list \<Rightarrow> waiter list" where
  "note_waiter ident ack [] = [\<lparr>w_id = ident, w_ack = ack\<rparr>]"
| "note_waiter ident ack (w # ws) = (if w_id w = ident then w\<lparr>w_ack := ack\<rparr> # ws else w # note_waiter ident ack ws)"

text \<open>The position of the first waiting acknowledgement, of the first waiter where there is none.\<close>

definition next_waiter :: "waiter list \<Rightarrow> nat" where
  "next_waiter ws = (case find (\<lambda>i. w_ack (ws ! i)) [0..<length ws] of Some i \<Rightarrow> i | None \<Rightarrow> 0)"

definition Process_Take :: "process_budget \<Rightarrow> u64 \<Rightarrow> bool \<Rightarrow> int \<Rightarrow> bool \<times> process_budget" where
  "Process_Take pb ident ack now =
     (if ident \<notin> set (pr_active pb) then (False, pb)
      else
        let ws = note_waiter ident ack (pr_waiting pb);
            next = next_waiter ws
        in if w_id (ws ! next) \<noteq> ident then (False, pb\<lparr>pr_waiting := ws\<rparr>)
           else case Bucket_Take (pr_bucket pb) now of
             (False, tb) \<Rightarrow> (False, pb\<lparr>pr_waiting := ws, pr_bucket := tb\<rparr>)
           | (True, tb) \<Rightarrow> (True, pb\<lparr>pr_waiting := take next ws @ drop (Suc next) ws, pr_bucket := tb\<rparr>))"

section \<open>Random ports\<close>

text \<open>
  The random source is the parameter \<open>random\<close>: the result of its \<open>n\<close>-th call, \<^const>\<open>None\<close> where it
  fails. Ports are their numbers.
\<close>

definition free_ports :: "nat set \<Rightarrow> nat list" where
  "free_ports exclude = filter (\<lambda>p. p \<notin> exclude) [1024..<65536]"

fun draw :: "(nat \<Rightarrow> u32 option) \<Rightarrow> nat \<Rightarrow> nat \<Rightarrow> nat \<Rightarrow> (u32 \<times> nat) option" where
  "draw random pos limit 0 = None"
| "draw random pos limit (Suc attempts) =
     (case random pos of
        None \<Rightarrow> None
      | Some value \<Rightarrow> if unat value < limit then Some (value, Suc pos) else draw random (Suc pos) limit attempts)"

function sample_loop :: "(nat \<Rightarrow> u32 option) \<Rightarrow> nat \<Rightarrow> nat \<Rightarrow> nat \<Rightarrow> nat list \<Rightarrow> nat list option" where
  "sample_loop random pos cnt i ports =
     (if i < cnt then
        (let bound = length ports - i; range = 2 ^ 32; limit = range - range mod bound in
         case draw random pos limit 32 of
           None \<Rightarrow> None
         | Some (value, pos') \<Rightarrow>
             let j = i + unat value mod bound
             in sample_loop random pos' cnt (Suc i) (ports[i := ports ! j, j := ports ! i]))
      else Some ports)"
  by pat_completeness auto
termination by (relation "measure (\<lambda>(random, pos, cnt, i, ports). cnt - i)") auto

declare sample_loop.simps [simp del]

definition SamplePunchPorts :: "nat \<Rightarrow> nat set \<Rightarrow> (nat \<Rightarrow> u32 option) \<Rightarrow> nat list" where
  "SamplePunchPorts cnt exclude random =
     (if cnt = 0 \<or> cnt > 1024 then []
      else let ports = free_ports exclude in
        if cnt > length ports then []
        else case sample_loop random 0 cnt 0 ports of
          None \<Rightarrow> []
        | Some ports \<Rightarrow> sort (take cnt ports))"

section \<open>Rate limits\<close>

text \<open>
  What every paced component promises: a grant costs 1000 units, the level of units is bounded and grows
  with the clock at the rate at most. The client lemma bounds the grants of every run, from every state.
\<close>

fun grants :: "('s \<Rightarrow> 'op \<Rightarrow> bool \<times> 's) \<Rightarrow> 's \<Rightarrow> 'op list \<Rightarrow> nat \<times> 's" where
  "grants step s [] = (0, s)"
| "grants step s (op # ops) = (case step s op of (b, s') \<Rightarrow>
     (case grants step s' ops of (n, s'') \<Rightarrow> (if b then Suc n else n, s'')))"

locale rate_limited =
  fixes step :: "'s \<Rightarrow> 'op \<Rightarrow> bool \<times> 's" and clock :: "'s \<Rightarrow> int" and level :: "'s \<Rightarrow> int"
    and inv :: "'s \<Rightarrow> bool" and rate :: int and burst :: int
  assumes level_range: "inv s \<Longrightarrow> 0 \<le> level s \<and> level s \<le> 1000 * burst"
    and step_cost: "inv s \<Longrightarrow> step s op = (b, s') \<Longrightarrow> inv s' \<and> clock s \<le> clock s' \<and>
      level s' + (if b then 1000 else 0) \<le> level s + rate * (clock s' - clock s)"
begin

lemma run_cost:
  "inv s \<Longrightarrow> grants step s ops = (n, s') \<Longrightarrow> inv s' \<and> clock s \<le> clock s' \<and>
     level s' + 1000 * int n \<le> level s + rate * (clock s' - clock s)"
proof (induction ops arbitrary: s n)
  case (Cons op ops)
  obtain b s1 where s1: "step s op = (b, s1)" by fastforce
  obtain m where m: "grants step s1 ops = (m, s')" "n = (if b then Suc m else m)"
    using Cons.prems(2) s1 by (auto split: prod.splits)
  note 1 = step_cost [OF Cons.prems(1) s1]
  then have "inv s' \<and> clock s1 \<le> clock s' \<and> level s' + 1000 * int m \<le> level s1 + rate * (clock s' - clock s1)"
    using Cons.IH m(1) by blast
  then show ?case using 1 m(2) by (auto simp: algebra_simps split: if_splits)
qed simp

lemma run_bound:
  assumes "inv s" "grants step s ops = (n, s')"
  shows "1000 * int n \<le> 1000 * burst + rate * (clock s' - clock s)"
  using run_cost [OF assms] level_range [OF assms(1)] level_range [of s'] by fastforce

end

definition bucket_ok :: "u32 \<Rightarrow> u32 \<Rightarrow> token_bucket \<Rightarrow> bool" where
  "bucket_ok rate burst tb \<longleftrightarrow> tb_rate tb = rate \<and> tb_burst tb = burst \<and>
     0 \<le> tb_tokens tb \<and> tb_tokens tb \<le> 1000 * uint burst"

lemma bucket_init_ok: "bucket_ok rate burst (bucket_init rate burst now)"
  by (simp add: bucket_ok_def bucket_init_def)

lemma Available_cost:
  assumes "bucket_ok rate burst tb" "Available tb now = (b, tb')"
  shows "bucket_ok rate burst tb' \<and> tb_last tb \<le> tb_last tb' \<and>
    tb_tokens tb' \<le> tb_tokens tb + uint rate * (tb_last tb' - tb_last tb)" "b \<longrightarrow> 1000 \<le> tb_tokens tb'"
proof -
  show "b \<longrightarrow> 1000 \<le> tb_tokens tb'" using assms(2) by (auto simp: Available_def Let_def split: if_splits)
  show "bucket_ok rate burst tb' \<and> tb_last tb \<le> tb_last tb' \<and>
    tb_tokens tb' \<le> tb_tokens tb + uint rate * (tb_last tb' - tb_last tb)"
  proof (cases "now < tb_last tb")
    case False
    let ?e = "min (now - tb_last tb) (1000 * uint burst)"
    have e: "0 \<le> ?e" "?e \<le> now - tb_last tb" using False by auto
    then have "?e * uint rate \<le> (now - tb_last tb) * uint rate" "0 \<le> ?e * uint rate"
      by (auto intro!: mult_right_mono)
    then show ?thesis using False assms by (auto simp: Available_def bucket_ok_def Let_def algebra_simps)
  qed (use assms in \<open>auto simp: Available_def\<close>)
qed

lemma Bucket_Take_cost:
  assumes "bucket_ok rate burst tb" "Bucket_Take tb now = (b, tb')"
  shows "bucket_ok rate burst tb' \<and> tb_last tb \<le> tb_last tb' \<and>
    tb_tokens tb' + (if b then 1000 else 0) \<le> tb_tokens tb + uint rate * (tb_last tb' - tb_last tb)"
proof -
  obtain c tb1 where a: "Available tb now = (c, tb1)" by fastforce
  show ?thesis
    using Available_cost [OF assms(1) a] assms(2) a
    by (cases c) (auto simp: Bucket_Take_def bucket_ok_def)
qed

interpretation bucket: rate_limited Bucket_Take tb_last tb_tokens "bucket_ok rate burst" "uint rate" "uint burst"
  for rate burst
  by (unfold_locales, simp add: bucket_ok_def, rule Bucket_Take_cost)

section \<open>The budget of a connection\<close>

datatype budget_op = OpTake int bool | OpReady int bool | OpNext

fun budget_step :: "probe_budget \<Rightarrow> budget_op \<Rightarrow> bool \<times> probe_budget" where
  "budget_step pb (OpTake now ack) = Budget_Take pb now ack"
| "budget_step pb (OpReady now ack) = (False, snd (Budget_Ready pb now ack))"
| "budget_step pb OpNext = (False, snd (NextAttempt pb))"

lemma Budget_Ready_cases:
  obtains "Budget_Ready pb now ack = (False, pb)"
  | ok tb where "pb_attempts pb < pb_limit pb" "ack \<or> pb_probes pb < pb_probe_limit pb"
      "Available (pb_bucket pb) now = (ok, tb)" "Budget_Ready pb now ack = (ok, pb\<lparr>pb_bucket := tb\<rparr>)"
proof (cases "pb_attempts pb < pb_limit pb \<and> (ack \<or> pb_probes pb < pb_probe_limit pb)")
  case True
  then show ?thesis using that(2) by (cases "Available (pb_bucket pb) now") (auto simp: Budget_Ready_def)
next
  case False
  then show ?thesis using that(1) by (auto simp: Budget_Ready_def)
qed

lemma Budget_Take_cost:
  assumes ok: "bucket_ok rate burst (pb_bucket pb)" and t: "Budget_Take pb now ack = (b, pb')"
  shows "bucket_ok rate burst (pb_bucket pb') \<and> tb_last (pb_bucket pb) \<le> tb_last (pb_bucket pb') \<and>
    tb_tokens (pb_bucket pb') + (if b then 1000 else 0)
      \<le> tb_tokens (pb_bucket pb) + uint rate * (tb_last (pb_bucket pb') - tb_last (pb_bucket pb))"
proof (cases rule: Budget_Ready_cases [of pb now ack])
  case 1 then show ?thesis using t ok by (auto simp: Budget_Take_def)
next
  case (2 c tb)
  obtain d tb2 where d: "Bucket_Take tb now = (d, tb2)" by fastforce
  note a = Available_cost(1) [OF ok 2(3)]
  note e = Bucket_Take_cost [OF _ d, of rate burst]
  show ?thesis using a e t 2(4) d
    by (cases c; cases d) (auto simp: Budget_Take_def algebra_simps)
qed

interpretation probe_limit: rate_limited budget_step "\<lambda>pb. tb_last (pb_bucket pb)" "\<lambda>pb. tb_tokens (pb_bucket pb)"
  "\<lambda>pb. bucket_ok rate burst (pb_bucket pb)" "uint rate" "uint burst"
  for rate burst
proof (unfold_locales, simp add: bucket_ok_def)
  fix pb op b pb'
  assume ok: "bucket_ok rate burst (pb_bucket pb)" and s: "budget_step pb op = (b, pb')"
  show "bucket_ok rate burst (pb_bucket pb') \<and> tb_last (pb_bucket pb) \<le> tb_last (pb_bucket pb') \<and>
    tb_tokens (pb_bucket pb') + (if b then 1000 else 0)
      \<le> tb_tokens (pb_bucket pb) + uint rate * (tb_last (pb_bucket pb') - tb_last (pb_bucket pb))"
  proof (cases op)
    case (OpTake now ack)
    then show ?thesis using Budget_Take_cost [OF ok] s by simp
  next
    case (OpReady now ack)
    then show ?thesis using s ok Available_cost(1) [OF ok]
      by (cases rule: Budget_Ready_cases [of pb now ack]) auto
  qed (use s ok in \<open>auto simp: NextAttempt_def\<close>)
qed

text \<open>
  The counters: \<open>spent\<close> counts all grants so far. Attempts of finished rounds are bounded by the limit,
  those of the current round are counted.
\<close>

definition counters_ok :: "nat \<Rightarrow> probe_budget \<Rightarrow> bool" where
  "counters_ok spent pb \<longleftrightarrow>
     1 \<le> pb_round pb \<and> pb_round pb \<le> pb_max_rounds pb \<and> pb_attempts pb \<le> pb_limit pb \<and>
     pb_probes pb \<le> pb_attempts pb \<and> pb_probes pb \<le> pb_probe_limit pb \<and>
     spent \<le> (unat (pb_round pb) - 1) * unat (pb_limit pb) + unat (pb_attempts pb)"

definition same_limits :: "probe_budget \<Rightarrow> probe_budget \<Rightarrow> bool" where
  "same_limits pb pb' \<longleftrightarrow> pb_limit pb' = pb_limit pb \<and> pb_probe_limit pb' = pb_probe_limit pb \<and>
     pb_max_rounds pb' = pb_max_rounds pb"

lemma budget_step_counters:
  assumes c: "counters_ok spent pb" and s: "budget_step pb op = (b, pb')"
  shows "counters_ok (if b then Suc spent else spent) pb' \<and> same_limits pb pb'"
proof (cases op)
  case (OpTake now ack)
  show ?thesis
  proof (cases rule: Budget_Ready_cases [of pb now ack])
    case 1 then show ?thesis using c s OpTake by (auto simp: Budget_Take_def same_limits_def)
  next
    case (2 ok tb)
    obtain d tb2 where d: "Bucket_Take tb now = (d, tb2)" by fastforce
    have at: "unat (pb_attempts pb + 1) = Suc (unat (pb_attempts pb))" "pb_attempts pb + 1 \<le> pb_limit pb"
      using unat_Suc_less 2(1) by blast+
    have pr: "ack \<or> unat (pb_probes pb + 1) = Suc (unat (pb_probes pb)) \<and> pb_probes pb + 1 \<le> pb_probe_limit pb"
      using unat_Suc_less 2(2) by blast
    show ?thesis
      using c s OpTake d 2(4) at pr
      by (cases ok; cases d; cases ack) (auto simp: Budget_Take_def counters_ok_def same_limits_def word_le_nat_alt)
  qed
next
  case (OpReady now ack)
  then show ?thesis using c s
    by (cases rule: Budget_Ready_cases [of pb now ack]) (auto simp: counters_ok_def same_limits_def)
next
  case OpNext
  show ?thesis
  proof (cases "pb_round pb \<ge> pb_max_rounds pb")
    case True
    then show ?thesis using c s OpNext by (auto simp: NextAttempt_def same_limits_def)
  next
    case False
    then have r: "unat (pb_round pb + 1) = Suc (unat (pb_round pb))" "pb_round pb + 1 \<le> pb_max_rounds pb"
      using unat_Suc_less [of "pb_round pb" "pb_max_rounds pb"] by (auto simp: not_le)
    have "1 \<le> unat (pb_round pb)" "unat (pb_attempts pb) \<le> unat (pb_limit pb)"
      "spent \<le> (unat (pb_round pb) - 1) * unat (pb_limit pb) + unat (pb_attempts pb)"
      using c by (auto simp: counters_ok_def word_le_nat_alt)
    then have "spent \<le> unat (pb_round pb) * unat (pb_limit pb)"
      by (cases "unat (pb_round pb)") auto
    then show ?thesis using c s OpNext False r
      by (auto simp: NextAttempt_def counters_ok_def same_limits_def word_le_nat_alt)
  qed
qed

lemma budget_run_counters:
  "counters_ok spent pb \<Longrightarrow> grants budget_step pb ops = (n, pb') \<Longrightarrow>
     counters_ok (spent + n) pb' \<and> same_limits pb pb'"
proof (induction ops arbitrary: pb n spent)
  case (Cons op ops)
  obtain b pb1 where s1: "budget_step pb op = (b, pb1)" by fastforce
  obtain m where m: "grants budget_step pb1 ops = (m, pb')" "n = (if b then Suc m else m)"
    using Cons.prems(2) s1 by (auto split: prod.splits)
  have "counters_ok (if b then Suc spent else spent) pb1" "same_limits pb pb1"
    using budget_step_counters [OF Cons.prems(1) s1] by auto
  then show ?case using Cons.IH [OF _ m(1)] m(2) by (fastforce simp: same_limits_def split: if_splits)
qed (simp add: same_limits_def)

lemma probe_limit_pos:
  assumes "Validate c"
  shows "0 < ProbeLimit c r" "ProbeLimit c r \<le> probe_packet_budget c"
proof -
  let ?b = "probe_packet_budget c"
  have "?b \<noteq> 0" using assms by (simp add: Validate_def split: if_splits)
  then have b: "0 < unat ?b" by (simp add: unat_gt_0)
  have "min r (?b div 8) \<le> ?b div 8" by simp
  then have le: "unat (min r (?b div 8)) \<le> unat ?b div 8" by (simp add: word_le_nat_alt unat_div_distrib)
  have "min r (?b div 8) \<le> ?b" using le by (simp add: word_le_nat_alt)
  then have "unat (ProbeLimit c r) = unat ?b - unat (min r (?b div 8))"
    by (simp add: ProbeLimit_def unat_diff)
  then show "0 < ProbeLimit c r" "ProbeLimit c r \<le> ?b"
    using le b by (simp_all add: word_le_nat_alt word_less_nat_alt)
qed

section \<open>The budget of the process\<close>

datatype process_op = OpAcquire | OpRelease u64 | OpProcessTake u64 bool int

fun process_step :: "process_budget \<Rightarrow> process_op \<Rightarrow> bool \<times> process_budget" where
  "process_step pb OpAcquire = (False, snd (Acquire pb))"
| "process_step pb (OpRelease ident) = (False, Release pb ident)"
| "process_step pb (OpProcessTake ident ack now) = Process_Take pb ident ack now"

definition process_ok :: "process_budget \<Rightarrow> bool" where
  "process_ok pb \<longleftrightarrow> length (pr_active pb) \<le> 2 \<and> distinct (pr_active pb) \<and>
     (\<forall>i \<in> set (pr_active pb). 0 < i \<and> i \<le> pr_next pb) \<and>
     distinct (map w_id (pr_waiting pb)) \<and> w_id ` set (pr_waiting pb) \<subseteq> set (pr_active pb)"

lemma note_waiter_ids:
  "map w_id (note_waiter i a ws) = (if i \<in> w_id ` set ws then map w_id ws else map w_id ws @ [i])"
  by (induction i a ws rule: note_waiter.induct) auto

lemma note_waiter_not_Nil: "note_waiter i a ws \<noteq> []"
  by (cases ws) auto

lemma note_waiter_own:
  "distinct (map w_id ws) \<Longrightarrow> w \<in> set (note_waiter i a ws) \<Longrightarrow> w_id w = i \<Longrightarrow> w_ack w = a"
  by (induction i a ws rule: note_waiter.induct) (auto split: if_splits)

lemma note_waiter_other:
  "w_id w \<noteq> i \<Longrightarrow> w \<in> set (note_waiter i a ws) \<longleftrightarrow> w \<in> set ws"
  by (induction i a ws rule: note_waiter.induct) auto

lemma next_waiter_cases:
  assumes "ws \<noteq> []"
  shows "next_waiter ws < length ws \<and> (\<forall>k < next_waiter ws. \<not> w_ack (ws ! k)) \<and>
    (w_ack (ws ! next_waiter ws) \<or> next_waiter ws = 0 \<and> (\<forall>w \<in> set ws. \<not> w_ack w))"
proof (cases "find (\<lambda>i. w_ack (ws ! i)) [0..<length ws]")
  case None
  then have "\<forall>i < length ws. \<not> w_ack (ws ! i)" by (auto simp: find_None_iff)
  then show ?thesis using None assms by (auto simp: next_waiter_def in_set_conv_nth)
next
  case (Some i)
  then have "i < length ws" "w_ack (ws ! i)" "\<forall>k < i. \<not> w_ack (ws ! k)" by (auto simp: find_Some_iff)
  then show ?thesis using Some by (simp add: next_waiter_def)
qed

lemma distinct_cut: "distinct xs \<Longrightarrow> distinct (take n xs @ drop (Suc n) xs)"
  by (simp add: set_take_disj_set_drop_if_distinct)

lemma process_take_waiting:
  fixes ack
  assumes ok: "process_ok pb" and i: "ident \<in> set (pr_active pb)"
  defines "ws \<equiv> note_waiter ident ack (pr_waiting pb)"
  shows "distinct (map w_id ws)" "w_id ` set ws \<subseteq> set (pr_active pb)"
    "distinct (map w_id (take n ws @ drop (Suc n) ws))" "w_id ` set (take n ws @ drop (Suc n) ws) \<subseteq> set (pr_active pb)"
proof -
  have m: "map w_id ws = (if ident \<in> w_id ` set (pr_waiting pb) then map w_id (pr_waiting pb) else map w_id (pr_waiting pb) @ [ident])"
    by (simp add: ws_def note_waiter_ids)
  show d: "distinct (map w_id ws)" unfolding m using ok by (auto simp: process_ok_def)
  have "set (map w_id ws) \<subseteq> set (pr_active pb)" unfolding m using ok i by (auto simp: process_ok_def)
  then show sub: "w_id ` set ws \<subseteq> set (pr_active pb)" by simp
  show "distinct (map w_id (take n ws @ drop (Suc n) ws))"
    using distinct_cut [OF d, of n] by (simp add: take_map drop_map)
  show "w_id ` set (take n ws @ drop (Suc n) ws) \<subseteq> set (pr_active pb)"
    using sub set_take_subset [of n ws] set_drop_subset [of "Suc n" ws] by auto
qed

lemma u64_succ:
  assumes "(n :: u64) \<noteq> 0xFFFFFFFFFFFFFFFF"
  shows "n < n + 1"
proof -
  have "unat n \<noteq> 18446744073709551615"
  proof
    assume "unat n = 18446744073709551615"
    then show False using assms by (simp add: word_unat_eq_iff)
  qed
  moreover have "unat n < 2 ^ 64" by (rule order_less_le_trans [OF unsigned_less]) simp
  ultimately have "Suc (unat n) < 2 ^ 64" by simp
  then show ?thesis by (simp add: word_less_nat_alt unat_word_ariths)
qed

lemma process_step_ok:
  assumes ok: "process_ok pb" and s: "process_step pb op = (b, pb')"
  shows "process_ok pb'"
proof (cases op)
  case OpAcquire
  show ?thesis
  proof (cases "length (pr_active pb) \<ge> 2 \<or> pr_next pb = 0xFFFFFFFFFFFFFFFF")
    case True then show ?thesis using ok s OpAcquire by (auto simp: Acquire_def)
  next
    case False
    then have n: "pr_next pb < pr_next pb + 1" using u64_succ by blast
    then have "pr_next pb + 1 \<notin> set (pr_active pb)" "0 < pr_next pb + 1"
      "\<forall>i \<in> set (pr_active pb). i \<le> pr_next pb + 1"
      using ok by (auto simp: process_ok_def word_gt_0 dest: order_le_less_trans)
    then show ?thesis using ok s OpAcquire False
      by (auto simp: Acquire_def process_ok_def Let_def List.insert_def; blast)
  qed
next
  case (OpRelease ident)
  have "length (removeAll ident (pr_active pb)) \<le> 2"
    using ok length_filter_le [of "(\<noteq>) ident" "pr_active pb"]
    unfolding process_ok_def removeAll_filter_not_eq by linarith
  moreover have "w_id ` set (filter (\<lambda>w. \<not> w_id w = ident) (pr_waiting pb)) \<subseteq> set (removeAll ident (pr_active pb))"
    using ok unfolding process_ok_def by auto
  moreover have "distinct (removeAll ident (pr_active pb))" "distinct (map w_id (filter (\<lambda>w. \<not> w_id w = ident) (pr_waiting pb)))"
    "\<forall>i \<in> set (removeAll ident (pr_active pb)). 0 < i \<and> i \<le> pr_next pb"
    using ok by (simp_all add: process_ok_def distinct_removeAll distinct_map_filter)
  ultimately have "process_ok (Release pb ident)"
    unfolding process_ok_def Release_def by (intro conjI) simp_all
  then show ?thesis using s OpRelease by simp
next
  case (OpProcessTake ident ack now)
  show ?thesis
  proof (cases "ident \<in> set (pr_active pb)")
    case True
    note w = process_take_waiting [OF ok True, where ack = ack]
    obtain d tb where d: "Bucket_Take (pr_bucket pb) now = (d, tb)" by fastforce
    have keep: "process_ok (pb\<lparr>pr_waiting := vs, pr_bucket := t\<rparr>)"
      if "distinct (map w_id vs)" "w_id ` set vs \<subseteq> set (pr_active pb)" for vs t
      using ok that by (simp add: process_ok_def)
    note keep1 = keep [where t = "pr_bucket pb", simplified]
    show ?thesis
      using s OpProcessTake True d keep [OF w(1,2)] keep1 [OF w(1,2)] keep [OF w(3,4)]
      by (cases d) (auto simp: Process_Take_def Let_def split: if_splits)
  qed (use ok s OpProcessTake in \<open>auto simp: Process_Take_def\<close>)
qed

lemma process_bucket_cost:
  assumes ok: "bucket_ok rate burst (pr_bucket pb)" and s: "process_step pb op = (b, pb')"
  shows "bucket_ok rate burst (pr_bucket pb') \<and> tb_last (pr_bucket pb) \<le> tb_last (pr_bucket pb') \<and>
    tb_tokens (pr_bucket pb') + (if b then 1000 else 0)
      \<le> tb_tokens (pr_bucket pb) + uint rate * (tb_last (pr_bucket pb') - tb_last (pr_bucket pb))"
proof (cases op)
  case (OpProcessTake ident ack now)
  obtain d tb where d: "Bucket_Take (pr_bucket pb) now = (d, tb)" by fastforce
  show ?thesis using Bucket_Take_cost [OF ok d] ok s d OpProcessTake
    by (cases d) (auto simp: Process_Take_def Let_def split: if_splits)
qed (use ok s in \<open>auto simp: Acquire_def Release_def Let_def\<close>)

interpretation process: rate_limited process_step "\<lambda>pb. tb_last (pr_bucket pb)" "\<lambda>pb. tb_tokens (pr_bucket pb)"
  "\<lambda>pb. bucket_ok rate burst (pr_bucket pb)" "uint rate" "uint burst"
  for rate burst
  by (unfold_locales, simp add: bucket_ok_def, rule process_bucket_cost)

lemma process_run_ok: "process_ok pb \<Longrightarrow> grants process_step pb ops = (n, pb') \<Longrightarrow> process_ok pb'"
proof (induction ops arbitrary: pb n)
  case (Cons op ops)
  then show ?case using process_step_ok by (auto split: prod.splits) metis
qed simp

section \<open>Round robin\<close>

fun rr_run :: "round_robin \<Rightarrow> int list \<Rightarrow> (nat \<times> int) list" where
  "rr_run rr [] = []"
| "rr_run rr (now # moments) =
     (case Peek rr now of None \<Rightarrow> rr_run (Commit rr now) moments | Some i \<Rightarrow> (i, now) # rr_run (Commit rr now) moments)"

text \<open>The first packet of every round waits for the bound, the next rounds for a second more.\<close>

fun gaps_ok :: "int \<Rightarrow> int list \<Rightarrow> bool" where
  "gaps_ok bound [] = True"
| "gaps_ok bound (t # ts) = (bound \<le> t \<and> gaps_ok (t + 1000) ts)"

definition round_starts :: "(nat \<times> int) list \<Rightarrow> int list" where
  "round_starts es = map snd (filter (\<lambda>(i, t). i = 0) es)"

lemma gaps_ok_mono: "gaps_ok b ts \<Longrightarrow> a \<le> b \<Longrightarrow> gaps_ok a ts"
  by (cases ts) auto

definition rr_ok :: "round_robin \<Rightarrow> bool" where
  "rr_ok rr \<longleftrightarrow> (0 < rr_count rr \<longrightarrow> rr_index rr < rr_count rr) \<and>
     rr_round rr * rr_count rr + rr_index rr \<le> rr_rounds rr * rr_count rr"

lemma Commit_cases:
  assumes ok: "rr_ok rr" and p: "Peek rr now = Some i"
  shows "i = rr_index rr" "i < rr_count rr" "rr_start rr \<le> now"
    "rr_count (Commit rr now) = rr_count rr" "rr_rounds (Commit rr now) = rr_rounds rr" "rr_ok (Commit rr now)"
    "rr_round (Commit rr now) * rr_count rr + rr_index (Commit rr now) = Suc (rr_round rr * rr_count rr + rr_index rr)"
    "(if i = 0 then now + 1000 else rr_start rr + 1000) \<le>
       (if rr_index (Commit rr now) = 0 then rr_start (Commit rr now) else rr_start (Commit rr now) + 1000)"
proof -
  have d: "\<not> rr_done rr" "rr_start rr \<le> now" "i = rr_index rr" using p by (auto simp: Peek_def split: if_splits)
  then have c: "0 < rr_count rr" "rr_round rr < rr_rounds rr" "rr_index rr < rr_count rr"
    using ok by (auto simp: rr_done_def rr_ok_def)
  have "Suc (rr_round rr) * rr_count rr \<le> rr_rounds rr * rr_count rr" using c(2) by (intro mult_le_mono1) simp
  then have le: "Suc (rr_round rr * rr_count rr + rr_index rr) \<le> rr_rounds rr * rr_count rr" using c(3) by simp
  show "i = rr_index rr" "i < rr_count rr" "rr_start rr \<le> now" using d c by auto
  show "rr_count (Commit rr now) = rr_count rr" "rr_rounds (Commit rr now) = rr_rounds rr"
    using p by (auto simp: Commit_def Let_def)
  show "rr_round (Commit rr now) * rr_count rr + rr_index (Commit rr now) = Suc (rr_round rr * rr_count rr + rr_index rr)"
    "rr_ok (Commit rr now)"
    using p c le by (auto simp: Commit_def Let_def rr_ok_def)
  show "(if i = 0 then now + 1000 else rr_start rr + 1000) \<le>
       (if rr_index (Commit rr now) = 0 then rr_start (Commit rr now) else rr_start (Commit rr now) + 1000)"
    using p d by (auto simp: Commit_def Let_def)
qed

lemma rr_run_spec:
  assumes "rr_ok rr" "k = rr_round rr * rr_count rr + rr_index rr"
  shows "map fst (rr_run rr moments) = map (\<lambda>i. i mod rr_count rr) [k..<k + length (rr_run rr moments)] \<and>
    k + length (rr_run rr moments) \<le> rr_rounds rr * rr_count rr \<and>
    gaps_ok (if rr_index rr = 0 then rr_start rr else rr_start rr + 1000) (round_starts (rr_run rr moments))"
  using assms
proof (induction moments arbitrary: rr k)
  case Nil then show ?case by (simp add: rr_ok_def round_starts_def)
next
  case (Cons now moments)
  show ?case
  proof (cases "Peek rr now")
    case None
    then have "Commit rr now = rr" by (simp add: Commit_def)
    then show ?thesis using None Cons by simp
  next
    case (Some i)
    note c = Commit_cases [OF Cons.prems(1) Some]
    have mod: "i = k mod rr_count rr" using c(1,2) Cons.prems(2) by simp
    note ih = Cons.IH [OF c(6), of "Suc k", unfolded c(4,5,7) Cons.prems(2), OF refl, folded Cons.prems(2)]
    have gaps: "gaps_ok (if i = 0 then now + 1000 else rr_start rr + 1000) (round_starts (rr_run (Commit rr now) moments))"
      using ih c(8) gaps_ok_mono by blast
    show ?thesis
      using Some ih mod gaps c(1,3) by (auto simp: upt_rec [of k] round_starts_def)
  qed
qed

section \<open>Sampled ports\<close>

lemma sample_loop_perm:
  "i \<le> cnt \<Longrightarrow> cnt \<le> length ports \<Longrightarrow> sample_loop random pos cnt i ports = Some ports' \<Longrightarrow> mset ports' = mset ports"
proof (induction random pos cnt i ports rule: sample_loop.induct)
  case (1 random pos cnt i ports)
  show ?case
  proof (cases "i < cnt")
    case True
    let ?b = "length ports - i"
    obtain v pos' where d: "draw random pos (2 ^ 32 - 2 ^ 32 mod ?b) 32 = Some (v, pos')"
      and r: "sample_loop random pos' cnt (Suc i) (ports[i := ports ! (i + unat v mod ?b), i + unat v mod ?b := ports ! i]) = Some ports'"
      using 1(4) True by (subst (asm) sample_loop.simps) (auto simp: Let_def split: option.splits)
    have "0 < ?b" using True 1(3) by simp
    then have j: "i + unat v mod ?b < length ports" using mod_less_divisor [of ?b "unat v"] by linarith
    have "mset ports' = mset (ports[i := ports ! (i + unat v mod ?b), i + unat v mod ?b := ports ! i])"
      using 1(1) [OF True refl refl refl d refl refl _ _ r] True 1(3) by simp
    also have "\<dots> = mset ports" using j True 1(3) by (intro mset_swap) auto
    finally show ?thesis .
  next
    case False
    then show ?thesis using 1(4) by (subst (asm) sample_loop.simps) simp
  qed
qed

lemma draw_first: "random pos = Some v \<Longrightarrow> unat v < limit \<Longrightarrow> draw random pos limit 32 = Some (v, Suc pos)"
  by (simp add: numeral_eq_Suc)

lemma sample_limit: "bound \<le> 65536 \<Longrightarrow> 0 < bound \<Longrightarrow> unat (v :: u32) < 2 ^ 31 \<Longrightarrow> unat v < 2 ^ 32 - 2 ^ 32 mod bound"
proof -
  assume a: "bound \<le> 65536" "0 < bound" "unat v < 2 ^ 31"
  have p: "(2 :: nat) ^ 32 = 4294967296" "(2 :: nat) ^ 31 = 2147483648" by simp_all
  show ?thesis using a mod_less_divisor [OF a(2), of 4294967296] unfolding p by linarith
qed

lemma sample_loop_total:
  "i \<le> cnt \<Longrightarrow> cnt \<le> length ports \<Longrightarrow> length ports \<le> 65536 \<Longrightarrow>
   (\<forall>n. \<exists>v. random n = Some v \<and> unat v < 2 ^ 31) \<Longrightarrow> sample_loop random pos cnt i ports \<noteq> None"
proof (induction random pos cnt i ports rule: sample_loop.induct)
  case (1 random pos cnt i ports)
  show ?case
  proof (cases "i < cnt")
    case True
    let ?b = "length ports - i"
    obtain v where v: "random pos = Some v" "unat v < 2 ^ 31" using 1(5) by blast
    have "unat v < 2 ^ 32 - 2 ^ 32 mod ?b" using True 1(3,4) v(2) by (intro sample_limit) auto
    note d = draw_first [of random, OF v(1) this]
    show ?thesis
      using 1(1) [OF True refl refl refl d refl refl] True 1(3-5)
      by (subst sample_loop.simps) (simp add: Let_def d [simplified])
  qed (subst sample_loop.simps, simp)
qed

lemma free_ports_set: "set (free_ports exclude) = {1024..<65536} - exclude"
  unfolding free_ports_def set_filter set_upt by blast

lemma SamplePunchPorts_ok:
  assumes "SamplePunchPorts cnt exclude random \<noteq> []"
  defines "ports \<equiv> SamplePunchPorts cnt exclude random"
  shows "length ports = cnt \<and> sorted ports \<and> distinct ports \<and> set ports \<subseteq> {1024..65535} - exclude"
proof -
  obtain ps where ps: "cnt \<le> length (free_ports exclude)" "sample_loop random 0 cnt 0 (free_ports exclude) = Some ps"
    "ports = sort (take cnt ps)"
    using assms by (auto simp: SamplePunchPorts_def Let_def split: if_splits option.splits)
  have m: "mset ps = mset (free_ports exclude)" using sample_loop_perm [OF _ ps(1,2)] by simp
  have "distinct (free_ports exclude)" unfolding free_ports_def by (intro distinct_filter distinct_upt)
  then have d: "distinct ps" using mset_eq_imp_distinct_iff [OF m] by simp
  have st: "set ps = set (free_ports exclude)" using mset_eq_setD [OF m] .
  have l: "length ps = length (free_ports exclude)" using mset_eq_length [OF m] .
  have "set (take cnt ps) \<subseteq> {1024..65535} - exclude"
    using set_take_subset [of cnt ps] unfolding st free_ports_set by auto
  then show ?thesis using ps(1,3) d l by simp
qed

section \<open>Properties\<close>

text \<open>
  C24: The token bucket enforces its rate in every window of time: from any state it can be in, any
  sequence of requests at any moments is granted at most the burst plus the rate times the elapsed
  seconds.
\<close>

theorem token_bucket_rate:
  assumes "bucket_ok rate burst tb" "grants Bucket_Take tb moments = (n, tb')"
  shows "1000 * int n \<le> 1000 * uint burst + uint rate * (tb_last tb' - tb_last tb)"
  using assms by (rule bucket.run_bound)

theorem token_bucket_rate_witness:
  "grants Bucket_Take (bucket_init 100 2 0) [0, 0, 0, 5, 10, 10, 20] = (4, \<lparr>tb_rate = 100, tb_burst = 2, tb_tokens = 0, tb_last = 20\<rparr>) \<and>
   1000 * int 4 \<le> 1000 * uint (2 :: u32) + uint (100 :: u32) * (20 - 0)"
proof -
  have r: "grants Bucket_Take (bucket_init 100 2 0) [0, 0, 0, 5, 10, 10, 20] = (4, \<lparr>tb_rate = 100, tb_burst = 2, tb_tokens = 0, tb_last = 20\<rparr>)"
    by (simp add: bucket_init_def Bucket_Take_def Available_def)
  then show ?thesis using token_bucket_rate [OF bucket_init_ok r] by (simp add: bucket_init_def)
qed

text \<open>
  C25: The budget of a connection bounds what it sends: whatever is requested, including retries, all
  grants together stay within the packet limit of every attempt (two attempts at most), and within the
  configured rate.
\<close>

theorem probe_budget_bounded:
  assumes "Validate c" "grants budget_step (probe_budget_init c now retry ack_reserve) ops = (n, pb)"
  shows "n \<le> (if retry then 2 else 1) * unat (probe_packet_budget c) \<and>
    pb_probes pb \<le> ProbeLimit c ack_reserve \<and> pb_attempts pb \<le> probe_packet_budget c \<and>
    1000 * int n \<le> 1000 * uint (burst_packets c) + uint (probe_pps c) * (tb_last (pb_bucket pb) - now)"
proof -
  let ?pb = "probe_budget_init c now retry ack_reserve"
  have "counters_ok 0 ?pb" by (simp add: counters_ok_def probe_budget_init_def)
  then have k: "counters_ok n pb" "same_limits ?pb pb" using budget_run_counters [OF _ assms(2), where spent = 0] by auto
  have l: "pb_limit pb = probe_packet_budget c" "pb_probe_limit pb = ProbeLimit c ack_reserve"
    "pb_max_rounds pb = (if retry then 2 else 1)"
    using k(2) by (simp_all add: same_limits_def probe_budget_init_def)
  have "n \<le> (unat (pb_round pb) - 1) * unat (pb_limit pb) + unat (pb_attempts pb)"
    "1 \<le> unat (pb_round pb)" "unat (pb_round pb) \<le> unat (pb_max_rounds pb)" "unat (pb_attempts pb) \<le> unat (pb_limit pb)"
    using k(1) by (auto simp: counters_ok_def word_le_nat_alt)
  then have "n \<le> unat (pb_round pb) * unat (pb_limit pb)" by (cases "unat (pb_round pb)") auto
  also have "\<dots> \<le> unat (pb_max_rounds pb) * unat (pb_limit pb)"
    using \<open>unat (pb_round pb) \<le> unat (pb_max_rounds pb)\<close> by (rule mult_le_mono1)
  finally have "n \<le> (if retry then 2 else 1) * unat (probe_packet_budget c)" using l by (cases retry) auto
  moreover have "bucket_ok (probe_pps c) (burst_packets c) (pb_bucket ?pb)"
    by (simp add: probe_budget_init_def bucket_init_ok)
  note probe_limit.run_bound [OF this assms(2)]
  ultimately show ?thesis using k(1) l by (simp add: counters_ok_def probe_budget_init_def bucket_init_def)
qed

theorem probe_budget_bounded_witness:
  "fst (grants budget_step (probe_budget_init (config_init\<lparr>probe_packet_budget := 2\<rparr>) 0 True 0)
     [OpTake 0 False, OpTake 0 False, OpTake 0 False, OpNext, OpTake 0 True, OpTake 0 True, OpNext, OpTake 0 True]) = 4 \<and>
   (4 :: nat) \<le> 2 * unat (2 :: u32)"
proof -
  let ?c = "config_init\<lparr>probe_packet_budget := 2\<rparr>"
  let ?g = "grants budget_step (probe_budget_init ?c 0 True 0)
     [OpTake 0 False, OpTake 0 False, OpTake 0 False, OpNext, OpTake 0 True, OpTake 0 True, OpNext, OpTake 0 True]"
  have v: "Validate ?c" by (simp add: Validate_def config_init_def)
  have n: "fst ?g = 4" by code_simp
  then obtain pb where g: "?g = (4, pb)" by (metis prod.collapse)
  have "(4 :: nat) \<le> (if True then 2 else 1) * unat (probe_packet_budget ?c)"
    using probe_budget_bounded [OF v g] by (rule conjunct1)
  then show ?thesis using n by simp
qed

text \<open>
  C26: Across all connections of the process at most two rounds are active, whatever is acquired,
  released and requested in whatever order; waiting entries belong to active rounds, and all rounds
  together are granted at most 8 packets at once and 200 a second.
\<close>

theorem process_budget_bounded:
  assumes "grants process_step (process_budget_init now) ops = (n, pb)"
  shows "length (pr_active pb) \<le> 2 \<and> distinct (pr_active pb) \<and> w_id ` set (pr_waiting pb) \<subseteq> set (pr_active pb) \<and>
    1000 * int n \<le> 8000 + 200 * (tb_last (pr_bucket pb) - now)"
proof -
  have "process_ok (process_budget_init now)" by (simp add: process_ok_def process_budget_init_def)
  then have "process_ok pb" using process_run_ok assms by blast
  moreover have "bucket_ok 200 8 (pr_bucket (process_budget_init now))"
    by (simp add: process_budget_init_def bucket_init_ok)
  note process.run_bound [OF this assms]
  ultimately show ?thesis by (simp add: process_ok_def process_budget_init_def bucket_init_def)
qed

theorem process_budget_bounded_witness:
  "let r = grants process_step (process_budget_init 0)
     [OpAcquire, OpAcquire, OpAcquire, OpProcessTake 1 False 0, OpProcessTake 3 False 0, OpProcessTake 2 True 0, OpRelease 1] in
   fst r = 2 \<and> pr_active (snd r) = [2] \<and> length (pr_active (snd r)) \<le> 2"
proof -
  let ?r = "grants process_step (process_budget_init 0)
     [OpAcquire, OpAcquire, OpAcquire, OpProcessTake 1 False 0, OpProcessTake 3 False 0, OpProcessTake 2 True 0, OpRelease 1]"
  have "fst ?r = 2" "pr_active (snd ?r) = [2]" by code_simp+
  then show ?thesis using process_budget_bounded [of 0 _ "fst ?r" "snd ?r"] unfolding Let_def by (metis prod.collapse)
qed

text \<open>
  Acknowledgements come first. A request is granted only to an active round, only when no other
  round waits with an acknowledgement ahead of it; a probe is granted only when no acknowledgement
  waits at all and the round has waited longest.
\<close>

theorem process_ack_priority:
  assumes "process_ok pb" "Process_Take pb ident ack now = (True, pb')"
  shows "ident \<in> set (pr_active pb) \<and>
    (let ws = note_waiter ident ack (pr_waiting pb) in
     \<exists>k < length ws. w_id (ws ! k) = ident \<and> (\<forall>j < k. \<not> w_ack (ws ! j)) \<and>
       (\<not> ack \<longrightarrow> k = 0 \<and> (\<forall>w \<in> set (pr_waiting pb). w_ack w \<longrightarrow> w_id w = ident)))"
proof -
  define ws where "ws = note_waiter ident ack (pr_waiting pb)"
  let ?k = "next_waiter ws"
  have a: "ident \<in> set (pr_active pb)" "w_id (ws ! ?k) = ident"
    using assms(2) by (auto simp: Process_Take_def Let_def ws_def split: if_splits prod.splits bool.splits)
  have c: "?k < length ws" "\<forall>j < ?k. \<not> w_ack (ws ! j)" "w_ack (ws ! ?k) \<or> ?k = 0 \<and> (\<forall>w \<in> set ws. \<not> w_ack w)"
    using next_waiter_cases [of ws] note_waiter_not_Nil [of ident ack] by (auto simp: ws_def)
  have own: "w_ack (ws ! ?k) = ack"
    using note_waiter_own [of "pr_waiting pb" "ws ! ?k" ident ack] assms(1) c(1) a(2)
    by (simp add: process_ok_def ws_def)
  have "?k = 0 \<and> (\<forall>w \<in> set (pr_waiting pb). w_ack w \<longrightarrow> w_id w = ident)" if "\<not> ack"
    using that own c(3) note_waiter_other [of _ ident ack "pr_waiting pb"] unfolding ws_def by blast
  then show ?thesis using a c by (auto simp: Let_def ws_def)
qed

theorem process_ack_priority_witness:
  "fst (Process_Take (process_budget_init 0\<lparr>pr_next := 2, pr_active := [1, 2], pr_waiting := [\<lparr>w_id = 2, w_ack = True\<rparr>]\<rparr>) 1 False 0) = False \<and>
   fst (Process_Take (process_budget_init 0\<lparr>pr_next := 2, pr_active := [1, 2], pr_waiting := [\<lparr>w_id = 1, w_ack = False\<rparr>]\<rparr>) 2 True 0)"
proof -
  let ?pb = "process_budget_init 0\<lparr>pr_next := 2, pr_active := [1, 2], pr_waiting := [\<lparr>w_id = 2, w_ack = True\<rparr>]\<rparr>"
  have "process_ok ?pb" by (simp add: process_ok_def process_budget_init_def)
  then have "\<not> fst (Process_Take ?pb 1 False 0)"
    using process_ack_priority [of ?pb 1 False 0 "snd (Process_Take ?pb 1 False 0)"]
    by (auto simp: Let_def prod_eq_iff process_budget_init_def)
  moreover have "fst (Process_Take (process_budget_init 0\<lparr>pr_next := 2, pr_active := [1, 2], pr_waiting := [\<lparr>w_id = 1, w_ack = False\<rparr>]\<rparr>) 2 True 0)"
    by code_simp
  ultimately show ?thesis by simp
qed

text \<open>
  C27: The round robin visits all targets in order, round after round, whatever the moments of the
  calls: the \<open>i\<close>-th packet goes to target \<open>i mod cnt\<close>, no more than all rounds are sent, the first
  round does not begin before the start and every further round begins at least a second after the
  previous one.
\<close>

theorem round_robin_order:
  "map fst (rr_run (rr_init cnt rounds start) moments) =
     map (\<lambda>i. i mod cnt) [0..<length (rr_run (rr_init cnt rounds start) moments)] \<and>
   length (rr_run (rr_init cnt rounds start) moments) \<le> rounds * cnt \<and>
   gaps_ok start (round_starts (rr_run (rr_init cnt rounds start) moments))"
  using rr_run_spec [of "rr_init cnt rounds start" 0 moments] by (simp add: rr_init_def rr_ok_def)



text \<open>
  A valid pair of deadlines keeps the original deadline: probing ends after now, within the
  duration, and the reserve that remains for ICE to finish is complete.
\<close>

lemma deadlines_within:
  assumes "MakePunchDeadlines now original duration reserve = d" "dl_probe d \<noteq> 0"
  shows "now < dl_probe d \<and> dl_probe d \<le> now + uint duration \<and> dl_finish d = dl_probe d + uint reserve \<and>
    dl_finish d \<le> original"
proof -
  have "duration \<noteq> 0 \<Longrightarrow> 0 < uint duration" using word_gt_0 [of duration] by (simp add: word_less_def)
  then show ?thesis using assms by (auto simp: MakePunchDeadlines_def Let_def split: if_splits)
qed

end
