(* ===== verification/Punch_Negotiation.thy ===== *)
theory Punch_Negotiation
  imports Punch_Plan
begin

text \<open>
  The negotiation of a punching round (\<^verbatim>\<open>src/ice/punch_coordinator.cpp\<close>): a state machine that exchanges
  HELLO, PREPARE, READY, START and STARTED messages under a deadline and a packet limit.

  The libraries and the pure hook \<open>plan\<close> are fields of \<open>punch_env\<close>. What the other hooks answer during
  a call is its argument of type \<open>hook_answers\<close>: the result of \<open>prepare\<close>, of \<open>random_round\<close>, of
  \<open>poll_prepare\<close>, and the calls of \<open>Stop\<close> that \<open>poll_prepare\<close> and \<open>start\<close> make themselves. What the
  negotiation tells the hooks is the list of effects, oldest first. Values of the JSON library are
  compared by \<open>json_eq\<close> (objects without order); assignment to a member is \<open>jset\<close>, for objects.
\<close>

section \<open>State\<close>

datatype nstate = Idle | HelloSent | Allocating | Preparing | ReadySent | Probing | Stopped

datatype preparation = PrepPending | PrepReady | PrepFailed

datatype hook_call =
    Sent bytes
  | RemoteHello json int
  | PrepareHook json
  | StartHook bytes json int
  | StopHook string

record punch_env =
  e_hmac :: "bytes \<Rightarrow> bytes \<Rightarrow> bytes"
  e_sha :: "bytes \<Rightarrow> bytes"
  e_parse :: json_parser
  e_dump :: "json \<Rightarrow> bytes option"
  e_plan :: "json \<Rightarrow> json \<Rightarrow> json option"
  e_has_poll :: bool

record hook_answers =
  a_prepare :: bool
  a_random_round :: "bytes option"
  a_poll :: preparation
  a_poll_stop :: "(string \<times> bool) option"
  a_start_stop :: "(string \<times> bool) option"

record negotiation =
  n_offer :: bool
  n_generation :: bytes
  n_round :: bytes
  n_tx :: bytes
  n_rx :: bytes
  n_state :: nstate
  n_replay :: replay_window
  n_local_hello :: json
  n_remote_hello :: json
  n_plan :: json
  n_hello :: bytes
  n_prepare :: bytes
  n_ready :: bytes
  n_start :: bytes
  n_started :: bytes
  n_pending :: bytes
  n_remote_payload :: bytes
  n_pending_kind :: kind
  n_digest :: string
  n_next_sequence :: u32
  n_attempts :: u32
  n_limit :: u32
  n_retries :: u32
  n_deadline :: int
  n_retry_at :: int
  n_effects :: "hook_call list"

definition negotiation_init :: "bool \<Rightarrow> bytes \<Rightarrow> bytes \<Rightarrow> bytes \<Rightarrow> negotiation" where
  "negotiation_init offer generation offer_control answer_control =
     \<lparr>n_offer = offer, n_generation = generation, n_round = replicate 16 0,
      n_tx = (if offer then offer_control else answer_control),
      n_rx = (if offer then answer_control else offer_control),
      n_state = Idle, n_replay = replay_init, n_local_hello = JNull, n_remote_hello = JNull, n_plan = JNull,
      n_hello = [], n_prepare = [], n_ready = [], n_start = [], n_started = [], n_pending = [],
      n_remote_payload = [], n_pending_kind = Hello, n_digest = [], n_next_sequence = 1, n_attempts = 0,
      n_limit = 48, n_retries = 0, n_deadline = 0, n_retry_at = 0, n_effects = []\<rparr>"

section \<open>JSON helpers\<close>

lemma zip_size [termination_simp]: "(a, b) \<in> set (zip vs ws) \<Longrightarrow> size a < Suc (size_list size vs)"
  by (meson le_imp_less_Suc set_zip_leftD size_list_estimation' order_refl)

fun json_eq :: "json \<Rightarrow> json \<Rightarrow> bool" where
  "json_eq (JObject fs) (JObject gs) =
     (length fs = length gs \<and>
      list_all (\<lambda>(k, v). case map_of gs k of None \<Rightarrow> False | Some w \<Rightarrow> json_eq v w) fs)"
| "json_eq (JArray vs) (JArray ws) = (length vs = length ws \<and> list_all (\<lambda>(v, w). json_eq v w) (zip vs ws))"
| "json_eq JNull JNull = True"
| "json_eq (JBool a) (JBool b) = (a = b)"
| "json_eq (JInt a) (JInt b) = (a = b)"
| "json_eq (JString a) (JString b) = (a = b)"
| "json_eq JFloat JFloat = True"
| "json_eq _ _ = False"

definition jset :: "json \<Rightarrow> string \<Rightarrow> json \<Rightarrow> json" where
  "jset j k v = (case j of JObject fs \<Rightarrow> JObject (AList.update k v fs) | JNull \<Rightarrow> JObject [(k, v)] | _ \<Rightarrow> j)"

section \<open>Operations\<close>

definition effect :: "hook_call \<Rightarrow> negotiation \<Rightarrow> negotiation" where
  "effect e n = n\<lparr>n_effects := n_effects n @ [e]\<rparr>"

text \<open>The end of \<open>Stop\<close>: keys are wiped and the hook is told.\<close>

definition halt :: "string \<Rightarrow> negotiation \<Rightarrow> negotiation" where
  "halt reason n = effect (StopHook reason)
     (n\<lparr>n_state := Stopped, n_pending := [], n_tx := replicate 32 0, n_rx := replicate 32 0\<rparr>)"

text \<open>\<open>Stop(reason, false)\<close>\<close>

definition StopQuiet :: "string \<Rightarrow> negotiation \<Rightarrow> negotiation" where
  "StopQuiet reason n = (if n_state n = Stopped then n else halt reason n)"

definition Emit :: "bytes \<Rightarrow> negotiation \<Rightarrow> bool \<times> negotiation" where
  "Emit bs n =
     (if bs = [] \<or> n_state n = Stopped then (False, n)
      else if n_attempts n \<ge> n_limit n then (False, StopQuiet ''budget'' n)
      else (True, effect (Sent bs) (n\<lparr>n_attempts := n_attempts n + 1\<rparr>)))"

definition Make :: "punch_env \<Rightarrow> kind \<Rightarrow> json \<Rightarrow> negotiation \<Rightarrow> bytes \<times> negotiation" where
  "Make env kind v n =
     (if n_next_sequence n = 0 \<or> n_state n = Stopped then ([], n)
      else (Encode (e_hmac env) (e_parse env)
              \<lparr>pp_kind = kind, pp_generation = n_generation n,
               pp_round = (if kind = Hello then replicate 16 0 else n_round n),
               pp_sequence = n_next_sequence n, pp_payload = ControlPayload (e_dump env) kind v\<rparr> (n_tx n),
            n\<lparr>n_next_sequence := n_next_sequence n + 1\<rparr>))"

definition Stop :: "punch_env \<Rightarrow> string \<Rightarrow> bool \<Rightarrow> negotiation \<Rightarrow> negotiation" where
  "Stop env reason notify n =
     (if n_state n = Stopped then n
      else
        let n = (if notify \<and> \<not> IsZero (n_round n) \<and> n_attempts n < n_limit n
                 then (case Make env Cancel (JObject [(''reason'', JString reason)]) n of
                         (bs, n) \<Rightarrow> snd (Emit bs n))
                 else n)
        in halt reason n)"

definition Pending :: "kind \<Rightarrow> bytes \<Rightarrow> int \<Rightarrow> negotiation \<Rightarrow> negotiation" where
  "Pending kind bs now n =
     snd (Emit bs (n\<lparr>n_pending := bs, n_pending_kind := kind, n_retries := 0, n_retry_at := now + 200\<rparr>))"

definition Begin :: "punch_env \<Rightarrow> json \<Rightarrow> int \<Rightarrow> int \<Rightarrow> negotiation \<Rightarrow> bool \<times> negotiation" where
  "Begin env hello now deadline n =
     (if n_state n \<noteq> Idle \<or> deadline \<le> now \<or> deadline - now > 30000 \<or>
         ControlPayload (e_dump env) Hello hello = []
      then (False, n)
      else
        let n = n\<lparr>n_state := HelloSent, n_deadline := deadline, n_local_hello := hello,
                  n_limit := jnum (jfield (jfield hello ''budget'') ''control_packet_budget'')\<rparr>
        in case Make env Hello hello n of
             (bs, n) \<Rightarrow>
               let n = Pending Hello bs now (n\<lparr>n_hello := bs\<rparr>) in (n_state n \<noteq> Stopped, n))"

definition Start_probing :: "punch_env \<Rightarrow> hook_answers \<Rightarrow> int \<Rightarrow> negotiation \<Rightarrow> negotiation" where
  "Start_probing env ans now n =
     (if n_state n = Probing \<or> n_state n = Stopped then n
      else
        let n = effect (StartHook (n_round n) (n_plan n) now) (n\<lparr>n_state := Probing\<rparr>)
        in case a_start_stop ans of None \<Rightarrow> n | Some (reason, notify) \<Rightarrow> Stop env reason notify n)"

definition FinishPreparation :: "punch_env \<Rightarrow> int \<Rightarrow> negotiation \<Rightarrow> negotiation" where
  "FinishPreparation env now n =
     (if n_state n \<noteq> Allocating then n
      else
        let n = n\<lparr>n_digest := Digest (e_sha env) (ControlPayload (e_dump env) Prepare (n_plan n))\<rparr>
        in if n_offer n
           then (case Make env Prepare (n_plan n) n of
                   (bs, n) \<Rightarrow>
                     let n = n\<lparr>n_prepare := bs, n_state := Preparing\<rparr>; n = snd (Emit (n_hello n) n)
                     in Pending Prepare bs now n)
           else (case Make env Ready
                        (JObject [(''digest'', JString (n_digest n)), (''budget'', jfield (n_plan n) ''budget'')]) n of
                   (bs, n) \<Rightarrow> Pending Ready bs now (n\<lparr>n_ready := bs, n_state := ReadySent\<rparr>)))"

definition BeginPreparation :: "punch_env \<Rightarrow> hook_answers \<Rightarrow> int \<Rightarrow> negotiation \<Rightarrow> negotiation" where
  "BeginPreparation env ans now n =
     (let n = effect (PrepareHook (n_plan n)) (n\<lparr>n_state := Allocating, n_pending := []\<rparr>)
      in if \<not> a_prepare ans then Stop env ''resources'' True n
         else if \<not> e_has_poll env then FinishPreparation env now n else n)"

definition waits :: "int list" where "waits = [400, 800, 800]"

definition Tick :: "punch_env \<Rightarrow> hook_answers \<Rightarrow> int \<Rightarrow> negotiation \<Rightarrow> negotiation" where
  "Tick env ans now n =
     (if n_state n = Idle \<or> n_state n = Stopped then n
      else if now \<ge> n_deadline n then Stop env ''timeout'' True n
      else if n_state n = Allocating then
        let n = (case a_poll_stop ans of None \<Rightarrow> n | Some (reason, notify) \<Rightarrow> Stop env reason notify n)
        in if n_state n = Stopped then n
           else if a_poll ans = PrepFailed then Stop env ''resources'' True n
           else if a_poll ans = PrepReady then FinishPreparation env now n
           else n
      else if n_pending n = [] \<or> now < n_retry_at n then n
      else if n_retries n = 3 then
        (if n_pending_kind n = Hello then n\<lparr>n_pending := []\<rparr> else Stop env ''timeout'' True n)
      else
        case (if n_pending_kind n = Prepare then Emit (n_hello n) n else (True, n)) of
          (False, n) \<Rightarrow> n
        | (True, n) \<Rightarrow>
            (case Emit (n_pending n) n of
               (False, n) \<Rightarrow> n
             | (True, n) \<Rightarrow> n\<lparr>n_retry_at := now + waits ! unat (n_retries n), n_retries := n_retries n + 1\<rparr>))"

subsection \<open>Reception, by kind of message\<close>

definition receive_hello :: "punch_env \<Rightarrow> hook_answers \<Rightarrow> punch_packet \<Rightarrow> json \<Rightarrow> int \<Rightarrow> negotiation \<Rightarrow> negotiation" where
  "receive_hello env ans packet v now n =
     (if n_remote_hello n \<noteq> JNull then
        if \<not> json_eq (n_remote_hello n) v \<or> n_remote_payload n \<noteq> pp_payload packet
        then Stop env ''conflict'' True n
        else if n_offer n \<and> n_prepare n \<noteq> [] \<and> n_state n = Preparing
        then snd (Emit (n_prepare n) (snd (Emit (n_hello n) n)))
        else n
      else
        let n = effect (RemoteHello v now) (n\<lparr>n_remote_hello := v, n_remote_payload := pp_payload packet\<rparr>)
        in if \<not> n_offer n then snd (Emit (n_hello n) n)
           else
             case e_plan env (n_local_hello n) (n_remote_hello n) of
               None \<Rightarrow> Stop env ''ineligible'' False n
             | Some proposal \<Rightarrow>
                 let proposal = jset (jset proposal ''offer_hello''
                         (JString (Digest (e_sha env) (ControlPayload (e_dump env) Hello (n_local_hello n)))))
                       ''answer_hello'' (JString (Digest (e_sha env) (n_remote_payload n)))
                 in if ControlPayload (e_dump env) Prepare proposal = [] then Stop env ''ineligible'' False n
                    else
                      let n = n\<lparr>n_plan := proposal\<rparr>
                      in case a_random_round ans of
                           None \<Rightarrow> Stop env ''resources'' False n
                         | Some round \<Rightarrow>
                             let n = n\<lparr>n_round := round\<rparr>
                             in if IsZero round then Stop env ''resources'' False n
                                else BeginPreparation env ans now n)"

definition receive_prepare :: "punch_env \<Rightarrow> hook_answers \<Rightarrow> punch_packet \<Rightarrow> json \<Rightarrow> int \<Rightarrow> negotiation \<Rightarrow> negotiation" where
  "receive_prepare env ans packet v now n =
     (if n_plan n \<noteq> JNull then
        if \<not> json_eq (n_plan n) v then Stop env ''conflict'' True n
        else if n_ready n \<noteq> [] then snd (Emit (n_ready n) n)
        else n
      else if n_state n \<noteq> HelloSent \<or> n_remote_hello n = JNull then n
      else
        case e_plan env (n_local_hello n) (n_remote_hello n) of
          None \<Rightarrow> n
        | Some expected \<Rightarrow>
            let expected = jset (jset expected ''offer_hello'' (JString (Digest (e_sha env) (n_remote_payload n))))
                  ''answer_hello'' (JString (Digest (e_sha env) (ControlPayload (e_dump env) Hello (n_local_hello n))))
            in if \<not> json_eq expected v then n
               else BeginPreparation env ans now (n\<lparr>n_round := pp_round packet, n_plan := v\<rparr>))"

definition digest_is :: "json \<Rightarrow> negotiation \<Rightarrow> bool" where
  "digest_is v n = json_eq (jfield v ''digest'') (JString (n_digest n))"

definition receive_ready :: "punch_env \<Rightarrow> hook_answers \<Rightarrow> json \<Rightarrow> int \<Rightarrow> negotiation \<Rightarrow> negotiation" where
  "receive_ready env ans v now n =
     (if \<not> digest_is v n \<or> \<not> json_eq (jfield v ''budget'') (jfield (n_plan n) ''budget'') then n
      else if n_state n = Preparing then
        (case Make env Start (JObject [(''digest'', JString (n_digest n))]) n of
           (bs, n) \<Rightarrow> Pending Start bs now (Start_probing env ans now (n\<lparr>n_start := bs\<rparr>)))
      else if n_state n = Probing \<and> n_start n \<noteq> [] then snd (Emit (n_start n) n)
      else n)"

definition receive_start :: "punch_env \<Rightarrow> hook_answers \<Rightarrow> json \<Rightarrow> int \<Rightarrow> negotiation \<Rightarrow> negotiation" where
  "receive_start env ans v now n =
     (if \<not> digest_is v n then n
      else if n_state n = ReadySent then
        (case Make env Started (JObject [(''digest'', JString (n_digest n))]) (n\<lparr>n_pending := []\<rparr>) of
           (bs, n) \<Rightarrow> let n = Start_probing env ans now (n\<lparr>n_started := bs\<rparr>) in snd (Emit (n_started n) n))
      else if n_state n = Probing then snd (Emit (n_started n) n)
      else n)"

text \<open>\<open>Decode\<close> never leaves the datagram, so \<^const>\<open>None\<close> does not occur for a datagram of that size.\<close>

definition Receive :: "punch_env \<Rightarrow> hook_answers \<Rightarrow> bytes \<Rightarrow> int \<Rightarrow> negotiation \<Rightarrow> negotiation" where
  "Receive env ans data now n =
     (if n_state n = Idle \<or> n_state n = Stopped then n
      else if now \<ge> n_deadline n then Stop env ''timeout'' True n
      else
        case Decode (e_hmac env) (e_parse env) data (length data) (n_rx n) ControlDomain (n_generation n) of
          None \<Rightarrow> n
        | Some None \<Rightarrow> n
        | Some (Some packet) \<Rightarrow>
            let kind = pp_kind packet in
            if kind \<noteq> Hello \<and> pp_round packet \<noteq> n_round n \<and>
               \<not> (kind = Prepare \<and> \<not> n_offer n \<and> IsZero (n_round n) \<and> n_state n = HelloSent)
            then n
            else
              case Accept (e_sha env) (n_replay n) (pp_sequence packet) data of
                (replay, window) \<Rightarrow>
                  let n = n\<lparr>n_replay := window\<rparr> in
                  if replay = TooOld then n
                  else if replay = Conflict then Stop env ''conflict'' True n
                  else
                    let v = the (ParseControl (e_parse env) kind (pp_payload packet));
                        duplicate = (replay = Duplicate)
                    in if kind = Hello then receive_hello env ans packet v now n
                       else if kind = Prepare \<and> \<not> n_offer n then receive_prepare env ans packet v now n
                       else if kind = Ready \<and> n_offer n then receive_ready env ans v now n
                       else if kind = Start \<and> \<not> n_offer n then receive_start env ans v now n
                       else if kind = Started \<and> n_offer n \<and> n_state n = Probing \<and> digest_is v n
                       then n\<lparr>n_pending := []\<rparr>
                       else if kind = Cancel \<and> \<not> duplicate
                       then Stop env (jstring (jfield v ''reason'')) False n
                       else n)"

section \<open>Invariant\<close>

fun is_sent :: "hook_call \<Rightarrow> bool" where "is_sent (Sent _) = True" | "is_sent _ = False"
fun is_prepare :: "hook_call \<Rightarrow> bool" where "is_prepare (PrepareHook _) = True" | "is_prepare _ = False"
fun is_start :: "hook_call \<Rightarrow> bool" where "is_start (StartHook _ _ _) = True" | "is_start _ = False"
fun is_stop :: "hook_call \<Rightarrow> bool" where "is_stop (StopHook _) = True" | "is_stop _ = False"

definition num :: "(hook_call \<Rightarrow> bool) \<Rightarrow> negotiation \<Rightarrow> nat" where
  "num P n = length (filter P (n_effects n))"

text \<open>The plan of the local side is settled: for the offer with the first HELLO of the peer.\<close>

definition committed :: "negotiation \<Rightarrow> bool" where
  "committed n = (if n_offer n then n_remote_hello n \<noteq> JNull else n_plan n \<noteq> JNull)"

text \<open>The plan that the local side computes itself from the two HELLO messages.\<close>

definition own_plan :: "punch_env \<Rightarrow> negotiation \<Rightarrow> json option" where
  "own_plan env n =
     (let mine = JString (Digest (e_sha env) (ControlPayload (e_dump env) Hello (n_local_hello n)));
          theirs = JString (Digest (e_sha env) (n_remote_payload n))
      in map_option (\<lambda>p. if n_offer n then jset (jset p ''offer_hello'' mine) ''answer_hello'' theirs
                         else jset (jset p ''offer_hello'' theirs) ''answer_hello'' mine)
           (e_plan env (n_local_hello n) (n_remote_hello n)))"

definition authorized :: "punch_env \<Rightarrow> negotiation \<Rightarrow> json \<Rightarrow> bool" where
  "authorized env n p \<longleftrightarrow> (\<exists>q. own_plan env n = Some q \<and> (if n_offer n then q = p else json_eq q p))"

fun hook_ok :: "punch_env \<Rightarrow> negotiation \<Rightarrow> hook_call \<Rightarrow> bool" where
  "hook_ok env n (PrepareHook p) \<longleftrightarrow> p = n_plan n \<and> committed n \<and> authorized env n p"
| "hook_ok env n (StartHook r p t) \<longleftrightarrow> p = n_plan n \<and> r = n_round n \<and> \<not> IsZero r \<and> PrepareHook p \<in> set (n_effects n)"
| "hook_ok env n _ \<longleftrightarrow> True"

definition neg_inv :: "punch_env \<Rightarrow> negotiation \<Rightarrow> bool" where
  "neg_inv env n \<longleftrightarrow>
     num is_sent n = unat (n_attempts n) \<and> n_attempts n \<le> n_limit n \<and> n_limit n \<le> 48 \<and> n_retries n \<le> 3 \<and>
     num is_stop n = (if n_state n = Stopped then 1 else 0) \<and>
     num is_start n \<le> (if n_state n = Probing \<or> n_state n = Stopped then 1 else 0) \<and>
     num is_prepare n \<le> (if committed n then 1 else 0) \<and>
     (n_state n = Idle \<longrightarrow> n_effects n = [] \<and> IsZero (n_round n)) \<and>
     (n_remote_hello n = JNull \<longrightarrow> n_plan n = JNull) \<and>
     (n_state n \<in> {Allocating, Preparing, ReadySent, Probing} \<longrightarrow>
        \<not> IsZero (n_round n) \<and> PrepareHook (n_plan n) \<in> set (n_effects n)) \<and>
     (\<forall>e \<in> set (n_effects n). hook_ok env n e)"

lemma num_effect [simp]: "num P (effect e n) = num P n + (if P e then 1 else 0)"
  by (simp add: num_def effect_def)

lemma set_effect [simp]: "set (n_effects (effect e n)) = insert e (set (n_effects n))"
  by (simp add: effect_def)

lemma effect_frame [simp]:
  "n_state (effect e n) = n_state n" "n_offer (effect e n) = n_offer n" "n_plan (effect e n) = n_plan n"
  "n_round (effect e n) = n_round n" "n_attempts (effect e n) = n_attempts n" "n_limit (effect e n) = n_limit n"
  "n_retries (effect e n) = n_retries n" "n_remote_hello (effect e n) = n_remote_hello n"
  "n_local_hello (effect e n) = n_local_hello n" "n_remote_payload (effect e n) = n_remote_payload n"
  "n_hello (effect e n) = n_hello n" "n_next_sequence (effect e n) = n_next_sequence n" "n_pending (effect e n) = n_pending n"
  by (simp_all add: effect_def)

text \<open>
  Most steps change neither the plan nor the round: \<open>frame\<close> says that what the hooks were told stays
  right, so only the counters have to be looked at.
\<close>

definition frame :: "negotiation \<Rightarrow> negotiation \<Rightarrow> bool" where
  "frame n n' \<longleftrightarrow> n_offer n' = n_offer n \<and> n_plan n' = n_plan n \<and> n_round n' = n_round n \<and>
     n_remote_hello n' = n_remote_hello n \<and> n_local_hello n' = n_local_hello n \<and>
     n_remote_payload n' = n_remote_payload n \<and> set (n_effects n) \<subseteq> set (n_effects n')"

lemma frame_hook_ok: "frame n n' \<Longrightarrow> hook_ok env n e \<Longrightarrow> hook_ok env n' e"
  by (cases e) (auto simp: frame_def committed_def authorized_def own_plan_def)

lemma frame_committed: "frame n n' \<Longrightarrow> committed n' = committed n"
  by (simp add: frame_def committed_def)

lemma inv_update:
  assumes inv: "neg_inv env n" and f: "frame n n'"
    and e: "n_effects n' = n_effects n"
    and s: "n_state n' = n_state n \<or> (n_state n \<in> {Allocating, Preparing, ReadySent} \<and>
      n_state n' \<in> {Allocating, Preparing, ReadySent})"
    and "n_attempts n' = n_attempts n" "n_limit n' = n_limit n" "n_retries n' \<le> 3"
  shows "neg_inv env n'"
proof -
  have num: "num P n' = num P n" for P by (simp add: num_def e)
  have hk: "\<forall>x \<in> set (n_effects n'). hook_ok env n' x"
    using inv frame_hook_ok [OF f] by (simp add: e neg_inv_def)
  have eq: "n_round n' = n_round n" "n_plan n' = n_plan n" "n_remote_hello n' = n_remote_hello n"
    using f by (simp_all add: frame_def)
  from s show ?thesis
  proof
    assume "n_state n' = n_state n"
    then show ?thesis
      using inv hk assms(5-7) unfolding neg_inv_def num frame_committed [OF f] eq e by simp
  next
    assume st: "n_state n \<in> {Allocating, Preparing, ReadySent} \<and> n_state n' \<in> {Allocating, Preparing, ReadySent}"
    then have "n_state n \<noteq> Probing" "n_state n \<noteq> Stopped" "n_state n' \<noteq> Probing" "n_state n' \<noteq> Stopped"
      "n_state n' \<noteq> Idle" "n_state n \<in> {Allocating, Preparing, ReadySent, Probing}" by auto
    then show ?thesis
      using inv hk assms(5-7) unfolding neg_inv_def num frame_committed [OF f] eq e by simp
  qed
qed

text \<open>A step that reports one effect.\<close>

lemma inv_effect:
  assumes inv: "neg_inv env n" and st: "n_state n \<noteq> Idle" and e: "hook_ok env (effect e n) e"
    and "\<not> is_sent e" "\<not> is_start e" "\<not> is_prepare e" "\<not> is_stop e"
  shows "neg_inv env (effect e n)"
proof -
  have f: "frame n (effect e n)" by (auto simp: frame_def)
  have "\<forall>x \<in> set (n_effects n). hook_ok env (effect e n) x"
    using inv frame_hook_ok [OF f] by (simp add: neg_inv_def)
  then show ?thesis
    using inv st e assms(4-7) unfolding neg_inv_def frame_committed [OF f] num_effect set_effect effect_frame by simp
qed

section \<open>Every operation keeps the invariant\<close>

text \<open>What a part of a step promises: the invariant, the plan and the round, and the state unless it stops.\<close>

definition keeps :: "punch_env \<Rightarrow> negotiation \<Rightarrow> negotiation \<Rightarrow> bool" where
  "keeps env n n' \<longleftrightarrow> neg_inv env n' \<and> frame n n' \<and> (n_state n' = n_state n \<or> n_state n' = Stopped)"

lemma frame_refl [simp]: "frame n n"
  by (simp add: frame_def)

lemma frame_trans: "frame a b \<Longrightarrow> frame b c \<Longrightarrow> frame a c"
  unfolding frame_def by (intro conjI) (simp_all, blast)

lemma keeps_refl: "neg_inv env n \<Longrightarrow> keeps env n n"
  by (simp add: keeps_def)

lemma keeps_trans: "keeps env a b \<Longrightarrow> keeps env b c \<Longrightarrow> keeps env a c"
  unfolding keeps_def using frame_trans by metis

lemma keeps_inv: "keeps env n n' \<Longrightarrow> neg_inv env n'"
  by (simp add: keeps_def)

lemma inv_halt:
  assumes inv: "neg_inv env n" and st: "n_state n \<noteq> Stopped"
  shows "keeps env n (halt r n)"
proof -
  let ?m = "n\<lparr>n_state := Stopped, n_pending := [], n_tx := replicate 32 0, n_rx := replicate 32 0\<rparr>"
  have f: "frame n (effect (StopHook r) ?m)" by (auto simp: frame_def)
  have num: "num P ?m = num P n" for P by (simp add: num_def)
  have "\<forall>x \<in> set (n_effects n). hook_ok env (effect (StopHook r) ?m) x"
    using inv frame_hook_ok [OF f] by (simp add: neg_inv_def)
  moreover have "num is_start n \<le> 1" using inv by (simp add: neg_inv_def split: if_splits)
  ultimately have "neg_inv env (effect (StopHook r) ?m)"
    using inv st unfolding neg_inv_def frame_committed [OF f] num_effect num set_effect effect_frame by simp
  then show ?thesis using f by (simp add: keeps_def halt_def)
qed

lemma inv_StopQuiet: "neg_inv env n \<Longrightarrow> keeps env n (StopQuiet r n)"
  using inv_halt keeps_refl by (simp add: StopQuiet_def)

lemma inv_Emit:
  assumes inv: "neg_inv env n" and st: "n_state n \<noteq> Idle"
  shows "keeps env n (snd (Emit bs n))"
proof (cases "bs = [] \<or> n_state n = Stopped \<or> n_attempts n \<ge> n_limit n")
  case True
  then show ?thesis using inv_StopQuiet [OF inv] keeps_refl [OF inv] by (auto simp: Emit_def)
next
  case False
  let ?m = "n\<lparr>n_attempts := n_attempts n + 1\<rparr>"
  have f: "frame n (effect (Sent bs) ?m)" by (auto simp: frame_def)
  have num: "num P ?m = num P n" for P by (simp add: num_def)
  have a: "unat (n_attempts n + 1) = Suc (unat (n_attempts n))" "n_attempts n + 1 \<le> n_limit n"
    using unat_Suc_less [of "n_attempts n" "n_limit n"] False by auto
  have "\<forall>x \<in> set (n_effects n). hook_ok env (effect (Sent bs) ?m) x"
    using inv frame_hook_ok [OF f] by (simp add: neg_inv_def)
  then have "neg_inv env (effect (Sent bs) ?m)"
    using inv st a unfolding neg_inv_def frame_committed [OF f] num_effect num set_effect effect_frame by simp
  moreover have "snd (Emit bs n) = effect (Sent bs) ?m" using False by (simp add: Emit_def)
  ultimately show ?thesis using f by (simp add: keeps_def)
qed

lemma inv_local:
  assumes "neg_inv env n" "n_retries n' \<le> 3"
    and "n_effects n' = n_effects n" "n_state n' = n_state n" "n_attempts n' = n_attempts n" "n_limit n' = n_limit n"
    "n_offer n' = n_offer n" "n_plan n' = n_plan n" "n_round n' = n_round n" "n_remote_hello n' = n_remote_hello n"
    "n_local_hello n' = n_local_hello n" "n_remote_payload n' = n_remote_payload n"
  shows "keeps env n n'"
proof -
  have "frame n n'" using assms by (simp add: frame_def)
  then show ?thesis using inv_update [of env n n'] assms by (simp add: keeps_def)
qed

lemma inv_retries: "neg_inv env n \<Longrightarrow> n_retries n \<le> 3"
  by (simp add: neg_inv_def)

lemma inv_Make: "neg_inv env n \<Longrightarrow> keeps env n (snd (Make e k v n))"
  by (simp add: Make_def keeps_refl inv_local inv_retries)

lemma inv_Stop:
  assumes inv: "neg_inv env n"
  shows "keeps env n (Stop e r notify n) \<and> n_state (Stop e r notify n) = Stopped"
proof (cases "n_state n = Stopped")
  case True then show ?thesis using inv keeps_refl by (simp add: Stop_def)
next
  case False
  let ?c = "Make e Cancel (JObject [(''reason'', JString r)]) n"
  define m where "m = (if notify \<and> \<not> IsZero (n_round n) \<and> n_attempts n < n_limit n then snd (Emit (fst ?c) (snd ?c)) else n)"
  have st: "Stop e r notify n = halt r m" using False by (simp add: Stop_def m_def Let_def split: prod.splits)
  have "keeps env n m \<and> n_state m \<noteq> Stopped"
  proof (cases "notify \<and> \<not> IsZero (n_round n) \<and> n_attempts n < n_limit n")
    case True
    then have idle: "n_state n \<noteq> Idle" using inv by (auto simp: neg_inv_def)
    have mk: "keeps env n (snd ?c)" by (rule inv_Make [OF inv])
    have same: "n_state (snd ?c) = n_state n" "n_attempts (snd ?c) = n_attempts n" "n_limit (snd ?c) = n_limit n"
      by (simp_all add: Make_def)
    have "keeps env (snd ?c) m"
      using inv_Emit [OF keeps_inv [OF mk], of "fst ?c"] idle same(1) True by (simp add: m_def)
    moreover have "n_state m \<noteq> Stopped" using True False same by (auto simp: m_def Emit_def not_le)
    ultimately show ?thesis using keeps_trans [OF mk] by blast
  qed (use keeps_refl [OF inv] False in \<open>auto simp: m_def\<close>)
  then have "keeps env n (halt r m)" using inv_halt keeps_inv keeps_trans by blast
  moreover have "n_state (halt r m) = Stopped" by (simp add: halt_def)
  ultimately show ?thesis by (simp add: st)
qed

lemma inv_Stop_inv: "neg_inv env n \<Longrightarrow> neg_inv env (Stop e r b n)"
  using inv_Stop keeps_inv by blast

lemma Stop_Stopped: "neg_inv env n \<Longrightarrow> n_state (Stop e r b n) = Stopped"
  using inv_Stop by blast

lemma inv_Pending:
  assumes "neg_inv env n" "n_state n \<noteq> Idle"
  shows "keeps env n (Pending k bs now n)"
proof -
  let ?m = "n\<lparr>n_pending := bs, n_pending_kind := k, n_retries := 0, n_retry_at := now + 200\<rparr>"
  have "keeps env n ?m" using assms(1) by (intro inv_local) simp_all
  moreover have "keeps env ?m (snd (Emit bs ?m))"
    using inv_Emit [OF keeps_inv [OF calculation]] assms(2) by simp
  ultimately show ?thesis unfolding Pending_def by (rule keeps_trans)
qed

lemma inv_Start_probing:
  assumes inv: "neg_inv env n" and st: "n_state n \<in> {Preparing, ReadySent}"
  shows "neg_inv env (Start_probing e ans now n)" "n_state (Start_probing e ans now n) \<noteq> Idle"
proof -
  let ?m = "n\<lparr>n_state := Probing\<rparr>"
  let ?ev = "StartHook (n_round n) (n_plan n) now"
  have f: "frame n (effect ?ev ?m)" by (auto simp: frame_def)
  have num: "num P ?m = num P n" for P by (simp add: num_def)
  have hk: "\<forall>x \<in> set (n_effects n). hook_ok env (effect ?ev ?m) x"
    using inv frame_hook_ok [OF f] by (simp add: neg_inv_def)
  have z: "\<not> IsZero (n_round n)" "PrepareHook (n_plan n) \<in> set (n_effects n)" "num is_start n = 0" "num is_stop n = 0"
    using inv st by (auto simp: neg_inv_def)
  have ok: "neg_inv env (effect ?ev ?m)"
    using inv hk z unfolding neg_inv_def frame_committed [OF f] num_effect num set_effect effect_frame by simp
  have "Start_probing e ans now n = (case a_start_stop ans of None \<Rightarrow> effect ?ev ?m | Some (r, b) \<Rightarrow> Stop e r b (effect ?ev ?m))"
    using st by (auto simp: Start_probing_def Let_def split: option.splits)
  then show "neg_inv env (Start_probing e ans now n)" "n_state (Start_probing e ans now n) \<noteq> Idle"
    using ok inv_Stop_inv [OF ok] Stop_Stopped [OF ok] by (auto split: option.splits)
qed

lemma Make_frame:
  "n_state (snd (Make e k v n)) = n_state n" "n_hello (snd (Make e k v n)) = n_hello n"
  by (simp_all add: Make_def)

lemma inv_move:
  assumes "neg_inv env n" "n_state n \<in> {Allocating, Preparing, ReadySent}" "n_state n' \<in> {Allocating, Preparing, ReadySent}"
    and "n_retries n' \<le> 3" "n_effects n' = n_effects n" "n_attempts n' = n_attempts n" "n_limit n' = n_limit n"
    "n_offer n' = n_offer n" "n_plan n' = n_plan n" "n_round n' = n_round n" "n_remote_hello n' = n_remote_hello n"
    "n_local_hello n' = n_local_hello n" "n_remote_payload n' = n_remote_payload n"
  shows "neg_inv env n'"
proof -
  have "frame n n'" using assms by (simp add: frame_def)
  then show ?thesis using inv_update [of env n n'] assms by simp
qed

lemma inv_FinishPreparation:
  assumes inv: "neg_inv env n"
  shows "neg_inv env (FinishPreparation e now n)"
proof (cases "n_state n = Allocating")
  case True
  let ?d = "n\<lparr>n_digest := Digest (e_sha e) (ControlPayload (e_dump e) Prepare (n_plan n))\<rparr>"
  have d: "neg_inv env ?d" by (rule keeps_inv [OF inv_local [OF inv]]) (simp_all add: inv_retries [OF inv])
  have mk: "neg_inv env (snd (Make e k v ?d))" for k v by (rule keeps_inv [OF inv_Make [OF d]])
  have mst: "n_state (snd (Make e k v ?d)) = Allocating" for k v using True by (simp add: Make_frame)
  show ?thesis
  proof (cases "n_offer n")
    case offer: True
    let ?c = "Make e Prepare (n_plan n) ?d"
    let ?p = "(snd ?c)\<lparr>n_prepare := fst ?c, n_state := Preparing\<rparr>"
    have p: "neg_inv env ?p" by (rule inv_move [OF mk]) (simp_all add: mst inv_retries [OF mk])
    have e: "keeps env ?p (snd (Emit (n_hello ?p) ?p))" by (rule inv_Emit [OF p]) simp
    then have "n_state (snd (Emit (n_hello ?p) ?p)) \<noteq> Idle" by (auto simp: keeps_def)
    then have "keeps env (snd (Emit (n_hello ?p) ?p)) (Pending Prepare (fst ?c) now (snd (Emit (n_hello ?p) ?p)))"
      by (rule inv_Pending [OF keeps_inv [OF e]])
    from keeps_inv [OF this] show ?thesis
      using True offer by (simp add: FinishPreparation_def Let_def case_prod_beta)
  next
    case answer: False
    let ?c = "Make e Ready (JObject [(''digest'', JString (n_digest ?d)), (''budget'', jfield (n_plan ?d) ''budget'')]) ?d"
    let ?p = "(snd ?c)\<lparr>n_ready := fst ?c, n_state := ReadySent\<rparr>"
    have p: "neg_inv env ?p" by (rule inv_move [OF mk]) (simp_all add: mst inv_retries [OF mk])
    have "keeps env ?p (Pending Ready (fst ?c) now ?p)" by (rule inv_Pending [OF p]) simp
    from keeps_inv [OF this] show ?thesis
      using True answer by (simp add: FinishPreparation_def Let_def case_prod_beta)
  qed
qed (use inv in \<open>simp add: FinishPreparation_def\<close>)

text \<open>The plan is settled in a state in which no hook was told of one.\<close>

lemma inv_BeginPreparation:
  assumes inv: "neg_inv env n" and st: "n_state n = HelloSent" and np: "\<forall>e \<in> set (n_effects n). \<not> is_prepare e \<and> \<not> is_start e"
    and plan: "committed n" "authorized env n (n_plan n)" "\<not> IsZero (n_round n)"
  shows "neg_inv env (BeginPreparation env ans now n)"
proof -
  let ?m = "n\<lparr>n_state := Allocating, n_pending := []\<rparr>"
  let ?ev = "PrepareHook (n_plan n)"
  have f: "frame n (effect ?ev ?m)" by (auto simp: frame_def)
  have num: "num P ?m = num P n" for P by (simp add: num_def)
  have zero: "num is_prepare n = 0" "num is_start n = 0" using np by (auto simp: num_def)
  have hk: "\<forall>x \<in> set (n_effects n). hook_ok env (effect ?ev ?m) x"
    using inv frame_hook_ok [OF f] by (simp add: neg_inv_def)
  have own: "hook_ok env (effect ?ev ?m) ?ev"
    using plan by (simp add: committed_def authorized_def own_plan_def)
  have ok: "neg_inv env (effect ?ev ?m)"
    using inv hk own zero plan st unfolding neg_inv_def frame_committed [OF f] num_effect num set_effect effect_frame by simp
  show ?thesis
    using ok inv_Stop_inv [OF ok] inv_FinishPreparation [OF ok] by (simp add: BeginPreparation_def Let_def)
qed

lemma inv_Begin:
  assumes inv: "neg_inv env n"
  shows "neg_inv env (snd (Begin env hello now deadline n))"
proof (cases "n_state n \<noteq> Idle \<or> deadline \<le> now \<or> deadline - now > 30000 \<or> ControlPayload (e_dump env) Hello hello = []")
  case False
  let ?l = "jnum (jfield (jfield hello ''budget'') ''control_packet_budget'') :: u32"
  let ?m = "n\<lparr>n_state := HelloSent, n_deadline := deadline, n_local_hello := hello, n_limit := ?l\<rparr>"
  have "Schema Hello hello" using False ControlPayload_Schema by blast
  then have "Number (jfield (jfield hello ''budget'') ''control_packet_budget'') 1 48"
    using Schema_Hello_parts(1) by (simp add: Budget_def)
  then have l: "?l \<le> 48" using Number_exact [of _ 1 48] by (simp add: word_le_def)
  have e: "n_effects n = []" using inv False by (simp add: neg_inv_def)
  have num: "num P ?m = 0" "num P n = 0" for P by (simp_all add: num_def e)
  have "unat (n_attempts n) = 0" using inv by (simp add: neg_inv_def num)
  then have m: "neg_inv env ?m" using inv l e by (simp add: neg_inv_def num unat_eq_zero)
  let ?c = "Make env Hello hello ?m"
  have mk: "neg_inv env (snd ?c)" by (rule keeps_inv [OF inv_Make [OF m]])
  have h: "neg_inv env ((snd ?c)\<lparr>n_hello := fst ?c\<rparr>)"
    by (rule keeps_inv [OF inv_local [OF mk]]) (simp_all add: inv_retries [OF mk])
  have "neg_inv env (Pending Hello (fst ?c) now ((snd ?c)\<lparr>n_hello := fst ?c\<rparr>))"
    by (rule keeps_inv [OF inv_Pending [OF h]]) (simp add: Make_frame)
  then show ?thesis using False by (simp add: Begin_def Let_def case_prod_beta)
qed (use inv in \<open>auto simp: Begin_def\<close>)

lemma inv_Tick:
  assumes inv: "neg_inv env n"
  shows "neg_inv env (Tick env ans now n)"
proof (cases "n_state n = Idle \<or> n_state n = Stopped \<or> now \<ge> n_deadline n \<or> n_state n = Allocating")
  case True
  have "neg_inv env (case a_poll_stop ans of None \<Rightarrow> n | Some (r, b) \<Rightarrow> Stop env r b n)"
    using inv inv_Stop_inv by (auto split: option.splits)
  then show ?thesis
    using True inv inv_Stop_inv inv_FinishPreparation unfolding Tick_def Let_def by (auto simp del: de_Morgan_disj)
next
  case False
  show ?thesis
  proof (cases "n_pending n = [] \<or> now < n_retry_at n \<or> n_retries n = 3")
    case True
    have "neg_inv env (n\<lparr>n_pending := []\<rparr>)"
      by (rule keeps_inv [OF inv_local [OF inv]]) (simp_all add: inv_retries [OF inv])
    then show ?thesis using True False inv inv_Stop_inv [OF inv] by (auto simp: Tick_def)
  next
    case go: False
    define h where "h = (if n_pending_kind n = Prepare then Emit (n_hello n) n else (True, n))"
    have h: "keeps env n (snd h)" using inv_Emit [OF inv] keeps_refl [OF inv] False by (simp add: h_def)
    have hr: "n_retries (snd h) = n_retries n" "n_pending (snd h) = n_pending n \<or> \<not> fst h" "n_state (snd h) \<noteq> Idle"
      using False by (auto simp: h_def Emit_def StopQuiet_def halt_def)
    define p where "p = Emit (n_pending (snd h)) (snd h)"
    have p: "neg_inv env (snd p)" using keeps_inv [OF inv_Emit [OF keeps_inv [OF h] hr(3)]] by (simp add: p_def)
    have pr: "n_retries (snd p) = n_retries n" using hr by (auto simp: p_def Emit_def StopQuiet_def halt_def)
    have lt: "n_retries n < 3" using inv_retries [OF inv] go by auto
    have "neg_inv env ((snd p)\<lparr>n_retry_at := now + waits ! unat (n_retries (snd p)), n_retries := n_retries (snd p) + 1\<rparr>)"
      by (rule keeps_inv [OF inv_local [OF p]]) (use unat_Suc_less [OF lt] pr in simp_all)
    then show ?thesis
      using False go p keeps_inv [OF h]
      by (simp add: Tick_def h_def [symmetric] p_def split: prod.splits bool.splits) auto
  qed
qed

text \<open>Before the plan is settled, the fields it is settled in may be set.\<close>

lemma uncommitted:
  assumes "neg_inv env n" "\<not> committed n" "n_state n \<noteq> Idle" "n_state n \<noteq> Stopped"
  shows "\<forall>e \<in> set (n_effects n). \<not> is_prepare e \<and> \<not> is_start e" "n_state n = HelloSent"
proof -
  have "filter is_prepare (n_effects n) = []" using assms(1,2) by (simp add: neg_inv_def num_def)
  then have np: "\<not> is_prepare e" if "e \<in> set (n_effects n)" for e using that by (simp add: filter_empty_conv)
  moreover have "\<not> is_start e" if "e \<in> set (n_effects n)" for e
  proof
    assume "is_start e"
    then obtain r p t where "e = StartHook r p t" by (cases e) auto
    then have "PrepareHook p \<in> set (n_effects n)" using assms(1) that by (auto simp: neg_inv_def)
    then show False using np by force
  qed
  ultimately show "\<forall>e \<in> set (n_effects n). \<not> is_prepare e \<and> \<not> is_start e" by blast
  have "PrepareHook (n_plan n) \<notin> set (n_effects n)" using np by force
  then have "n_state n \<notin> {Allocating, Preparing, ReadySent, Probing}"
    using assms(1) unfolding neg_inv_def by blast
  then show "n_state n = HelloSent" using assms(3,4) by (cases "n_state n") auto
qed

lemma inv_settle:
  assumes inv: "neg_inv env n" and st: "n_state n = HelloSent"
    and np: "\<forall>e \<in> set (n_effects n). \<not> is_prepare e \<and> \<not> is_start e"
    and n': "n_effects n' = n_effects n" "n_state n' = n_state n" "n_attempts n' = n_attempts n"
      "n_limit n' = n_limit n" "n_retries n' = n_retries n" "n_remote_hello n' \<noteq> JNull"
  shows "neg_inv env n'"
proof -
  have num: "num P n' = num P n" for P by (simp add: num_def n')
  have z: "num is_prepare n = 0" "num is_start n = 0" using np by (auto simp: num_def)
  have "hook_ok env n' e" if "e \<in> set (n_effects n)" for e
    using np that by (cases e) auto
  then show ?thesis using inv st z n'(6) unfolding neg_inv_def num n'(1-5) by simp
qed

lemma inv_receive_hello:
  assumes inv: "neg_inv env n" and st: "n_state n \<noteq> Idle" "n_state n \<noteq> Stopped" and v: "v \<noteq> JNull"
  shows "neg_inv env (receive_hello env ans packet v now n)"
proof (cases "n_remote_hello n = JNull")
  case False
  have e1: "keeps env n (snd (Emit (n_hello n) n))" by (rule inv_Emit [OF inv st(1)])
  then have "n_state (snd (Emit (n_hello n) n)) \<noteq> Idle" using st by (auto simp: keeps_def)
  then have "neg_inv env (snd (Emit (n_prepare n) (snd (Emit (n_hello n) n))))"
    by (rule keeps_inv [OF inv_Emit [OF keeps_inv [OF e1]]])
  then show ?thesis using False inv inv_Stop_inv [OF inv] by (simp add: receive_hello_def)
next
  case True
  define m where "m = effect (RemoteHello v now) (n\<lparr>n_remote_hello := v, n_remote_payload := pp_payload packet\<rparr>)"
  have mst: "n_state m = n_state n" "n_offer m = n_offer n" "n_remote_hello m = v" by (simp_all add: m_def)
  show ?thesis
  proof (cases "n_offer n")
    case offer: True
    then have unc: "\<not> committed n" using True by (simp add: committed_def)
    note u = uncommitted [OF inv unc st]
    have i1: "neg_inv env (n\<lparr>n_remote_hello := v, n_remote_payload := pp_payload packet\<rparr>)"
      by (rule inv_settle [OF inv u(2) u(1)]) (simp_all add: v)
    have m: "neg_inv env m" unfolding m_def using i1 st by (intro inv_effect) simp_all
    have np: "\<forall>e \<in> set (n_effects m). \<not> is_prepare e \<and> \<not> is_start e" using u(1) by (simp add: m_def)
    have hs: "n_state m = HelloSent" using u(2) by (simp add: m_def)
    have cm: "committed (m\<lparr>n_plan := p, n_round := r\<rparr>)" for p r using offer v mst by (simp add: committed_def)
    have set: "neg_inv env (m\<lparr>n_plan := p\<rparr>)" "neg_inv env (m\<lparr>n_plan := p, n_round := r\<rparr>)" for p r
      by (rule inv_settle [OF m hs np]; simp add: mst v)+
    have prep: "neg_inv env (BeginPreparation env ans now (m\<lparr>n_plan := p, n_round := r\<rparr>))"
      if "authorized env m p" "\<not> IsZero r" for p r
      by (rule inv_BeginPreparation [OF set(2)]) (use that hs np cm in \<open>simp_all add: authorized_def own_plan_def\<close>)
    show ?thesis
    proof (cases "e_plan env (n_local_hello m) (n_remote_hello m)")
      case None
      then show ?thesis using offer True mst inv_Stop_inv [OF m]
        by (simp add: receive_hello_def m_def [symmetric] Let_def)
    next
      case (Some q)
      let ?p = "jset (jset q ''offer_hello'' (JString (Digest (e_sha env) (ControlPayload (e_dump env) Hello (n_local_hello m)))))
                       ''answer_hello'' (JString (Digest (e_sha env) (n_remote_payload m)))"
      have au: "authorized env m ?p" using offer mst Some by (simp add: authorized_def own_plan_def Let_def)
      have "receive_hello env ans packet v now n =
          (if ControlPayload (e_dump env) Prepare ?p = [] then Stop env ''ineligible'' False m
           else case a_random_round ans of
             None \<Rightarrow> Stop env ''resources'' False (m\<lparr>n_plan := ?p\<rparr>)
           | Some r \<Rightarrow> if IsZero r then Stop env ''resources'' False (m\<lparr>n_plan := ?p, n_round := r\<rparr>)
                       else BeginPreparation env ans now (m\<lparr>n_plan := ?p, n_round := r\<rparr>))"
        using Some offer True mst by (simp add: receive_hello_def m_def [symmetric] Let_def split: option.splits)
      then show ?thesis
        using inv_Stop_inv [OF m] inv_Stop_inv [OF set(1)] inv_Stop_inv [OF set(2)] prep [OF au]
        by (simp split: option.splits)
    qed
  next
    case answer: False
    have "\<not> committed n" using True inv answer by (simp add: committed_def neg_inv_def)
    note u = uncommitted [OF inv this st]
    have i1: "neg_inv env (n\<lparr>n_remote_hello := v, n_remote_payload := pp_payload packet\<rparr>)"
      by (rule inv_settle [OF inv u(2) u(1)]) (simp_all add: v)
    have m: "neg_inv env m" unfolding m_def using i1 st by (intro inv_effect) simp_all
    have "neg_inv env (snd (Emit (n_hello m) m))" by (rule keeps_inv [OF inv_Emit [OF m]]) (simp add: mst st)
    then show ?thesis using True answer mst by (simp add: receive_hello_def m_def [symmetric] Let_def)
  qed
qed

lemma inv_receive_prepare:
  assumes inv: "neg_inv env n" and st: "n_state n \<noteq> Idle" "n_state n \<noteq> Stopped" and v: "v \<noteq> JNull"
    and answer: "\<not> n_offer n" and r: "\<not> IsZero (pp_round packet)"
  shows "neg_inv env (receive_prepare env ans packet v now n)"
proof (cases "n_plan n = JNull \<and> n_state n = HelloSent \<and> n_remote_hello n \<noteq> JNull")
  case False
  have "neg_inv env (snd (Emit (n_ready n) n))" by (rule keeps_inv [OF inv_Emit [OF inv st(1)]])
  then show ?thesis using False inv inv_Stop_inv [OF inv] by (auto simp: receive_prepare_def)
next
  case True
  then have "\<not> committed n" using answer by (simp add: committed_def)
  note u = uncommitted [OF inv this st]
  let ?m = "n\<lparr>n_round := pp_round packet, n_plan := v\<rparr>"
  have m: "neg_inv env ?m" by (rule inv_settle [OF inv u(2) u(1)]) (use True in simp_all)
  have prep: "neg_inv env (BeginPreparation env ans now ?m)" if "authorized env n v"
    by (rule inv_BeginPreparation [OF m])
       (use that u answer v r in \<open>simp_all add: committed_def authorized_def own_plan_def\<close>)
  show ?thesis
  proof (cases "e_plan env (n_local_hello n) (n_remote_hello n)")
    case None then show ?thesis using True inv by (simp add: receive_prepare_def)
  next
    case (Some q)
    let ?q = "jset (jset q ''offer_hello'' (JString (Digest (e_sha env) (n_remote_payload n))))
                  ''answer_hello'' (JString (Digest (e_sha env) (ControlPayload (e_dump env) Hello (n_local_hello n))))"
    have "authorized env n v" if "json_eq ?q v"
      using that answer Some by (simp add: authorized_def own_plan_def Let_def)
    then show ?thesis using True Some inv prep by (simp add: receive_prepare_def Let_def)
  qed
qed

lemma inv_receive_ready:
  assumes inv: "neg_inv env n" and st: "n_state n \<noteq> Idle"
  shows "neg_inv env (receive_ready env ans v now n)"
proof -
  have e: "neg_inv env (snd (Emit (n_start n) n))" by (rule keeps_inv [OF inv_Emit [OF inv st]])
  let ?c = "Make env Start (JObject [(''digest'', JString (n_digest n))]) n"
  let ?m = "(snd ?c)\<lparr>n_start := fst ?c\<rparr>"
  have mk: "neg_inv env (snd ?c)" by (rule keeps_inv [OF inv_Make [OF inv]])
  have m: "neg_inv env ?m" by (rule keeps_inv [OF inv_local [OF mk]]) (simp_all add: inv_retries [OF mk])
  have "neg_inv env (Pending Start (fst ?c) now (Start_probing env ans now ?m))" if "n_state n = Preparing"
    using inv_Start_probing [OF m, of env ans now] that
    by (intro keeps_inv [OF inv_Pending]) (simp_all add: Make_frame)
  then show ?thesis using inv e by (simp add: receive_ready_def case_prod_beta)
qed

lemma inv_receive_start:
  assumes inv: "neg_inv env n" and st: "n_state n \<noteq> Idle"
  shows "neg_inv env (receive_start env ans v now n)"
proof -
  have e: "neg_inv env (snd (Emit (n_started n) n))" by (rule keeps_inv [OF inv_Emit [OF inv st]])
  let ?n = "n\<lparr>n_pending := []\<rparr>"
  have n: "neg_inv env ?n" by (rule keeps_inv [OF inv_local [OF inv]]) (simp_all add: inv_retries [OF inv])
  let ?c = "Make env Started (JObject [(''digest'', JString (n_digest n))]) ?n"
  let ?m = "(snd ?c)\<lparr>n_started := fst ?c\<rparr>"
  have mk: "neg_inv env (snd ?c)" by (rule keeps_inv [OF inv_Make [OF n]])
  have m: "neg_inv env ?m" by (rule keeps_inv [OF inv_local [OF mk]]) (simp_all add: inv_retries [OF mk])
  let ?s = "Start_probing env ans now ?m"
  have "neg_inv env (snd (Emit (n_started ?s) ?s))" if "n_state n = ReadySent"
    using inv_Start_probing [OF m, of env ans now] that
    by (intro keeps_inv [OF inv_Emit]) (simp_all add: Make_frame)
  then show ?thesis using inv e by (simp add: receive_start_def case_prod_beta Let_def)
qed

lemma Decode_accepts:
  assumes "Decode hmac jp data sz key ControlDomain generation = Some (Some packet)"
  shows "round_ok (pp_kind packet) (pp_round packet)" "\<exists>v. ParseControl jp (pp_kind packet) (pp_payload packet) = Some v"
  using assms
  by (auto simp: Decode_def payload_ok_def Let_def bind_eq_Some_conv split: if_splits)

lemma ParseControl_not_null: "ParseControl jp k p = Some v \<Longrightarrow> v \<noteq> JNull"
  by (cases k) (auto simp: ParseControl_def Fields_def split: if_splits option.splits)

text \<open>The dispatch of an accepted packet, behind the replay window.\<close>

definition dispatch :: "punch_env \<Rightarrow> hook_answers \<Rightarrow> punch_packet \<Rightarrow> json \<Rightarrow> bool \<Rightarrow> int \<Rightarrow> negotiation \<Rightarrow> negotiation" where
  "dispatch env ans packet v duplicate now n =
     (let kind = pp_kind packet in
      if kind = Hello then receive_hello env ans packet v now n
      else if kind = Prepare \<and> \<not> n_offer n then receive_prepare env ans packet v now n
      else if kind = Ready \<and> n_offer n then receive_ready env ans v now n
      else if kind = Start \<and> \<not> n_offer n then receive_start env ans v now n
      else if kind = Started \<and> n_offer n \<and> n_state n = Probing \<and> digest_is v n then n\<lparr>n_pending := []\<rparr>
      else if kind = Cancel \<and> \<not> duplicate then Stop env (jstring (jfield v ''reason'')) False n
      else n)"

definition relevant :: "punch_packet \<Rightarrow> negotiation \<Rightarrow> bool" where
  "relevant packet n \<longleftrightarrow> pp_kind packet = Hello \<or> pp_round packet = n_round n \<or>
     (pp_kind packet = Prepare \<and> \<not> n_offer n \<and> IsZero (n_round n) \<and> n_state n = HelloSent)"

lemma Receive_dispatch:
  assumes "n_state n \<noteq> Idle" "n_state n \<noteq> Stopped" "now < n_deadline n"
    and "Decode (e_hmac env) (e_parse env) data (length data) (n_rx n) ControlDomain (n_generation n) = Some (Some packet)"
    and "relevant packet n" "Accept (e_sha env) (n_replay n) (pp_sequence packet) data = (r, w)"
  shows "Receive env ans data now n =
    (if r = TooOld then n\<lparr>n_replay := w\<rparr> else if r = Conflict then Stop env ''conflict'' True (n\<lparr>n_replay := w\<rparr>)
     else dispatch env ans packet (the (ParseControl (e_parse env) (pp_kind packet) (pp_payload packet))) (r = Duplicate) now
            (n\<lparr>n_replay := w\<rparr>))"
proof -
  have c: "\<not> (pp_kind packet \<noteq> Hello \<and> pp_round packet \<noteq> n_round n \<and>
      \<not> (pp_kind packet = Prepare \<and> \<not> n_offer n \<and> IsZero (n_round n) \<and> n_state n = HelloSent))"
    using assms(5) unfolding relevant_def by blast
  have g: "\<not> (n_state n = Idle \<or> n_state n = Stopped)" "\<not> n_deadline n \<le> now" using assms(1-3) by auto
  show ?thesis
    unfolding Receive_def dispatch_def Let_def if_not_P [OF g(1)] if_not_P [OF g(2)] assms(4) option.case if_not_P [OF c]
      assms(6) prod.case by (rule refl)
qed

lemma inv_dispatch:
  assumes inv: "neg_inv env n" and st: "n_state n \<noteq> Idle" "n_state n \<noteq> Stopped" and v: "v \<noteq> JNull"
    and r: "round_ok (pp_kind packet) (pp_round packet)"
  shows "neg_inv env (dispatch env ans packet v duplicate now n)"
proof -
  have "neg_inv env (n\<lparr>n_pending := []\<rparr>)"
    by (rule keeps_inv [OF inv_local [OF inv]]) (simp_all add: inv_retries [OF inv])
  moreover have "\<not> IsZero (pp_round packet)" if "pp_kind packet = Prepare" using r that by (simp add: round_ok_def)
  ultimately show ?thesis
    using inv inv_receive_hello [OF inv st v] inv_receive_prepare [OF inv st v] inv_receive_ready [OF inv st(1)]
      inv_receive_start [OF inv st(1)] inv_Stop_inv [OF inv]
    by (auto simp: dispatch_def Let_def)
qed

lemma inv_Receive:
  assumes inv: "neg_inv env n"
  shows "neg_inv env (Receive env ans data now n)"
proof (cases "n_state n = Idle \<or> n_state n = Stopped \<or> n_deadline n \<le> now")
  case True
  then show ?thesis using inv inv_Stop_inv [OF inv] by (auto simp: Receive_def)
next
  case go: False
  show ?thesis
  proof (cases "Decode (e_hmac env) (e_parse env) data (length data) (n_rx n) ControlDomain (n_generation n)")
    case None then show ?thesis using go inv by (simp add: Receive_def)
  next
    case (Some res)
    show ?thesis
    proof (cases res)
      case None then show ?thesis using go inv Some by (simp add: Receive_def)
    next
      case p: (Some packet)
      note d = Some [unfolded p]
      obtain v where v: "ParseControl (e_parse env) (pp_kind packet) (pp_payload packet) = Some v" "v \<noteq> JNull"
        using Decode_accepts(2) [OF d] ParseControl_not_null by blast
      obtain r w where a: "Accept (e_sha env) (n_replay n) (pp_sequence packet) data = (r, w)" by fastforce
      have w: "neg_inv env (n\<lparr>n_replay := w\<rparr>)"
        by (rule keeps_inv [OF inv_local [OF inv]]) (simp_all add: inv_retries [OF inv])
      show ?thesis
      proof (cases "relevant packet n")
        case False
        then have "Receive env ans data now n = n"
          using go d unfolding Receive_def relevant_def Let_def by simp
        then show ?thesis using inv by simp
      next
        case True
        have "neg_inv env (dispatch env ans packet v (r = Duplicate) now (n\<lparr>n_replay := w\<rparr>))"
          by (rule inv_dispatch [OF w]) (use go v Decode_accepts(1) [OF d] in simp_all)
        then show ?thesis
          using Receive_dispatch [OF _ _ _ d True a, of now ans] go w inv_Stop_inv [OF w] v
          by (simp add: not_le)
      qed
    qed
  qed
qed

section \<open>Runs\<close>

datatype neg_op =
    OpBegin json int int
  | OpReceive hook_answers bytes int
  | OpTick hook_answers int
  | OpStop string bool

fun neg_step :: "punch_env \<Rightarrow> negotiation \<Rightarrow> neg_op \<Rightarrow> negotiation" where
  "neg_step env n (OpBegin hello now deadline) = snd (Begin env hello now deadline n)"
| "neg_step env n (OpReceive ans data now) = Receive env ans data now n"
| "neg_step env n (OpTick ans now) = Tick env ans now n"
| "neg_step env n (OpStop reason notify) = Stop env reason notify n"

lemma inv_step: "neg_inv env n \<Longrightarrow> neg_inv env (neg_step env n op)"
  by (cases op) (simp_all add: inv_Begin inv_Receive inv_Tick inv_Stop_inv)

lemma inv_run: "neg_inv env n \<Longrightarrow> neg_inv env (foldl (neg_step env) n ops)"
  by (induction ops arbitrary: n) (simp_all add: inv_step)

lemma inv_init: "neg_inv env (negotiation_init offer generation k1 k2)"
  by (simp add: neg_inv_def negotiation_init_def num_def IsZero_def list_all_iff)

definition demo_env :: punch_env where
  "demo_env = \<lparr>e_hmac = (\<lambda>_ _. replicate 32 7), e_sha = (\<lambda>_. replicate 32 7), e_parse = (\<lambda>_. Some ([], the (demo_hello 4000 4001))),
     e_dump = demo_dump, e_plan = (\<lambda>_ _. None), e_has_poll = False\<rparr>"

definition demo_answers :: hook_answers where
  "demo_answers = \<lparr>a_prepare = True, a_random_round = Some (replicate 16 9), a_poll = PrepPending,
     a_poll_stop = None, a_start_stop = None\<rparr>"

text \<open>
  C19: Whatever datagrams arrive, however the hooks answer and whenever the timer runs, a negotiation
  sends at most 48 control packets (the agreed limit, in fact), prepares at most once, starts probing at
  most once and stops at most once; and it only ever starts probing for a fresh round under the plan it
  prepared, which is the plan it computes itself from the two HELLO messages.
\<close>

theorem negotiation_safe:
  "let n = foldl (neg_step env) (negotiation_init offer generation k1 k2) ops in
   num is_sent n \<le> 48 \<and> num is_sent n = unat (n_attempts n) \<and> n_attempts n \<le> n_limit n \<and>
   num is_prepare n \<le> 1 \<and> num is_start n \<le> 1 \<and> num is_stop n \<le> 1 \<and>
   (\<forall>(r, p, t) \<in> {(r, p, t). StartHook r p t \<in> set (n_effects n)}.
      r = n_round n \<and> \<not> IsZero r \<and> PrepareHook p \<in> set (n_effects n) \<and> authorized env n p)"
proof -
  define n where "n = foldl (neg_step env) (negotiation_init offer generation k1 k2) ops"
  have inv: "neg_inv env n" unfolding n_def by (intro inv_run inv_init)
  have "n_attempts n \<le> 48" using inv unfolding neg_inv_def by (meson order_trans)
  then have "unat (n_attempts n) \<le> 48" by (simp add: word_le_nat_alt)
  moreover have "num is_sent n = unat (n_attempts n)" "n_attempts n \<le> n_limit n" using inv unfolding neg_inv_def by blast+
  moreover have "num is_prepare n \<le> (if committed n then 1 else 0)"
    "num is_start n \<le> (if n_state n = Probing \<or> n_state n = Stopped then 1 else 0)"
    "num is_stop n = (if n_state n = Stopped then 1 else 0)"
    using inv unfolding neg_inv_def by blast+
  then have "num is_prepare n \<le> 1" "num is_start n \<le> 1" "num is_stop n \<le> 1" by (simp_all split: if_splits)
  moreover have "r = n_round n \<and> \<not> IsZero r \<and> PrepareHook p \<in> set (n_effects n) \<and> authorized env n p"
    if "StartHook r p t \<in> set (n_effects n)" for r p t
  proof -
    have "hook_ok env n (StartHook r p t)" using inv that unfolding neg_inv_def by blast
    then have s: "r = n_round n" "\<not> IsZero r" "PrepareHook p \<in> set (n_effects n)" by auto
    then have "hook_ok env n (PrepareHook p)" using inv unfolding neg_inv_def by blast
    then show ?thesis using s by auto
  qed
  ultimately show ?thesis unfolding n_def [symmetric] Let_def by auto
qed

definition demo_run :: negotiation where
  "demo_run = foldl (neg_step demo_env) (negotiation_init True (replicate 16 1) (replicate 32 1) (replicate 32 2))
     [OpBegin (the (demo_hello 4000 4001)) 5 9000, OpTick demo_answers 6, OpTick demo_answers 2000, OpStop ''done'' True]"

lemma demo_run_attempts: "n_attempts demo_run = 2 \<and> n_state demo_run = Stopped"
  by code_simp

theorem negotiation_safe_witness: "num is_sent demo_run = 2 \<and> num is_start demo_run \<le> 1 \<and> num is_stop demo_run \<le> 1"
  using negotiation_safe [of demo_env True "replicate 16 1" "replicate 32 1" "replicate 32 2"
    "[OpBegin (the (demo_hello 4000 4001)) 5 9000, OpTick demo_answers 6, OpTick demo_answers 2000, OpStop ''done'' True]"]
  unfolding demo_run_def [symmetric] Let_def demo_run_attempts [THEN conjunct1] by simp

text \<open>C20: A stopped negotiation stays as it is: no operation sends, starts or changes anything any more.\<close>

theorem negotiation_stopped:
  assumes "n_state n = Stopped"
  shows "foldl (neg_step env) n ops = n"
proof -
  have "neg_step env n op = n" for op
    using assms by (cases op) (simp_all add: Begin_def Receive_def Tick_def Stop_def)
  then show ?thesis by (induction ops) simp_all
qed

theorem negotiation_stopped_witness:
  "foldl (neg_step demo_env) (halt ''timeout'' (negotiation_init True (replicate 16 1) [] []))
     [OpTick demo_answers 5, OpReceive demo_answers [1, 2, 3] 7] = halt ''timeout'' (negotiation_init True (replicate 16 1) [] [])"
  by (rule negotiation_stopped) (simp add: halt_def)

end
