(* ===== verification/Gf256.thy ===== *)
theory Gf256
  imports Prelude
begin

text \<open>
  The arithmetic of the Reed-Solomon fast path (\<open>fec/rs_small.cpp\<close>, struct \<open>Field\<close>): the tables of
  GF(256) with the polynomial 0x11d that the constructor fills, modelled as functions of their indices.
  The lemmas show that the shift-and-add loop defines a field multiplication (bilinear over XOR,
  commutative, associative, with unit 1), that the search for the inverse always finds one for a
  non-zero element, and that the two 16-entry nibble tables together give the same product.

  The laws the decoder relies on are the locale \<open>byte_field\<close>; it is interpreted on the tables.
\<close>

section \<open>The tables\<close>

text \<open>The body of the inner loop over the 8 bits, on \<open>unsigned\<close> (32 bits).\<close>

definition gf_shift :: "u32 \<Rightarrow> u32" where
  "gf_shift x = (let x = push_bit 1 x in if x AND 256 \<noteq> 0 then x XOR 0x11d else x)"

fun gf_loop :: "nat \<Rightarrow> u32 \<Rightarrow> u32 \<Rightarrow> u32 \<Rightarrow> u32" where
  "gf_loop 0 x y product = product"
| "gf_loop (Suc bits) x y product =
     gf_loop bits (gf_shift x) (drop_bit 1 y) (if y AND 1 \<noteq> 0 then product XOR x else product)"

definition gf_product :: "u32 \<Rightarrow> u32 \<Rightarrow> u32" where
  "gf_product a b = gf_loop 8 a b 0"

text \<open>\<open>multiply[a][b]\<close>\<close>

definition gf_multiply :: "u8 \<Rightarrow> u8 \<Rightarrow> u8" where
  "gf_multiply a b = ucast (gf_product (ucast a) (ucast b))"

text \<open>\<open>inverse[a]\<close>: zero-initialised, then assigned for every \<open>b\<close> in order whose product is 1.\<close>

definition gf_inverse :: "u8 \<Rightarrow> u8" where
  "gf_inverse a = foldl (\<lambda>inv b. if gf_product (ucast a) (of_nat b) = 1 then of_nat b else inv) 0 [0..<256]"

text \<open>\<open>low[a][nibble]\<close> and \<open>high[a][nibble]\<close>\<close>

definition gf_low :: "u8 \<Rightarrow> u8 \<Rightarrow> u8" where "gf_low a nibble = gf_multiply a nibble"

definition gf_high :: "u8 \<Rightarrow> u8 \<Rightarrow> u8" where "gf_high a nibble = gf_multiply a (push_bit 4 nibble)"

section \<open>The loop on bytes\<close>

text \<open>Every intermediate value fits a byte; on bytes the loop is linear in both arguments.\<close>

definition dbl :: "u8 \<Rightarrow> u8" where
  "dbl a = push_bit 1 a XOR (if bit a 7 then 0x1d else 0)"

fun loop8 :: "nat \<Rightarrow> u8 \<Rightarrow> u8 \<Rightarrow> u8 \<Rightarrow> u8" where
  "loop8 0 a b p = p"
| "loop8 (Suc n) a b p = loop8 n (dbl a) (drop_bit 1 b) (if bit b 0 then p XOR a else p)"

lemma and_256: "(x :: u32) AND 256 = 0 \<longleftrightarrow> \<not> bit x 8"
proof -
  have "(256 :: u32) = 2 ^ 8" by simp
  then show ?thesis by (simp only: and_exp_eq_0_iff_not_bit)
qed

lemma bit_push_1: "n < LENGTH('a) \<Longrightarrow> bit (push_bit 1 (w :: 'a::len word)) n \<longleftrightarrow> 1 \<le> n \<and> bit w (n - 1)"
  unfolding bit_push_bit_iff by simp

lemma push_ucast: "push_bit 1 (ucast a :: u32) = ucast (push_bit 1 a) XOR (if bit a 7 then 2 ^ 8 else 0)" for a :: u8
proof (rule bit_word_eqI)
  fix n assume n: "n < LENGTH(32)"
  have "bit (ucast (push_bit 1 a) :: u32) n \<longleftrightarrow> n < 8 \<and> 1 \<le> n \<and> bit a (n - 1)"
    using n bit_push_1 [of n a] by (cases "n < 8") (simp_all only: bit_unsigned_iff, auto)
  moreover have "bit (2 ^ 8 :: u32) n \<longleftrightarrow> n = 8" using n unfolding bit_exp_iff by auto
  ultimately show "bit (push_bit 1 (ucast a :: u32)) n = bit (ucast (push_bit 1 a) XOR (if bit a 7 then 2 ^ 8 else 0) :: u32) n"
    using n unfolding bit_push_1 [OF n] bit_xor_iff by (cases "n < 8"; cases "n = 8") (auto simp: bit_simps)
qed

lemma gf_shift_ucast: "gf_shift (ucast a) = ucast (dbl a)"
proof -
  have b: "push_bit 1 (ucast a :: u32) AND 256 \<noteq> 0 \<longleftrightarrow> bit a 7"
    unfolding and_256 by (subst bit_push_1) (simp_all add: bit_simps)
  have "(x XOR 256) XOR 0x11d = x XOR (0x1d :: u32)" for x
    by (simp add: xor.assoc)
  then show ?thesis
    unfolding gf_shift_def dbl_def Let_def b unfolding push_ucast
    by (cases "bit a 7") (simp_all only: if_True if_False unsigned_xor_eq xor.right_neutral unsigned_numeral, simp_all)
qed

lemma dbl_xor: "dbl (a XOR b) = dbl a XOR dbl b"
  by (simp add: dbl_def push_bit_xor bit_xor_iff ac_simps)

lemma gf_loop_ucast: "gf_loop n (ucast a) (ucast b) (ucast p) = ucast (loop8 n a b p)"
proof (induction n arbitrary: a b p)
  case (Suc n)
  have "(ucast b :: u32) AND 1 \<noteq> 0 \<longleftrightarrow> bit b 0"
    using bit_unsigned_iff [of b 0, where 'a = u32] by (simp add: and_one_eq odd_iff_mod_2_eq_one bit_0)
  moreover have "drop_bit 1 (ucast b :: u32) = ucast (drop_bit 1 b)"
    by (rule bit_word_eqI) (auto simp: bit_simps dest: bit_imp_le_length)
  ultimately show ?case
    using Suc [of "dbl a" "drop_bit 1 b" "if bit b 0 then p XOR a else p"]
    by (simp add: gf_shift_ucast unsigned_xor_eq split: if_splits)
qed simp

lemma ucast_back [simp]: "ucast (ucast (a :: u8) :: u32) = a"
  by (rule bit_word_eqI) (simp add: bit_simps)

lemma gf_multiply_loop8: "gf_multiply a b = loop8 8 a b 0"
  using gf_loop_ucast [of 8 a b 0] by (simp add: gf_multiply_def gf_product_def)

lemma gf_product_multiply: "gf_product (ucast a) (ucast b) = ucast (gf_multiply a b)"
  using gf_loop_ucast [of 8 a b 0] by (simp add: gf_multiply_def gf_product_def)

lemma loop8_xor2: "loop8 n a (b XOR c) (p XOR q) = loop8 n a b p XOR loop8 n a c q"
proof (induction n arbitrary: a b c p q)
  case (Suc n)
  show ?case
    using Suc [of "dbl a" "drop_bit 1 b" "drop_bit 1 c" "if bit b 0 then p XOR a else p" "if bit c 0 then q XOR a else q"]
    by (simp add: drop_bit_xor bit_xor_iff ac_simps split: if_splits)
qed simp

lemma loop8_xor1: "loop8 n (a XOR a') b (p XOR q) = loop8 n a b p XOR loop8 n a' b q"
proof (induction n arbitrary: a a' b p q)
  case (Suc n)
  show ?case
    using Suc [of "dbl a" "dbl a'" "drop_bit 1 b" "if bit b 0 then p XOR a else p" "if bit b 0 then q XOR a' else q"]
    by (simp add: dbl_xor ac_simps split: if_splits)
qed simp

lemma loop8_dbl: "loop8 n (dbl a) b (dbl p) = dbl (loop8 n a b p)"
proof (induction n arbitrary: a b p)
  case (Suc n)
  show ?case
    using Suc [of "dbl a" "drop_bit 1 b" "if bit b 0 then p XOR a else p"] by (simp add: dbl_xor split: if_splits)
qed simp

lemma dbl_0 [simp]: "dbl 0 = 0" by (simp add: dbl_def)

section \<open>The laws of the multiplication\<close>

lemma gf_multiply_xor_right: "gf_multiply a (b XOR c) = gf_multiply a b XOR gf_multiply a c"
  using loop8_xor2 [of 8 a b c 0 0] by (simp add: gf_multiply_loop8)

lemma gf_multiply_xor_left: "gf_multiply (a XOR b) c = gf_multiply a c XOR gf_multiply b c"
  using loop8_xor1 [of 8 a b c 0 0] by (simp add: gf_multiply_loop8)

lemma byte_split: "\<exists>b c. a = b XOR c \<and> (\<forall>i \<ge> n. \<not> bit b i) \<and> (c = 0 \<or> c = 2 ^ n)"
  if "\<forall>i \<ge> Suc n. \<not> bit a i" "n < 8" for a :: u8
proof (intro exI conjI)
  show "a = take_bit n a XOR (if bit a n then 2 ^ n else 0)"
  proof (rule bit_word_eqI)
    fix m assume "m < LENGTH(8)"
    then show "bit a m = bit (take_bit n a XOR (if bit a n then 2 ^ n else 0)) m"
      using that by (cases m n rule: linorder_cases) (auto simp: bit_simps)
  qed
qed (auto simp: bit_simps)

lemma byte_induct:
  fixes a :: u8
  assumes "P 0" "\<And>a b. P a \<Longrightarrow> P b \<Longrightarrow> P (a XOR b)" "\<And>i. i < 8 \<Longrightarrow> P (2 ^ i)"
  shows "P a"
proof -
  have "(\<forall>i \<ge> n. \<not> bit a i) \<Longrightarrow> P a" if "n \<le> 8" for n a
    using that
  proof (induction n arbitrary: a)
    case 0
    then have "a = 0" by (auto intro: bit_word_eqI)
    then show ?case using assms(1) by simp
  next
    case (Suc n)
    obtain b c where *: "a = b XOR c" "\<forall>i \<ge> n. \<not> bit b i" "c = 0 \<or> c = 2 ^ n"
      using byte_split [of n a] Suc.prems by auto
    with Suc show ?case using assms by auto
  qed
  from this [of 8 a] show ?thesis by simp
qed

lemma gf_multiply_0 [simp]: "gf_multiply a 0 = 0" "gf_multiply 0 a = 0"
  using gf_multiply_xor_right [of a 0 0] gf_multiply_xor_left [of 0 0 a] by simp_all

lemma loop8_0: "loop8 n a 0 p = p"
  by (induction n arbitrary: a) simp_all

lemma loop8_power: "j < n \<Longrightarrow> n \<le> 8 \<Longrightarrow> loop8 n a (2 ^ j) 0 = (dbl ^^ j) a"
proof (induction n arbitrary: a j)
  case (Suc n)
  show ?case
  proof (cases j)
    case (Suc i)
    have "drop_bit 1 (2 ^ j :: u8) = 2 ^ i"
      using Suc Suc.prems by (intro bit_word_eqI) (auto simp: bit_simps)
    moreover have "\<not> bit (2 ^ j :: u8) 0" unfolding bit_exp_iff using Suc by simp
    ultimately show ?thesis using Suc Suc.IH [of i "dbl a"] Suc.prems by (simp add: funpow_swap1)
  qed (simp add: loop8_0)
qed simp

lemma power_dbl: "i < 8 \<Longrightarrow> 2 ^ i = (dbl ^^ i) 1"
  using loop8_power [of i 8 1] by (auto simp: less_Suc_eq numeral_eq_Suc dbl_def)

lemma gf_multiply_commute: "gf_multiply a b = gf_multiply b a"
proof (induction a rule: byte_induct)
  case (3 i)
  show ?case
  proof (induction b rule: byte_induct)
    case (3 j)
    with \<open>i < 8\<close> show ?case
      by (simp add: gf_multiply_loop8 loop8_power) (simp add: power_dbl funpow_add [symmetric, THEN fun_cong, simplified] add.commute)
  qed (simp_all add: gf_multiply_xor_left gf_multiply_xor_right)
qed (simp_all add: gf_multiply_xor_left gf_multiply_xor_right)

lemma gf_multiply_dbl: "gf_multiply (dbl a) b = dbl (gf_multiply a b)" "gf_multiply a (dbl b) = dbl (gf_multiply a b)"
proof -
  show left: "gf_multiply (dbl a) b = dbl (gf_multiply a b)" for a b
    using loop8_dbl [of 8 a b 0] by (simp add: gf_multiply_loop8)
  show "gf_multiply a (dbl b) = dbl (gf_multiply a b)"
    unfolding gf_multiply_commute [of a] by (rule left)
qed

lemma gf_multiply_assoc: "gf_multiply (gf_multiply a b) c = gf_multiply a (gf_multiply b c)"
proof -
  have "loop8 n (gf_multiply a b) c (gf_multiply a p) = gf_multiply a (loop8 n b c p)" for n b c p
  proof (induction n arbitrary: b c p)
    case (Suc n)
    show ?case
      using Suc [of "dbl b" "drop_bit 1 c" "if bit c 0 then p XOR b else p"]
      by (simp add: gf_multiply_dbl gf_multiply_xor_right split: if_splits)
  qed simp
  from this [of 8 b c 0] show ?thesis by (simp add: gf_multiply_loop8 [of _ c])
qed

lemma gf_multiply_1 [simp]: "gf_multiply 1 a = a" "gf_multiply a 1 = a"
proof -
  show "gf_multiply a 1 = a" by (simp add: gf_multiply_loop8 numeral_eq_Suc)
  then show "gf_multiply 1 a = a" using gf_multiply_commute by simp
qed

section \<open>Inverses\<close>

text \<open>The powers of 2 (iterated \<^const>\<open>dbl\<close>) run through all 255 non-zero bytes.\<close>

lemma gf_multiply_pow: "gf_multiply ((dbl ^^ i) a) ((dbl ^^ j) b) = (dbl ^^ (i + j)) (gf_multiply a b)"
proof (induction i)
  case 0
  show ?case by (induction j) (simp_all add: gf_multiply_dbl)
qed (simp add: gf_multiply_dbl)

lemma pow2_add: "(dbl ^^ (i + j)) 1 = loop8 8 ((dbl ^^ i) 1) ((dbl ^^ j) 1) 0"
  unfolding gf_multiply_loop8 [symmetric] gf_multiply_pow by simp

lemma pow2_steps:
  "(dbl ^^ 6) 1 = 64" "(dbl ^^ 10) 1 = 116" "(dbl ^^ 15) 1 = 38"
  by code_simp+

lemma mul_steps:
  "loop8 8 38 38 0 = 96"
  "loop8 8 96 96 0 = 185"
  "loop8 8 185 185 0 = 59"
  "loop8 8 59 59 0 = 44"
  "loop8 8 44 38 0 = 1"
  "loop8 8 96 64 0 = 37"
  "loop8 8 37 38 0 = 10"
  "loop8 8 38 116 0 = 3"
  "loop8 8 185 3 0 = 214"
  by code_simp+

lemma pow2_facts: "(dbl ^^ 255) 1 = 1" "(dbl ^^ 85) 1 \<noteq> 1" "(dbl ^^ 51) 1 \<noteq> 1" "(dbl ^^ 15) 1 \<noteq> 1"
proof -
  have p30: "(dbl ^^ 30) 1 = 96" using pow2_add [of 15 15] by (simp only: numeral_plus_numeral add_num_simps pow2_steps mul_steps)
  have p60: "(dbl ^^ 60) 1 = 185" using pow2_add [of 30 30] by (simp only: numeral_plus_numeral add_num_simps pow2_steps p30 mul_steps)
  have p120: "(dbl ^^ 120) 1 = 59" using pow2_add [of 60 60] by (simp only: numeral_plus_numeral add_num_simps pow2_steps p30 p60 mul_steps)
  have p240: "(dbl ^^ 240) 1 = 44" using pow2_add [of 120 120] by (simp only: numeral_plus_numeral add_num_simps pow2_steps p30 p60 p120 mul_steps)
  have p255: "(dbl ^^ 255) 1 = 1" using pow2_add [of 240 15] by (simp only: numeral_plus_numeral add_num_simps pow2_steps p30 p60 p120 p240 mul_steps)
  have p36: "(dbl ^^ 36) 1 = 37" using pow2_add [of 30 6] by (simp only: numeral_plus_numeral add_num_simps pow2_steps p30 p60 p120 p240 p255 mul_steps)
  have p51: "(dbl ^^ 51) 1 = 10" using pow2_add [of 36 15] by (simp only: numeral_plus_numeral add_num_simps pow2_steps p30 p60 p120 p240 p255 p36 mul_steps)
  have p25: "(dbl ^^ 25) 1 = 3" using pow2_add [of 15 10] by (simp only: numeral_plus_numeral add_num_simps pow2_steps p30 p60 p120 p240 p255 p36 p51 mul_steps)
  have p85: "(dbl ^^ 85) 1 = 214" using pow2_add [of 60 25] by (simp only: numeral_plus_numeral add_num_simps pow2_steps p30 p60 p120 p240 p255 p36 p51 p25 mul_steps)
  show "(dbl ^^ 255) 1 = 1" by (fact p255)
  show "(dbl ^^ 85) 1 \<noteq> 1" "(dbl ^^ 51) 1 \<noteq> 1" "(dbl ^^ 15) 1 \<noteq> 1"
    unfolding p85 p51 pow2_steps by simp_all
qed

lemma pow2_mult: "(dbl ^^ n) 1 = 1 \<Longrightarrow> (dbl ^^ (n * m)) 1 = 1"
proof (induction m)
  case (Suc m)
  then show ?case using gf_multiply_pow [of n 1 "n * m" 1] by simp
qed simp

lemma divisors_255:
  assumes "e dvd 255" "e \<noteq> 255"
  shows "e dvd 85 \<or> e dvd 51 \<or> e dvd (15 :: nat)"
proof -
  obtain q where q: "255 = e * q" using assms(1) by (rule dvdE)
  then have "e \<le> 15 \<or> q \<le> 15" using mult_le_mono [of 16 e 16 q] by fastforce
  moreover have "list_all (\<lambda>e. e dvd 255 \<longrightarrow> e \<in> {1, 3, 5, 15 :: nat}) [0..<16]" by code_simp
  then have "n \<in> {1, 3, 5, 15}" if "n \<le> 15" "n dvd 255" for n :: nat
    using that by (simp add: list_all_iff)
  moreover have "q dvd 255" unfolding q by simp
  ultimately have "e \<in> {1, 3, 5, 15} \<or> q \<in> {1, 3, 5, 15}" using assms(1) by blast
  then show ?thesis using q assms(2) by auto
qed

lemma pow2_order:
  assumes "0 < d" "d < 255"
  shows "(dbl ^^ d) 1 \<noteq> 1"
proof
  assume d: "(dbl ^^ d) 1 = 1"
  define e where "e = gcd d 255"
  obtain x y where "d * x = 255 * y + e" using bezout_nat [of d 255] assms(1) unfolding e_def by auto
  then have "(dbl ^^ (255 * y + e)) 1 = 1" using pow2_mult [OF d, of x] by simp
  then have e: "(dbl ^^ e) 1 = 1"
    using gf_multiply_pow [of "255 * y" 1 e 1] pow2_mult [OF pow2_facts(1), of y] by simp
  have "e \<le> d" "e dvd 255" using assms unfolding e_def by (auto intro: gcd_le1_nat)
  then have "e dvd 85 \<or> e dvd 51 \<or> e dvd 15" using divisors_255 assms by auto
  then show False using pow2_mult [OF e] pow2_facts unfolding dvd_def by metis
qed

lemma pow2_zero: "(dbl ^^ n) 1 \<noteq> 0"
proof
  assume 0: "(dbl ^^ n) 1 = 0"
  have "(dbl ^^ (255 * n)) 1 = 0" using 0 gf_multiply_pow [of n 1 "254 * n" 1] by simp
  then show False using pow2_mult [OF pow2_facts(1), of n] by simp
qed

lemma pow2_inj: "inj_on (\<lambda>n. (dbl ^^ n) 1) {..<255}"
proof -
  have "(dbl ^^ i) 1 \<noteq> (dbl ^^ j) 1" if "i < j" "j < 255" for i j
  proof
    assume eq: "(dbl ^^ i) 1 = (dbl ^^ j) 1"
    have "(dbl ^^ 255) 1 = (dbl ^^ (j - i)) ((dbl ^^ (255 - j + i)) 1)"
      using that by (simp add: funpow_add [symmetric, THEN fun_cong, simplified])
    also have "(dbl ^^ (255 - j + i)) 1 = (dbl ^^ (255 - j + j)) 1"
      using eq gf_multiply_pow [of "255 - j" 1 i 1] gf_multiply_pow [of "255 - j" 1 j 1] by simp
    finally show False using that pow2_order [of "j - i"] pow2_facts(1) by simp
  qed
  then show ?thesis by (intro inj_onI) (metis lessThan_iff linorder_neqE_nat)
qed

lemma gf_inverse_exists:
  assumes "a \<noteq> 0"
  shows "\<exists>b. gf_multiply a b = 1"
proof -
  have "(\<lambda>n. (dbl ^^ n) 1) ` {..<255} = UNIV - {0}"
  proof (rule card_subset_eq)
    show "card ((\<lambda>n. (dbl ^^ n) 1) ` {..<255}) = card (UNIV - {0 :: u8})"
      using card_image [OF pow2_inj] by (simp add: card_word)
  qed (auto simp: pow2_zero)
  with assms obtain n where "n < 255" "a = (dbl ^^ n) 1" by blast
  then have "gf_multiply a ((dbl ^^ (255 - n)) 1) = 1"
    using gf_multiply_pow [of n 1 "255 - n" 1] pow2_facts(1) by simp
  then show ?thesis by blast
qed

text \<open>The search keeps a byte whose product is 1 once it met one.\<close>

lemma search_last:
  assumes "(\<exists>b \<in> set xs. P b) \<or> Q r" "\<And>b. b \<in> set xs \<Longrightarrow> P b \<Longrightarrow> Q (f b)"
  shows "Q (foldl (\<lambda>r b. if P b then f b else r) r xs)"
  using assms by (induction xs arbitrary: r) auto

lemma gf_inverse:
  assumes "a \<noteq> 0"
  shows "gf_multiply (gf_inverse a) a = 1"
proof -
  obtain b where b: "gf_multiply a b = 1" using gf_inverse_exists [OF assms] ..
  have pr: "gf_product (ucast a) (of_nat n) = 1 \<longleftrightarrow> gf_multiply a (of_nat n) = 1" if "n < 256" for n
  proof -
    have "(of_nat n :: u32) = ucast (of_nat n :: u8)" using that by (simp add: word_unat_eq_iff unsigned_ucast_eq unsigned_of_nat take_bit_nat_eq_self)
    then show ?thesis using gf_product_multiply [of a "of_nat n"] ucast_back [of "gf_multiply a (of_nat n)"] by (metis unsigned_1)
  qed
  have "gf_product (ucast a) (of_nat (unat b)) = 1" using b pr [of "unat b"] unsigned_less [of b] by simp
  moreover have "unat b < 256" using unsigned_less [of b, where 'a = nat] by simp
  ultimately have "\<exists>n \<in> set [0..<256]. gf_product (ucast a) (of_nat n) = 1"
    by (intro bexI [of _ "unat b"]) simp_all
  then have "gf_multiply a (gf_inverse a) = 1"
    unfolding gf_inverse_def by (intro search_last [of _ _ "\<lambda>r. gf_multiply a r = 1"] disjI1) (simp_all only: set_upt atLeastLessThan_iff pr)
  then show ?thesis using gf_multiply_commute by simp
qed

section \<open>The nibble tables\<close>

lemma nibbles: "gf_low c (v AND 15) XOR gf_high c (drop_bit 4 v) = gf_multiply c v"
proof -
  have "(v AND 15) XOR push_bit 4 (drop_bit 4 v) = v"
  proof (rule bit_word_eqI)
    have m: "(15 :: u8) = mask 4" by (simp add: mask_eq_exp_minus_1)
    fix n assume "n < LENGTH(8)"
    then show "bit ((v AND 15) XOR push_bit 4 (drop_bit 4 v)) n = bit v n"
      unfolding m by (auto simp: bit_simps)
  qed
  then show ?thesis unfolding gf_low_def gf_high_def gf_multiply_xor_right [symmetric] by simp
qed

section \<open>The field as an interface\<close>

text \<open>What the codec relies on: a multiplication that is linear over XOR on both sides, with inverses.\<close>

locale byte_field =
  fixes mul :: "u8 \<Rightarrow> u8 \<Rightarrow> u8" and inv :: "u8 \<Rightarrow> u8"
  assumes xor_left: "mul (a XOR b) c = mul a c XOR mul b c"
    and xor_right: "mul a (b XOR c) = mul a b XOR mul a c"
    and assoc: "mul (mul a b) c = mul a (mul b c)"
    and one_left: "mul 1 a = a"
    and inverse_left: "a \<noteq> 0 \<Longrightarrow> mul (inv a) a = 1"
begin

lemma zero_right: "mul a 0 = 0"
  using xor_right [of a 0 0] by simp

lemma zero_left: "mul 0 a = 0"
  using xor_left [of 0 0 a] by simp

lemma cancel:
  assumes "c \<noteq> 0" "mul c a = mul c b"
  shows "a = b"
  using assms assoc [of "inv c" c a] assoc [of "inv c" c b] by (simp add: inverse_left one_left)

end

interpretation gf: byte_field gf_multiply gf_inverse
  by unfold_locales
    (simp_all add: gf_multiply_xor_left gf_multiply_xor_right gf_multiply_assoc gf_inverse)

text \<open>
  C13: The tables that the constructor of \<open>Field\<close> fills are those of a field: the products are linear over
  XOR in both factors, commutative and associative, 1 is neutral, the search finds the inverse of every
  non-zero byte, and the two nibble tables of the vectorised path add up to the product.
\<close>

theorem field_tables:
  "gf_multiply (a XOR b) c = gf_multiply a c XOR gf_multiply b c \<and> gf_multiply a b = gf_multiply b a \<and>
   gf_multiply (gf_multiply a b) c = gf_multiply a (gf_multiply b c) \<and> gf_multiply 1 a = a \<and>
   (a = 0 \<or> gf_multiply (gf_inverse a) a = 1) \<and> gf_low a (b AND 15) XOR gf_high a (drop_bit 4 b) = gf_multiply a b"
  using gf_multiply_xor_left [of a b c] gf_multiply_commute [of a b] gf_multiply_assoc [of a b c] gf_multiply_1(1) [of a]
    gf_inverse [of a] nibbles [of a b]
  by blast

end
