(* ===== verification/Rs_Small.thy ===== *)
theory Rs_Small
  imports Gf256
begin

text \<open>
  The bounded Reed-Solomon codec of \<open>fec/rs_small.cpp\<close>: vectorised multiply-and-add over GF(256), the cache
  of generator rows obtained from OpenFEC, the systematic encoder and the erasure decoder that solves the
  system of the missing source symbols by Gauss-Jordan elimination.

  \<^descr> A symbol is a list of bytes; an access outside a symbol or a fixed array is \<^const>\<open>None\<close>.
  \<^descr> The NEON path is the case \<open>neon = True\<close> (the macro \<open>MINIRTC_RS_NEON\<close>).
  \<^descr> OpenFEC is the parameter \<open>openfec\<close>; that its code is MDS is the hypothesis \<open>mds\<close>.

  The lemmas show that the block-wise loops compute the pointwise operation on either path, that the
  elimination preserves the system and always finds a pivot in a regular one, and that the decoder
  restores the source symbols from any sufficient set of received symbols.
\<close>

type_synonym symbols = "bytes list"
type_synonym rows = "u8 list list"

section \<open>Loops over blocks of bytes\<close>

text \<open>The loop \<open>for (; i + w <= size; i += w)\<close> (the test for \<open>0 < w\<close> only makes the recursion total).\<close>

function chunks :: "nat \<Rightarrow> nat \<Rightarrow> (nat \<Rightarrow> bytes \<Rightarrow> bytes) \<Rightarrow> nat \<Rightarrow> bytes \<Rightarrow> nat \<times> bytes" where
  "chunks w sz body i dst =
     (if 0 < w \<and> i + w \<le> sz then chunks w sz body (i + w) (body i dst) else (i, dst))"
  by auto
termination by (relation "measure (\<lambda>(w, sz, body, i, dst). sz - i)") auto

declare chunks.simps [simp del]

definition load :: "nat \<Rightarrow> nat \<Rightarrow> bytes \<Rightarrow> bytes" where "load w i xs = take w (drop i xs)"

definition store :: "bytes \<Rightarrow> nat \<Rightarrow> bytes \<Rightarrow> bytes" where
  "store block i dst = take i dst @ block @ drop (i + length block) dst"

text \<open>\<open>vqtbl1q_u8\<close> on the two nibble tables of a coefficient.\<close>

definition neon_product :: "u8 \<Rightarrow> bytes \<Rightarrow> bytes" where
  "neon_product c = map (\<lambda>v. gf_low c (v AND 15) XOR gf_high c (drop_bit 4 v))"

definition xor_bytes :: "bytes \<Rightarrow> bytes \<Rightarrow> bytes" where "xor_bytes = map2 (XOR)"

definition MultiplyAdd :: "bool \<Rightarrow> nat \<Rightarrow> u8 \<Rightarrow> bytes \<Rightarrow> bytes \<Rightarrow> bytes option" where
  "MultiplyAdd neon sz c dst src =
     (if c = 0 then Some dst
      else if length dst < sz \<or> length src < sz then None
      else if c = 1 then
        case (if neon then chunks 16 sz (\<lambda>i d. store (xor_bytes (load 16 i d) (load 16 i src)) i d) 0 dst else (0, dst)) of
          (i, dst) \<Rightarrow> Some (snd (chunks 1 sz (\<lambda>i d. d[i := d ! i XOR src ! i]) i dst))
      else
        case (if neon then chunks 16 sz (\<lambda>i d. store (xor_bytes (load 16 i d) (neon_product c (load 16 i src))) i d) 0 dst
              else (0, dst)) of
          (i, dst) \<Rightarrow>
            (case chunks 8 sz (\<lambda>i d. store (xor_bytes (load 8 i d) (map (gf_multiply c) (load 8 i src))) i d) i dst of
               (i, dst) \<Rightarrow> Some (snd (chunks 1 sz (\<lambda>i d. d[i := d ! i XOR gf_multiply c (src ! i)]) i dst))))"

definition Scale :: "bool \<Rightarrow> nat \<Rightarrow> u8 \<Rightarrow> bytes \<Rightarrow> bytes option" where
  "Scale neon sz c dst =
     (if c = 1 then Some dst
      else if length dst < sz then None
      else
        case (if neon then chunks 16 sz (\<lambda>i d. store (neon_product c (load 16 i d)) i d) 0 dst else (0, dst)) of
          (i, dst) \<Rightarrow>
            (case chunks 8 sz (\<lambda>i d. store (map (gf_multiply c) (load 8 i d)) i d) i dst of
               (i, dst) \<Rightarrow> Some (snd (chunks 1 sz (\<lambda>i d. d[i := gf_multiply c (d ! i)]) i dst))))"

section \<open>The cache of generator rows\<close>

text \<open>
  OpenFEC: whether a session for \<open>k\<close> sources, \<open>r\<close> repairs and a symbol length can be opened, the repair
  symbol \<open>id\<close> of given sources, and a decoding session, which is a function of the symbols fed so far (its
  status, whether decoding is complete and the source symbols it wrote through the allocation callback).
\<close>

datatype of_status = OfOk | OfFailure | OfError

record openfec =
  of_open :: "nat \<Rightarrow> nat \<Rightarrow> nat \<Rightarrow> bool"
  of_build :: "nat \<Rightarrow> nat \<Rightarrow> symbols \<Rightarrow> nat \<Rightarrow> bytes option"
  of_decode :: "nat \<Rightarrow> nat \<Rightarrow> nat \<Rightarrow> (nat \<times> bytes) list \<Rightarrow> of_status \<times> bool \<times> (nat \<times> bytes) list"

type_synonym rs_cache = "nat \<times> nat \<Rightarrow> rows option"

definition kRsSmallMaxSources :: nat where "kRsSmallMaxSources = 16"
definition kRsSmallMaxRepairs :: nat where "kRsSmallMaxRepairs = 4"

definition basis :: "nat \<Rightarrow> symbols" where
  "basis k = map (\<lambda>i. (replicate kRsSmallMaxSources 0)[i := 1]) [0..<k]"

fun those :: "'a option list \<Rightarrow> 'a list option" where
  "those [] = Some []"
| "those (x # xs) = do { y \<leftarrow> x; ys \<leftarrow> those xs; Some (y # ys) }"

definition Matrix :: "openfec \<Rightarrow> rs_cache \<Rightarrow> nat \<Rightarrow> nat \<Rightarrow> (rows option \<times> rs_cache) option" where
  "Matrix ofc cache k r =
     (if k = 0 \<or> kRsSmallMaxSources < k \<or> r = 0 \<or> kRsSmallMaxRepairs < r then None
      else case cache (k, r) of
        Some rs \<Rightarrow> Some (Some rs, cache)
      | None \<Rightarrow>
          if \<not> of_open ofc k r kRsSmallMaxSources then Some (None, cache)
          else case those (map (\<lambda>i. of_build ofc k r (basis k) (k + i)) [0..<r]) of
              None \<Rightarrow> Some (None, cache)
            | Some rs \<Rightarrow> Some (Some rs, cache((k, r) \<mapsto> rs)))"

definition SupportsSmallRs :: "nat \<Rightarrow> nat \<Rightarrow> bool" where
  "SupportsSmallRs k r \<longleftrightarrow> k \<noteq> 0 \<and> k \<le> kRsSmallMaxSources \<and> r \<noteq> 0 \<and> r \<le> kRsSmallMaxRepairs"

section \<open>Encoder and decoder\<close>

text \<open>The loops \<open>dst ^= coefficients[col] * symbols[col]\<close> over the given columns.\<close>

fun add_cols :: "bool \<Rightarrow> nat \<Rightarrow> u8 list \<Rightarrow> symbols \<Rightarrow> nat list \<Rightarrow> bytes \<Rightarrow> bytes option" where
  "add_cols neon sz coeffs syms [] dst = Some dst"
| "add_cols neon sz coeffs syms (col # cols) dst =
     do { dst \<leftarrow> MultiplyAdd neon sz (coeffs ! col) dst (syms ! col);
          add_cols neon sz coeffs syms cols dst }"

definition encode_row :: "bool \<Rightarrow> nat \<Rightarrow> symbols \<Rightarrow> u8 list \<Rightarrow> bytes option" where
  "encode_row neon sz sources coeffs =
     do { dst \<leftarrow> Scale neon sz (coeffs ! 0) (sources ! 0);
          add_cols neon sz coeffs sources [1..<length sources] dst }"

definition EncodeSmallRs :: "openfec \<Rightarrow> bool \<Rightarrow> rs_cache \<Rightarrow> symbols \<Rightarrow> nat \<Rightarrow> (symbols option \<times> rs_cache) option" where
  "EncodeSmallRs ofc neon cache sources r =
     do { (matrix, cache) \<leftarrow> Matrix ofc cache (length sources) r;
          case matrix of
            None \<Rightarrow> Some (None, cache)
          | Some rs \<Rightarrow>
              do { repairs \<leftarrow> those (map (\<lambda>row. encode_row neon (length (hd sources)) sources (rs ! row)) [0..<r]);
                   Some (Some repairs, cache) } }"

fun scan_missing :: "nat \<Rightarrow> bool list \<Rightarrow> nat list \<Rightarrow> nat list \<Rightarrow> nat list option" where
  "scan_missing r seen [] missing = Some missing"
| "scan_missing r seen (i # js) missing =
     (if seen ! i then scan_missing r seen js missing
      else if length missing = r then None
      else scan_missing r seen js (missing @ [i]))"

fun scan_repairs :: "nat \<Rightarrow> bool list \<Rightarrow> nat \<Rightarrow> nat list \<Rightarrow> nat list \<Rightarrow> nat list" where
  "scan_repairs k seen cnt [] ids = ids"
| "scan_repairs k seen cnt (i # js) ids =
     (if length ids < cnt then scan_repairs k seen cnt js (if seen ! (k + i) then ids @ [i] else ids) else ids)"

text \<open>The right-hand side of one equation: the repair symbol less the known sources.\<close>

definition reduce_row :: "bool \<Rightarrow> nat \<Rightarrow> nat \<Rightarrow> bool list \<Rightarrow> u8 list \<Rightarrow> nat \<Rightarrow> nat \<Rightarrow> symbols \<Rightarrow> symbols option" where
  "reduce_row neon sz k seen coeffs target repair syms =
     (if length (syms ! target) < sz \<or> length (syms ! repair) < sz then None
      else do { rhs \<leftarrow> add_cols neon sz coeffs syms (filter (\<lambda>col. seen ! col) [0..<k])
                         (take sz (syms ! repair) @ drop sz (syms ! target));
                Some (syms[target := rhs]) })"

fun reduce_rows :: "bool \<Rightarrow> nat \<Rightarrow> nat \<Rightarrow> bool list \<Rightarrow> rows \<Rightarrow> (nat \<times> nat) list \<Rightarrow> symbols \<Rightarrow> symbols option" where
  "reduce_rows neon sz k seen rs [] syms = Some syms"
| "reduce_rows neon sz k seen rs ((target, rep) # eqs) syms =
     do { syms \<leftarrow> reduce_row neon sz k seen (rs ! rep) target (k + rep) syms;
          reduce_rows neon sz k seen rs eqs syms }"

function find_pivot :: "rows \<Rightarrow> nat \<Rightarrow> nat \<Rightarrow> nat \<Rightarrow> nat" where
  "find_pivot A cnt col pivot =
     (if pivot < cnt \<and> A ! pivot ! col = 0 then find_pivot A cnt col (Suc pivot) else pivot)"
  by auto
termination by (relation "measure (\<lambda>(A, cnt, col, pivot). cnt - pivot)") auto

declare find_pivot.simps [simp del]

definition swap_at :: "nat \<Rightarrow> nat \<Rightarrow> 'a list \<Rightarrow> 'a list" where
  "swap_at i j xs = xs[i := xs ! j, j := xs ! i]"

definition scale_row :: "nat \<Rightarrow> u8 \<Rightarrow> u8 list \<Rightarrow> u8 list" where
  "scale_row col s row = take col row @ map (gf_multiply s) (drop col row)"

definition add_row :: "nat \<Rightarrow> u8 \<Rightarrow> u8 list \<Rightarrow> u8 list \<Rightarrow> u8 list" where
  "add_row col f pivot row = take col row @ map2 (\<lambda>a p. a XOR gf_multiply f p) (drop col row) (drop col pivot)"

text \<open>The inner loop of one elimination step: clear the column in every other row.\<close>

fun clear_rows :: "bool \<Rightarrow> nat \<Rightarrow> nat list \<Rightarrow> nat \<Rightarrow> nat list \<Rightarrow> rows \<times> symbols \<Rightarrow> (rows \<times> symbols) option" where
  "clear_rows neon sz missing col [] st = Some st"
| "clear_rows neon sz missing col (row # rest) (A, syms) =
     (if row = col then clear_rows neon sz missing col rest (A, syms)
      else let factor = A ! row ! col in
        if factor = 0 then clear_rows neon sz missing col rest (A, syms)
        else do { rhs \<leftarrow> MultiplyAdd neon sz factor (syms ! (missing ! row)) (syms ! (missing ! col));
                  clear_rows neon sz missing col rest
                    (A[row := add_row col factor (A ! col) (A ! row)], syms[missing ! row := rhs]) })"

text \<open>The elimination over the columns: the flag is the function's result.\<close>

fun eliminate :: "bool \<Rightarrow> nat \<Rightarrow> nat list \<Rightarrow> nat list \<Rightarrow> rows \<times> symbols \<Rightarrow> (bool \<times> symbols) option" where
  "eliminate neon sz missing [] (A, syms) = Some (True, syms)"
| "eliminate neon sz missing (col # cols) (A, syms) =
     (let cnt = length missing; pivot = find_pivot A cnt col col in
      if pivot = cnt then Some (False, syms)
      else
        let A = swap_at pivot col A; syms = swap_at (missing ! pivot) (missing ! col) syms;
            s = gf_inverse (A ! col ! col) in
        do { rhs \<leftarrow> Scale neon sz s (syms ! (missing ! col));
             st \<leftarrow> clear_rows neon sz missing col [0..<cnt]
                     (A[col := scale_row col s (A ! col)], syms[missing ! col := rhs]);
             eliminate neon sz missing cols st })"

definition DecodeSmallRs :: "openfec \<Rightarrow> bool \<Rightarrow> rs_cache \<Rightarrow> nat \<Rightarrow> nat \<Rightarrow> nat \<Rightarrow> bool list \<Rightarrow> symbols \<Rightarrow>
    (bool \<times> symbols \<times> rs_cache) option" where
  "DecodeSmallRs ofc neon cache k r sz seen syms =
     (if kRsSmallMaxRepairs < r \<or> length seen < k + r \<or> length syms < k + r then None
      else case scan_missing r seen [0..<k] [] of
        None \<Rightarrow> Some (False, syms, cache)
      | Some [] \<Rightarrow> Some (True, syms, cache)
      | Some missing \<Rightarrow>
          let cnt = length missing; ids = scan_repairs k seen cnt [0..<r] [] in
          if length ids < cnt then Some (False, syms, cache)
          else do { (matrix, cache) \<leftarrow> Matrix ofc cache k r;
            case matrix of
              None \<Rightarrow> Some (False, syms, cache)
            | Some rs \<Rightarrow>
                do { syms \<leftarrow> reduce_rows neon sz k seen rs (zip missing ids) syms;
                     (ok, syms) \<leftarrow> eliminate neon sz missing [0..<cnt]
                       (map (\<lambda>rep. map (\<lambda>m. rs ! rep ! m) missing) ids, syms);
                     Some (ok, syms, cache) } })"

section \<open>The block-wise loops compute the pointwise operation\<close>

definition join :: "nat \<Rightarrow> bytes \<Rightarrow> bytes \<Rightarrow> bytes" where "join i T D = take i T @ drop i D"

lemma chunks_join:
  assumes "0 < w" "i \<le> sz" "\<And>j. j + w \<le> sz \<Longrightarrow> body j (join j T D) = join (j + w) T D"
  shows "\<exists>j \<le> sz. chunks w sz body i (join i T D) = (j, join j T D) \<and> sz < j + w"
  using assms(2)
proof (induction "sz - i" arbitrary: i rule: less_induct)
  case less
  show ?case
  proof (cases "i + w \<le> sz")
    case True
    moreover have "\<exists>j \<le> sz. chunks w sz body (i + w) (join (i + w) T D) = (j, join j T D) \<and> sz < j + w"
      using less.hyps [of "i + w"] True assms(1) by simp
    ultimately show ?thesis using assms(1,3) by (subst chunks.simps) simp
  next
    case False
    then show ?thesis using less.prems by (subst chunks.simps) auto
  qed
qed

text \<open>One block step, with the pointwise result \<open>T\<close> of length \<open>sz\<close>.\<close>

lemma store_join:
  assumes "j + w \<le> length T" "length T = length D" "block = load w j T"
  shows "store block j (join j T D) = join (j + w) T D"
  using assms by (auto simp: store_def join_def load_def take_add add.commute)

lemma load_join: "j \<le> length T \<Longrightarrow> load w j (join j T D) = load w j D"
  by (simp add: load_def join_def)

lemma update_join:
  assumes "j < length T" "length T = length D"
  shows "(join j T D)[j := T ! j] = join (j + 1) T D"
  using assms by (auto simp: join_def list_update_append take_Suc_conv_app_nth Cons_nth_drop_Suc [symmetric])

lemma nth_join: "j < length D \<Longrightarrow> length T = length D \<Longrightarrow> join j T D ! j = D ! j"
  by (simp add: join_def nth_append)

definition mul_add :: "u8 \<Rightarrow> bytes \<Rightarrow> bytes \<Rightarrow> bytes" where
  "mul_add c dst src = map2 (\<lambda>d s. d XOR gf_multiply c s) dst src"

lemma load_map2: "load w j (map2 f xs ys) = map2 f (load w j xs) (load w j ys)"
  by (simp add: load_def drop_map drop_zip take_map take_zip)

lemma load_map: "load w j (map f xs) = map f (load w j xs)"
  by (simp add: load_def drop_map take_map)

lemma neon_product: "neon_product c = map (gf_multiply c)"
  by (simp add: neon_product_def nibbles fun_eq_iff)

lemma xor_product: "xor_bytes d (map (gf_multiply c) s) = map2 (\<lambda>d s. d XOR gf_multiply c s) d s"
  unfolding xor_bytes_def by (simp add: zip_map2 case_prod_beta comp_def)

lemma xor_product_1: "xor_bytes d s = map2 (\<lambda>d s. d XOR gf_multiply 1 s) d s"
  unfolding xor_bytes_def by simp

lemma join_0 [simp]: "join 0 T D = D" and join_full: "length T \<le> n \<Longrightarrow> length D \<le> n \<Longrightarrow> join n T D = T"
  by (simp_all add: join_def)

text \<open>A run of at most three loops, each resuming where the previous one stopped, the last one bytewise.\<close>

lemma chunk_runs:
  assumes T: "length T = length D" "sz = length D"
    and "\<And>j. j + 16 \<le> sz \<Longrightarrow> b16 j (join j T D) = join (j + 16) T D"
    and "\<And>j. j + 8 \<le> sz \<Longrightarrow> b8 j (join j T D) = join (j + 8) T D"
    and "\<And>j. j + 1 \<le> sz \<Longrightarrow> b1 j (join j T D) = join (j + 1) T D"
  shows "(case (if neon then chunks 16 sz b16 0 D else (0, D)) of (i, dst) \<Rightarrow> snd (chunks 1 sz b1 i dst)) = T"
    "(case (if neon then chunks 16 sz b16 0 D else (0, D)) of (i, dst) \<Rightarrow>
       (case chunks 8 sz b8 i dst of (i, dst) \<Rightarrow> snd (chunks 1 sz b1 i dst))) = T"
proof -
  have one: "snd (chunks 1 sz b1 i (join i T D)) = T" if i: "i \<le> sz" for i
  proof -
    obtain j where "j \<le> sz" "chunks 1 sz b1 i (join i T D) = (j, join j T D)" "sz < j + 1"
      using chunks_join [of 1 i sz b1 T D, OF _ i assms(5)] by auto
    then show ?thesis using T by (simp add: join_full)
  qed
  obtain i where i: "(if neon then chunks 16 sz b16 0 D else (0, D)) = (i, join i T D)" "i \<le> sz"
    using chunks_join [of 16 0 sz b16 T D, OF _ _ assms(3)] by (cases neon) auto
  show "(case (if neon then chunks 16 sz b16 0 D else (0, D)) of (i, dst) \<Rightarrow> snd (chunks 1 sz b1 i dst)) = T"
    unfolding i(1) using one [OF i(2)] by simp
  obtain j where j: "chunks 8 sz b8 i (join i T D) = (j, join j T D)" "j \<le> sz"
    using chunks_join [of 8 i sz b8 T D, OF _ i(2) assms(4)] by auto
  show "(case (if neon then chunks 16 sz b16 0 D else (0, D)) of (i, dst) \<Rightarrow>
       (case chunks 8 sz b8 i dst of (i, dst) \<Rightarrow> snd (chunks 1 sz b1 i dst))) = T"
    unfolding i(1) prod.case j(1) using one [OF j(2)] by simp
qed

lemma mul_add_0 [simp]: "length src = length dst \<Longrightarrow> mul_add 0 dst src = dst"
  by (simp add: mul_add_def list_eq_iff_nth_eq)

lemma MultiplyAdd_eq:
  assumes "length dst = sz" "length src = sz"
  shows "MultiplyAdd neon sz c dst src = Some (mul_add c dst src)"
proof -
  define T where "T = mul_add c dst src"
  have T: "length T = length dst" "sz = length dst" using assms by (simp_all add: T_def mul_add_def)
  have src: "length src = length dst" using assms by simp
  have blk: "store (xor_bytes (load w j (join j T dst)) (map (gf_multiply c) (load w j src))) j (join j T dst) = join (j + w) T dst"
    if "j + w \<le> sz" for j w
    using that T src by (intro store_join) (simp_all add: load_join xor_product T_def mul_add_def load_map2)
  have byte: "(join j T dst)[j := join j T dst ! j XOR gf_multiply c (src ! j)] = join (j + 1) T dst" if "j + 1 \<le> sz" for j
  proof -
    have "T ! j = dst ! j XOR gf_multiply c (src ! j)" using that assms by (simp add: T_def mul_add_def)
    then show ?thesis using that update_join [of j T dst] T by (simp add: nth_join)
  qed
  note runs = chunk_runs [OF T, of
      "\<lambda>i d. store (xor_bytes (load 16 i d) (map (gf_multiply c) (load 16 i src))) i d"
      "\<lambda>i d. store (xor_bytes (load 8 i d) (map (gf_multiply c) (load 8 i src))) i d"
      "\<lambda>i d. d[i := d ! i XOR gf_multiply c (src ! i)]" neon, OF blk blk byte]
  have one: "gf_multiply 1 = (\<lambda>x. x)" by (simp add: fun_eq_iff)
  consider "c = 0" | "c = 1" | "c \<noteq> 0" "c \<noteq> 1" by blast
  then show ?thesis
  proof cases
    case 1
    then show ?thesis using assms by (simp add: MultiplyAdd_def)
  next
    case 2
    show ?thesis using assms runs(1) unfolding 2 one MultiplyAdd_def T_def case_prod_beta list.map_ident
      by (cases neon) simp_all
  next
    case 3
    then show ?thesis using assms runs(2) unfolding MultiplyAdd_def neon_product T_def case_prod_beta by simp
  qed
qed

lemma Scale_eq:
  assumes "length dst = sz"
  shows "Scale neon sz c dst = Some (map (gf_multiply c) dst)"
proof -
  define T where "T = map (gf_multiply c) dst"
  have T: "length T = length dst" "sz = length dst" using assms by (simp_all add: T_def)
  have blk: "store (map (gf_multiply c) (load w j (join j T dst))) j (join j T dst) = join (j + w) T dst"
    if "j + w \<le> sz" for j w
    using that T by (intro store_join) (simp_all add: load_join T_def load_map)
  have byte: "(join j T dst)[j := gf_multiply c (join j T dst ! j)] = join (j + 1) T dst" if "j + 1 \<le> sz" for j
    using that T update_join [of j T dst] by (simp add: nth_join T_def)
  have "map (gf_multiply 1) dst = dst" by (simp add: list_eq_iff_nth_eq)
  then show ?thesis
    using assms chunk_runs(2) [OF T, of "\<lambda>i d. store (map (gf_multiply c) (load 16 i d)) i d"
      "\<lambda>i d. store (map (gf_multiply c) (load 8 i d)) i d" "\<lambda>i d. d[i := gf_multiply c (d ! i)]" neon, OF blk blk byte]
    unfolding Scale_def neon_product T_def case_prod_beta by (cases "c = 1") simp_all
qed

section \<open>Linear combinations\<close>

fun xsum :: "('i \<Rightarrow> u8) \<Rightarrow> 'i list \<Rightarrow> u8" where
  "xsum f [] = 0"
| "xsum f (i # js) = f i XOR xsum f js"

lemma xsum_append: "xsum f (xs @ ys) = xsum f xs XOR xsum f ys"
  by (induction xs) (simp_all add: xor.assoc)

lemma xsum_filter: "xsum f xs = xsum f (filter P xs) XOR xsum f (filter (\<lambda>x. \<not> P x) xs)"
  by (induction xs) (simp_all add: ac_simps)

lemma xsum_xor: "xsum (\<lambda>i. f i XOR g i) xs = xsum f xs XOR xsum g xs"
  by (induction xs) (simp_all add: ac_simps)

lemma xsum_mul: "xsum (\<lambda>i. gf_multiply c (f i)) xs = gf_multiply c (xsum f xs)"
  by (induction xs) (simp_all add: gf.xor_right)

lemma xsum_cong: "(\<And>i. i \<in> set xs \<Longrightarrow> f i = g i) \<Longrightarrow> xsum f xs = xsum g xs"
  by (induction xs) simp_all

lemma xsum_zero: "(\<And>i. i \<in> set xs \<Longrightarrow> f i = 0) \<Longrightarrow> xsum f xs = 0"
  by (induction xs) simp_all

lemma xsum_delta: "distinct xs \<Longrightarrow> xsum (\<lambda>i. if i = j then f i else 0) xs = (if j \<in> set xs then f j else 0)"
  by (induction xs) (auto intro!: xsum_zero)

lemma xsum_reindex: "xsum f (map g xs) = xsum (\<lambda>i. f (g i)) xs"
  by (induction xs) simp_all

text \<open>The value of row \<open>i\<close> of a system at the point \<open>v\<close>.\<close>

definition dot :: "nat \<Rightarrow> u8 list \<Rightarrow> (nat \<Rightarrow> u8) \<Rightarrow> u8" where
  "dot n row v = xsum (\<lambda>c. gf_multiply (row ! c) (v c)) [0..<n]"

lemma dot_scale: "col \<le> n \<Longrightarrow> length row = n \<Longrightarrow> (\<And>j. j < col \<Longrightarrow> row ! j = 0) \<Longrightarrow>
    dot n (scale_row col s row) v = gf_multiply s (dot n row v)"
  unfolding dot_def xsum_mul [symmetric]
  by (intro xsum_cong) (auto simp: scale_row_def nth_append gf_multiply_assoc)

lemma dot_add: "col \<le> n \<Longrightarrow> length row = n \<Longrightarrow> length pivot = n \<Longrightarrow> (\<And>j. j < col \<Longrightarrow> pivot ! j = 0) \<Longrightarrow>
    dot n (add_row col f pivot row) v = dot n row v XOR gf_multiply f (dot n pivot v)"
  unfolding dot_def xsum_mul [symmetric] xsum_xor [symmetric]
  by (intro xsum_cong) (auto simp: add_row_def nth_append gf_multiply_assoc gf_multiply_xor_left)

text \<open>
  The system that the elimination works on: coefficients \<open>A\<close>, right-hand sides \<open>B\<close>, the unknown symbols
  \<open>X\<close>. It is solved by \<open>X\<close>, is regular, and its first \<open>col\<close> columns are unit vectors.
\<close>

definition regular :: "nat \<Rightarrow> rows \<Rightarrow> bool" where
  "regular n A \<longleftrightarrow> (\<forall>v. (\<forall>i < n. dot n (A ! i) v = 0) \<longrightarrow> (\<forall>c < n. v c = 0))"

definition unit_cols :: "nat \<Rightarrow> nat \<Rightarrow> rows \<Rightarrow> bool" where
  "unit_cols n col A \<longleftrightarrow> (\<forall>i < n. \<forall>j < col. A ! i ! j = (if i = j then 1 else 0))"

definition solved :: "nat \<Rightarrow> nat \<Rightarrow> symbols \<Rightarrow> rows \<Rightarrow> symbols \<Rightarrow> bool" where
  "solved n sz X A B \<longleftrightarrow> length A = n \<and> length B = n \<and>
     (\<forall>i < n. length (A ! i) = n \<and> length (B ! i) = sz \<and> (\<forall>t < sz. dot n (A ! i) (\<lambda>c. X ! c ! t) = B ! i ! t))"

lemma regular_pivot:
  assumes "regular n A" "unit_cols n col A" "col < n"
  shows "\<exists>p. col \<le> p \<and> p < n \<and> A ! p ! col \<noteq> 0"
proof (rule ccontr)
  assume no: "\<not> ?thesis"
  define v where "v c = (if c = col then 1 else if c < col then A ! c ! col else 0)" for c
  have "dot n (A ! i) v = 0" if i: "i < n" for i
  proof -
    have "gf_multiply (A ! i ! c) (v c) =
        (if c = i then (if i < col then A ! i ! col else 0) else 0) XOR (if c = col then A ! i ! col else 0)"
      if c: "c < n" for c
    proof (cases "c < col")
      case True
      then have "A ! i ! c = (if i = c then 1 else 0)" using assms(2) i by (simp add: unit_cols_def)
      then show ?thesis using True by (auto simp: v_def)
    next
      case False
      then show ?thesis by (auto simp: v_def)
    qed
    then have "dot n (A ! i) v = xsum (\<lambda>c. (if c = i then (if i < col then A ! i ! col else 0) else 0)
        XOR (if c = col then A ! i ! col else 0)) [0..<n]"
      unfolding dot_def by (intro xsum_cong) simp
    also have "\<dots> = (if i < col then A ! i ! col else 0) XOR A ! i ! col"
      unfolding xsum_xor using i assms(3) by (simp add: xsum_delta)
    also have "\<dots> = 0" using no i by (cases "i < col") auto
    finally show ?thesis .
  qed
  then have "v col = 0" using assms(1,3) unfolding regular_def by blast
  then show False by (simp add: v_def)
qed

lemma find_pivot_props:
  "col \<le> cnt \<Longrightarrow> find_pivot A cnt j col \<le> cnt \<and> col \<le> find_pivot A cnt j col \<and>
     (find_pivot A cnt j col < cnt \<longrightarrow> A ! find_pivot A cnt j col ! j \<noteq> 0) \<and>
     (\<forall>p. col \<le> p \<and> p < find_pivot A cnt j col \<longrightarrow> A ! p ! j = 0)"
proof (induction "cnt - col" arbitrary: col rule: less_induct)
  case less
  show ?case
  proof (cases "col < cnt \<and> A ! col ! j = 0")
    case True
    then have "find_pivot A cnt j col = find_pivot A cnt j (Suc col)" by (subst find_pivot.simps) simp
    moreover have h: "find_pivot A cnt j (Suc col) \<le> cnt \<and> Suc col \<le> find_pivot A cnt j (Suc col) \<and>
       (find_pivot A cnt j (Suc col) < cnt \<longrightarrow> A ! find_pivot A cnt j (Suc col) ! j \<noteq> 0) \<and>
       (\<forall>p. Suc col \<le> p \<and> p < find_pivot A cnt j (Suc col) \<longrightarrow> A ! p ! j = 0)"
      using less.hyps [of "Suc col"] True by (simp add: diff_less_mono2)
    moreover have "A ! p ! j = 0" if "col \<le> p" "p < find_pivot A cnt j (Suc col)" for p
      using that h True by (cases "p = col") auto
    ultimately show ?thesis by auto
  next
    case False
    then have "find_pivot A cnt j col = col" by (subst find_pivot.simps) auto
    then show ?thesis using False less.prems by auto
  qed
qed

section \<open>The elimination\<close>

lemma length_swap_at [simp]: "length (swap_at i j xs) = length xs"
  by (simp add: swap_at_def)

lemma nth_swap_at: "i < length xs \<Longrightarrow> j < length xs \<Longrightarrow>
    swap_at i j xs ! l = (if l = j then xs ! i else if l = i then xs ! j else xs ! l)"
  by (auto simp: swap_at_def nth_list_update)

lemma solved_swap:
  assumes "solved n sz X A B" "p < n" "q < n"
  shows "solved n sz X (swap_at p q A) (swap_at p q B)"
  using assms unfolding solved_def by (auto simp: nth_swap_at)

lemma regular_swap:
  assumes "regular n A" "length A = n" "p < n" "q < n"
  shows "regular n (swap_at p q A)"
proof -
  have "dot n (A ! i) v = 0" if "\<forall>i < n. dot n (swap_at p q A ! i) v = 0" "i < n" for i v
  proof -
    have "dot n (swap_at p q A ! (if i = p then q else if i = q then p else i)) v = 0" using that assms by simp
    then show ?thesis using assms by (auto simp: nth_swap_at split: if_splits)
  qed
  then show ?thesis using assms(1) unfolding regular_def by blast
qed

lemma unit_cols_swap:
  assumes "unit_cols n col A" "length A = n" "col \<le> p" "p < n" "col \<le> q" "q < n"
  shows "unit_cols n col (swap_at p q A)"
  using assms unfolding unit_cols_def by (auto simp: nth_swap_at)

lemma solved_update:
  assumes "solved n sz X A B" "i < n" "length row = n" "length b = sz"
    "\<And>t. t < sz \<Longrightarrow> dot n row (\<lambda>c. X ! c ! t) = b ! t"
  shows "solved n sz X (A[i := row]) (B[i := b])"
  using assms unfolding solved_def by (auto simp: nth_list_update)

lemma regular_update:
  assumes "regular n A" "length A = n" "i < n"
    "\<And>v. (\<forall>j < n. dot n (A[i := row] ! j) v = 0) \<Longrightarrow> dot n (A ! i) v = 0"
  shows "regular n (A[i := row])"
proof -
  have "dot n (A ! j) v = 0" if "\<forall>j < n. dot n (A[i := row] ! j) v = 0" "j < n" for j v
    using assms that by (cases "j = i") (auto simp: nth_list_update dest: spec [of _ j])
  then show ?thesis using assms(1) unfolding regular_def by blast
qed

lemma unit_cols_update:
  assumes "unit_cols n col A" "length A = n" "i < n" "\<And>j. j < col \<Longrightarrow> row ! j = A ! i ! j"
  shows "unit_cols n col (A[i := row])"
  using assms unfolding unit_cols_def by (auto simp: nth_list_update)

text \<open>The invariant of the elimination, on the symbols at the missing positions.\<close>

definition gather :: "nat list \<Rightarrow> symbols \<Rightarrow> symbols" where "gather idx syms = map (\<lambda>i. syms ! i) idx"

definition elim_inv :: "nat \<Rightarrow> nat \<Rightarrow> symbols \<Rightarrow> nat list \<Rightarrow> nat \<Rightarrow> rows \<Rightarrow> symbols \<Rightarrow> bool" where
  "elim_inv n sz X missing col A syms \<longleftrightarrow> length missing = n \<and> distinct missing \<and> set missing \<subseteq> {..<length syms} \<and>
     solved n sz X A (gather missing syms) \<and> regular n A \<and> unit_cols n col A"

definition outside :: "nat list \<Rightarrow> symbols \<Rightarrow> symbols \<Rightarrow> bool" where
  "outside idx syms syms' \<longleftrightarrow> length syms' = length syms \<and> (\<forall>i. i \<notin> set idx \<longrightarrow> syms' ! i = syms ! i)"

lemma outside_refl [simp]: "outside idx syms syms" by (simp add: outside_def)

lemma outside_trans: "outside idx a b \<Longrightarrow> outside idx b c \<Longrightarrow> outside idx a c" by (simp add: outside_def)

lemma outside_update: "i < length idx \<Longrightarrow> outside idx syms (syms[idx ! i := b])"
  by (auto simp: outside_def) (metis nth_list_update_neq nth_mem)

lemma outside_swap: "p < length idx \<Longrightarrow> q < length idx \<Longrightarrow> outside idx syms (swap_at (idx ! p) (idx ! q) syms)"
  unfolding swap_at_def by (blast intro: outside_trans outside_update)

lemma gather_nth: "i < length idx \<Longrightarrow> gather idx syms ! i = syms ! (idx ! i)"
  by (simp add: gather_def)

lemma gather_update:
  assumes "distinct idx" "i < length idx" "set idx \<subseteq> {..<length syms}"
  shows "gather idx (syms[idx ! i := b]) = (gather idx syms)[i := b]"
  using assms unfolding gather_def
  by (auto simp: list_eq_iff_nth_eq nth_list_update nth_eq_iff_index_eq subset_eq)

lemma gather_swap:
  assumes "distinct idx" "p < length idx" "q < length idx" "set idx \<subseteq> {..<length syms}"
  shows "gather idx (swap_at (idx ! p) (idx ! q) syms) = swap_at p q (gather idx syms)"
  using assms unfolding swap_at_def by (simp add: gather_update gather_nth)

lemma nth_low_row:
  "j < col \<Longrightarrow> col \<le> length row \<Longrightarrow> scale_row col s row ! j = row ! j"
  "j < col \<Longrightarrow> col \<le> length row \<Longrightarrow> add_row col f pivot row ! j = row ! j"
  by (simp_all add: scale_row_def add_row_def nth_append)

lemma length_row [simp]: "length (scale_row col s row) = length row"
  "length pivot = length row \<Longrightarrow> length (add_row col f pivot row) = length row"
  by (simp_all add: scale_row_def add_row_def)

text \<open>One row is cleared.\<close>

lemma clear_row:
  assumes inv: "elim_inv n sz X missing col A syms" and col: "col < n" "A ! col ! col = 1" and row: "row < n" "row \<noteq> col"
  defines "f \<equiv> A ! row ! col"
  shows "elim_inv n sz X missing col (A[row := add_row col f (A ! col) (A ! row)])
      (syms[missing ! row := mul_add f (syms ! (missing ! row)) (syms ! (missing ! col))])"
    "add_row col f (A ! col) (A ! row) ! col = 0"
proof -
  have s: "solved n sz X A (gather missing syms)" and m: "length missing = n" "distinct missing" "set missing \<subseteq> {..<length syms}"
    and r: "regular n A" "unit_cols n col A" using inv by (auto simp: elim_inv_def)
  have A: "length A = n" "length (A ! row) = n" "length (A ! col) = n" using s col row by (auto simp: solved_def)
  have B: "length (syms ! (missing ! row)) = sz" "length (syms ! (missing ! col)) = sz"
    "\<And>t. t < sz \<Longrightarrow> dot n (A ! row) (\<lambda>c. X ! c ! t) = syms ! (missing ! row) ! t"
    "\<And>t. t < sz \<Longrightarrow> dot n (A ! col) (\<lambda>c. X ! c ! t) = syms ! (missing ! col) ! t"
    using s col row m gather_nth [of _ missing syms] by (auto simp: solved_def)
  have z: "\<And>j. j < col \<Longrightarrow> A ! col ! j = 0" using r(2) col by (auto simp: unit_cols_def)
  have d: "dot n (add_row col f (A ! col) (A ! row)) v = dot n (A ! row) v XOR gf_multiply f (dot n (A ! col) v)" for v
    using A col z by (intro dot_add) auto
  have "solved n sz X (A[row := add_row col f (A ! col) (A ! row)])
      ((gather missing syms)[row := mul_add f (syms ! (missing ! row)) (syms ! (missing ! col))])"
    using s row A B d by (intro solved_update) (auto simp: mul_add_def)
  moreover have "regular n (A[row := add_row col f (A ! col) (A ! row)])"
  proof (rule regular_update [OF r(1) A(1) row(1)])
    fix v assume *: "\<forall>j < n. dot n (A[row := add_row col f (A ! col) (A ! row)] ! j) v = 0"
    have "dot n (A ! col) v = 0" using *[rule_format, of col] col row by simp
    with *[rule_format, of row] row A d show "dot n (A ! row) v = 0" by simp
  qed
  moreover have "unit_cols n col (A[row := add_row col f (A ! col) (A ! row)])"
    using r(2) A row col by (intro unit_cols_update) (auto simp: nth_low_row)
  ultimately show "elim_inv n sz X missing col (A[row := add_row col f (A ! col) (A ! row)])
      (syms[missing ! row := mul_add f (syms ! (missing ! row)) (syms ! (missing ! col))])"
    using m row unfolding elim_inv_def by (simp add: gather_update)
  show "add_row col f (A ! col) (A ! row) ! col = 0"
    using A col by (simp add: add_row_def nth_append f_def)
qed

lemma clear_rows_ok:
  assumes "elim_inv n sz X missing col A syms" "col < n" "A ! col ! col = 1" "set rest \<subseteq> {..<n}"
  shows "\<exists>A' syms'. clear_rows neon sz missing col rest (A, syms) = Some (A', syms') \<and>
     elim_inv n sz X missing col A' syms' \<and> A' ! col ! col = 1 \<and> outside missing syms syms' \<and>
     (\<forall>i < n. i \<noteq> col \<and> (i \<in> set rest \<or> A ! i ! col = 0) \<longrightarrow> A' ! i ! col = 0)"
  using assms
proof (induction rest arbitrary: A syms)
  case (Cons row rest)
  show ?case
  proof (cases "row = col \<or> A ! row ! col = 0")
    case True
    then show ?thesis using Cons.IH [of A syms] Cons.prems by (auto simp: Let_def)
  next
    case False
    then have row: "row < n" "row \<noteq> col" "A ! row ! col \<noteq> 0" using Cons.prems by auto
    let ?f = "A ! row ! col" and ?s = "syms[missing ! row := mul_add (A ! row ! col) (syms ! (missing ! row)) (syms ! (missing ! col))]"
    let ?A = "A[row := add_row col ?f (A ! col) (A ! row)]"
    note step = clear_row [OF Cons.prems(1-3) row(1,2)]
    have len: "length missing = n" "length A = n" "length (syms ! (missing ! row)) = sz" "length (syms ! (missing ! col)) = sz"
      using Cons.prems(1,2) row(1) gather_nth [of _ missing syms] by (auto simp: elim_inv_def solved_def)
    obtain A' syms' where *: "clear_rows neon sz missing col rest (?A, ?s) = Some (A', syms')"
      "elim_inv n sz X missing col A' syms'" "A' ! col ! col = 1" "outside missing ?s syms'"
      "\<forall>i < n. i \<noteq> col \<and> (i \<in> set rest \<or> ?A ! i ! col = 0) \<longrightarrow> A' ! i ! col = 0"
      using Cons.IH [OF step(1)] Cons.prems row by auto
    have "clear_rows neon sz missing col (row # rest) (A, syms) = Some (A', syms')"
      using row len *(1) by (simp add: Let_def MultiplyAdd_eq)
    moreover have "outside missing syms syms'" using *(4) outside_update [of row missing syms] len row by (blast intro: outside_trans)
    moreover have "\<forall>i < n. i \<noteq> col \<and> (i \<in> set (row # rest) \<or> A ! i ! col = 0) \<longrightarrow> A' ! i ! col = 0"
    proof (intro allI impI)
      fix i assume i: "i < n" "i \<noteq> col \<and> (i \<in> set (row # rest) \<or> A ! i ! col = 0)"
      then have "i \<in> set rest \<or> ?A ! i ! col = 0" using step(2) len row by (cases "i = row") auto
      with i *(5) show "A' ! i ! col = 0" by blast
    qed
    ultimately show ?thesis using *(2,3) by blast
  qed
qed auto

text \<open>One column: swap, scale, clear.\<close>

lemma scale_pivot:
  assumes inv: "elim_inv n sz X missing col A syms" and col: "col < n" "A ! col ! col \<noteq> 0"
  defines "s \<equiv> gf_inverse (A ! col ! col)"
  shows "elim_inv n sz X missing col (A[col := scale_row col s (A ! col)])
      (syms[missing ! col := map (gf_multiply s) (syms ! (missing ! col))])"
    "scale_row col s (A ! col) ! col = 1"
proof -
  have sv: "solved n sz X A (gather missing syms)" and m: "length missing = n" "distinct missing" "set missing \<subseteq> {..<length syms}"
    and r: "regular n A" "unit_cols n col A" using inv by (auto simp: elim_inv_def)
  have A: "length A = n" "length (A ! col) = n" using sv col by (auto simp: solved_def)
  have B: "length (syms ! (missing ! col)) = sz"
    "\<And>t. t < sz \<Longrightarrow> dot n (A ! col) (\<lambda>c. X ! c ! t) = syms ! (missing ! col) ! t"
    using sv col m gather_nth [of _ missing syms] by (auto simp: solved_def)
  have z: "\<And>j. j < col \<Longrightarrow> A ! col ! j = 0" using r(2) col by (auto simp: unit_cols_def)
  have inverse: "gf_multiply s (A ! col ! col) = 1" unfolding s_def using col(2) by (rule gf.inverse_left)
  then have "s \<noteq> 0" by auto
  have d: "dot n (scale_row col s (A ! col)) v = gf_multiply s (dot n (A ! col) v)" for v
    using A col z by (intro dot_scale) auto
  have "solved n sz X (A[col := scale_row col s (A ! col)])
      ((gather missing syms)[col := map (gf_multiply s) (syms ! (missing ! col))])"
    using sv col A B d by (intro solved_update) auto
  moreover have "regular n (A[col := scale_row col s (A ! col)])"
  proof (rule regular_update [OF r(1) A(1) col(1)])
    fix v assume *: "\<forall>j < n. dot n (A[col := scale_row col s (A ! col)] ! j) v = 0"
    then have "gf_multiply s (dot n (A ! col) v) = gf_multiply s 0" using col A d by force
    with \<open>s \<noteq> 0\<close> show "dot n (A ! col) v = 0" by (rule gf.cancel)
  qed
  moreover have "unit_cols n col (A[col := scale_row col s (A ! col)])"
    using r(2) A col by (intro unit_cols_update) (auto simp: nth_low_row)
  ultimately show "elim_inv n sz X missing col (A[col := scale_row col s (A ! col)])
      (syms[missing ! col := map (gf_multiply s) (syms ! (missing ! col))])"
    using m col unfolding elim_inv_def by (simp add: gather_update)
  show "scale_row col s (A ! col) ! col = 1"
    using A col inverse by (simp add: scale_row_def nth_append)
qed

lemma swap_pivot:
  assumes "elim_inv n sz X missing col A syms" "col \<le> p" "p < n"
  shows "elim_inv n sz X missing col (swap_at p col A) (swap_at (missing ! p) (missing ! col) syms)"
proof -
  have "length A = n" using assms(1) by (simp add: elim_inv_def solved_def)
  with assms show ?thesis unfolding elim_inv_def
    by (auto simp: gather_swap intro!: solved_swap regular_swap unit_cols_swap)
qed

lemma eliminate_ok:
  assumes "elim_inv n sz X missing col A syms" "col \<le> n"
  shows "\<exists>A' syms'. eliminate neon sz missing [col..<n] (A, syms) = Some (True, syms') \<and>
     elim_inv n sz X missing n A' syms' \<and> outside missing syms syms'"
  using assms
proof (induction "n - col" arbitrary: col A syms)
  case 0
  then show ?case by auto
next
  case (Suc d)
  then have col: "col < n" by simp
  then have upt: "[col..<n] = col # [Suc col..<n]" by (rule upt_conv_Cons)
  have n: "length missing = n" "length A = n" using Suc.prems(1) by (auto simp: elim_inv_def solved_def)
  define p where "p = find_pivot A n col col"
  obtain q where q: "col \<le> q" "q < n" "A ! q ! col \<noteq> 0"
    using regular_pivot [of n A col] Suc.prems col by (auto simp: elim_inv_def)
  have fp: "p \<le> n" "col \<le> p" "p < n \<longrightarrow> A ! p ! col \<noteq> 0" "\<forall>i. col \<le> i \<and> i < p \<longrightarrow> A ! i ! col = 0"
    using find_pivot_props [of col n A col] col unfolding p_def by auto
  then have p: "p < n" "A ! p ! col \<noteq> 0" using q by (metis le_neq_implies_less)+
  let ?A = "swap_at p col A" and ?s = "swap_at (missing ! p) (missing ! col) syms"
  have sw: "elim_inv n sz X missing col ?A ?s" by (rule swap_pivot [OF Suc.prems(1) fp(2) p(1)])
  have "?A ! col ! col \<noteq> 0" using p col n by (simp add: nth_swap_at)
  note sc = scale_pivot [OF sw col this]
  let ?v = "gf_inverse (?A ! col ! col)"
  let ?A1 = "?A[col := scale_row col ?v (?A ! col)]" and ?s1 = "?s[missing ! col := map (gf_multiply ?v) (?s ! (missing ! col))]"
  have "length (?s ! (missing ! col)) = sz"
    using sw col n gather_nth [of col missing ?s] by (auto simp: elim_inv_def solved_def)
  then have scale: "Scale neon sz ?v (?s ! (missing ! col)) = Some (map (gf_multiply ?v) (?s ! (missing ! col)))"
    by (rule Scale_eq)
  have "?A1 ! col ! col = 1" using sc(2) col n by simp
  then obtain A2 s2 where c: "clear_rows neon sz missing col [0..<n] (?A1, ?s1) = Some (A2, s2)"
      "elim_inv n sz X missing col A2 s2" "A2 ! col ! col = 1" "outside missing ?s1 s2"
      "\<forall>i < n. i \<noteq> col \<longrightarrow> A2 ! i ! col = 0"
    using clear_rows_ok [OF sc(1) col, of "[0..<n]" neon] by (auto simp: subset_eq)
  then have "elim_inv n sz X missing (Suc col) A2 s2"
    by (auto simp: elim_inv_def unit_cols_def less_Suc_eq)
  then obtain A' syms' where e: "eliminate neon sz missing [Suc col..<n] (A2, s2) = Some (True, syms')"
      "elim_inv n sz X missing n A' syms'" "outside missing s2 syms'"
    using Suc.hyps(1) [of "Suc col" A2 s2, OF _ _ Suc_leI [OF col]] Suc.hyps(2) by (metis Suc_diff_Suc col diff_Suc_1)
  have "eliminate neon sz missing [col..<n] (A, syms) = Some (True, syms')"
    unfolding upt using p(1) e(1) c(1) scale by (simp add: n Let_def flip: p_def)
  moreover have "outside missing syms syms'"
    using outside_swap [of p missing col syms] outside_update [of col missing ?s] c(4) e(3) n p(1) col
    by (blast intro: outside_trans)
  ultimately show ?case using e(2) by blast
qed

lemma elim_inv_solution:
  assumes "elim_inv n sz X missing n A syms" "length X = n" "\<And>i. i < n \<Longrightarrow> length (X ! i) = sz"
  shows "gather missing syms = X"
proof (rule nth_equalityI)
  have s: "solved n sz X A (gather missing syms)" "unit_cols n n A" using assms(1) by (simp_all add: elim_inv_def)
  then show len: "length (gather missing syms) = length X" using assms(2) by (simp add: solved_def)
  fix i assume "i < length (gather missing syms)"
  then have i: "i < n" using len assms(2) by simp
  show "gather missing syms ! i = X ! i"
  proof (rule nth_equalityI)
    show "length (gather missing syms ! i) = length (X ! i)" using s i assms(3) by (simp add: solved_def)
    fix t assume "t < length (gather missing syms ! i)"
    then have t: "t < sz" using s i by (simp add: solved_def)
    have "gf_multiply (A ! i ! c) (X ! c ! t) = (if c = i then X ! c ! t else 0)" if "c < n" for c
      using s(2) that i by (simp add: unit_cols_def)
    then have "dot n (A ! i) (\<lambda>c. X ! c ! t) = xsum (\<lambda>c. if c = i then X ! c ! t else 0) [0..<n]"
      unfolding dot_def by (intro xsum_cong) simp
    then have "dot n (A ! i) (\<lambda>c. X ! c ! t) = X ! i ! t" using i by (simp add: xsum_delta)
    then show "gather missing syms ! i ! t = X ! i ! t" using s i t by (simp add: solved_def)
  qed
qed

section \<open>Encoding and reduction as linear combinations\<close>

definition combine :: "nat \<Rightarrow> u8 list \<Rightarrow> symbols \<Rightarrow> bytes" where
  "combine sz row S = map (\<lambda>t. dot (length S) row (\<lambda>j. S ! j ! t)) [0..<sz]"

lemma length_combine [simp]: "length (combine sz row S) = sz" by (simp add: combine_def)

lemma add_cols_eq:
  assumes "length dst = sz" "\<And>c. c \<in> set cols \<Longrightarrow> length (syms ! c) = sz"
  shows "add_cols neon sz coeffs syms cols dst =
    Some (map (\<lambda>t. dst ! t XOR xsum (\<lambda>c. gf_multiply (coeffs ! c) (syms ! c ! t)) cols) [0..<sz])"
  using assms
proof (induction cols arbitrary: dst)
  case Nil
  then show ?case by (simp add: list_eq_iff_nth_eq)
next
  case (Cons c cols)
  then have "length (mul_add (coeffs ! c) dst (syms ! c)) = sz" by (simp add: mul_add_def)
  with Cons show ?case by (simp add: MultiplyAdd_eq) (simp add: mul_add_def xor.assoc)
qed

lemma encode_row_eq:
  assumes "S \<noteq> []" "\<And>i. i < length S \<Longrightarrow> length (S ! i) = sz"
  shows "encode_row neon sz S coeffs = Some (combine sz coeffs S)"
proof -
  have "[0..<length S] = 0 # [1..<length S]" using assms(1) by (simp add: upt_conv_Cons)
  moreover have "length (S ! 0) = sz" using assms by simp
  moreover have "add_cols neon sz coeffs S [1..<length S] (map (gf_multiply (coeffs ! 0)) (S ! 0)) =
      Some (map (\<lambda>t. map (gf_multiply (coeffs ! 0)) (S ! 0) ! t XOR
        xsum (\<lambda>c. gf_multiply (coeffs ! c) (S ! c ! t)) [1..<length S]) [0..<sz])"
    using assms by (intro add_cols_eq) auto
  ultimately show ?thesis by (simp add: encode_row_def Scale_eq combine_def dot_def)
qed

lemma those_map_Some: "those (map (\<lambda>x. Some (f x)) xs) = Some (map f xs)"
  by (induction xs) simp_all

lemma EncodeSmallRs_eq:
  assumes "Matrix ofc cache (length S) r = Some (Some rs, cache')" "S \<noteq> []" "\<And>i. i < length S \<Longrightarrow> length (S ! i) = sz"
  shows "EncodeSmallRs ofc neon cache S r = Some (Some (map (\<lambda>row. combine sz (rs ! row) S) [0..<r]), cache')"
proof -
  have "length (hd S) = sz" using assms(2) assms(3) [of 0] by (simp add: hd_conv_nth)
  then show ?thesis using assms by (simp add: EncodeSmallRs_def encode_row_eq those_map_Some)
qed

text \<open>The code word of a block: the sources, then the repair symbols.\<close>

definition code_sym :: "nat \<Rightarrow> rows \<Rightarrow> symbols \<Rightarrow> nat \<Rightarrow> bytes" where
  "code_sym sz rs S i = (if i < length S then S ! i else combine sz (rs ! (i - length S)) S)"

definition known :: "nat \<Rightarrow> rows \<Rightarrow> symbols \<Rightarrow> bool list \<Rightarrow> symbols \<Rightarrow> bool" where
  "known sz rs S seen syms \<longleftrightarrow> length syms = length seen \<and>
     (\<forall>i < length seen. length (syms ! i) = sz \<and> (seen ! i \<longrightarrow> syms ! i = code_sym sz rs S i))"

definition rest_sum :: "nat \<Rightarrow> rows \<Rightarrow> symbols \<Rightarrow> bool list \<Rightarrow> nat \<Rightarrow> bytes" where
  "rest_sum sz rs S seen rep =
     map (\<lambda>t. xsum (\<lambda>m. gf_multiply (rs ! rep ! m) (S ! m ! t)) (filter (\<lambda>i. \<not> seen ! i) [0..<length S])) [0..<sz]"

lemma reduce_row_eq:
  assumes kn: "known sz rs S seen syms" and k: "length S \<le> length seen" and t: "target < length seen" "\<not> seen ! target"
    and r: "length S + rep < length seen" "seen ! (length S + rep)"
  shows "reduce_row neon sz (length S) seen (rs ! rep) target (length S + rep) syms = Some (syms[target := rest_sum sz rs S seen rep])"
proof -
  let ?k = "length S" let ?cols = "filter (\<lambda>c. seen ! c) [0..<?k]"
  have len: "\<And>i. i < length seen \<Longrightarrow> length (syms ! i) = sz" using kn by (simp add: known_def)
  have rep: "syms ! (?k + rep) = combine sz (rs ! rep) S" using kn r by (simp add: known_def code_sym_def)
  have "xsum (\<lambda>c. gf_multiply (rs ! rep ! c) (syms ! c ! t)) ?cols = xsum (\<lambda>c. gf_multiply (rs ! rep ! c) (S ! c ! t)) ?cols" for t
    using kn k by (intro xsum_cong) (auto simp: known_def code_sym_def)
  moreover have "dot ?k (rs ! rep) (\<lambda>j. S ! j ! t) XOR xsum (\<lambda>c. gf_multiply (rs ! rep ! c) (S ! c ! t)) ?cols =
      xsum (\<lambda>m. gf_multiply (rs ! rep ! m) (S ! m ! t)) (filter (\<lambda>i. \<not> seen ! i) [0..<?k])" for t
    unfolding dot_def xsum_filter [of _ "[0..<?k]" "\<lambda>c. seen ! c"] by (simp add: ac_simps)
  moreover have "add_cols neon sz (rs ! rep) syms ?cols (combine sz (rs ! rep) S) =
      Some (map (\<lambda>t. combine sz (rs ! rep) S ! t XOR xsum (\<lambda>c. gf_multiply (rs ! rep ! c) (syms ! c ! t)) ?cols) [0..<sz])"
    using len k by (intro add_cols_eq) auto
  ultimately have "add_cols neon sz (rs ! rep) syms ?cols (combine sz (rs ! rep) S) = Some (rest_sum sz rs S seen rep)"
    by (simp add: rest_sum_def) (simp add: combine_def)
  then show ?thesis using len t r rep by (simp add: reduce_row_def)
qed

lemma known_update: "known sz rs S seen syms \<Longrightarrow> \<not> seen ! i \<Longrightarrow> length b = sz \<Longrightarrow> known sz rs S seen (syms[i := b])"
  unfolding known_def by (metis length_list_update nth_list_update_eq nth_list_update_neq)

lemma reduce_rows_ok:
  assumes "known sz rs S seen syms" "length S \<le> length seen" "distinct (map fst eqs)"
    "\<And>t rep. (t, rep) \<in> set eqs \<Longrightarrow> t < length seen \<and> \<not> seen ! t \<and> length S + rep < length seen \<and> seen ! (length S + rep)"
  shows "\<exists>syms'. reduce_rows neon sz (length S) seen rs eqs syms = Some syms' \<and> known sz rs S seen syms' \<and>
     (\<forall>(t, rep) \<in> set eqs. syms' ! t = rest_sum sz rs S seen rep) \<and> outside (map fst eqs) syms syms'"
  using assms
proof (induction eqs arbitrary: syms)
  case (Cons eq eqs)
  obtain t rep where eq: "eq = (t, rep)" by (cases eq)
  let ?s = "syms[t := rest_sum sz rs S seen rep]"
  have p: "t < length seen" "\<not> seen ! t" "length S + rep < length seen" "seen ! (length S + rep)"
    using Cons.prems(4) [of t rep] eq by auto
  have step: "reduce_row neon sz (length S) seen (rs ! rep) t (length S + rep) syms = Some ?s"
    using Cons.prems(1,2) p by (intro reduce_row_eq)
  have "known sz rs S seen ?s" using Cons.prems(1) p(2) by (intro known_update) (simp_all add: rest_sum_def)
  then obtain syms' where *: "reduce_rows neon sz (length S) seen rs eqs ?s = Some syms'" "known sz rs S seen syms'"
    "\<forall>(t, rep) \<in> set eqs. syms' ! t = rest_sum sz rs S seen rep" "outside (map fst eqs) ?s syms'"
    using Cons.IH [of ?s] Cons.prems eq by auto
  have "t < length syms" using Cons.prems(1) p(1) by (simp add: known_def)
  moreover have "t \<notin> set (map fst eqs)" using Cons.prems(3) eq by simp
  ultimately have "syms' ! t = rest_sum sz rs S seen rep" using *(4) by (simp add: outside_def del: set_map)
  moreover have "outside (map fst (eq # eqs)) syms syms'" using *(4) eq by (auto simp: outside_def)
  ultimately show ?case using * step eq by auto
qed simp

section \<open>The decoder restores the sources\<close>

text \<open>
  The code is maximum distance separable: any \<open>k\<close> of the \<open>k + r\<close> values determine the \<open>k\<close> source values.
\<close>

definition code_value :: "nat \<Rightarrow> rows \<Rightarrow> u8 list \<Rightarrow> nat \<Rightarrow> u8" where
  "code_value k rs x i = (if i < k then x ! i else dot k (rs ! (i - k)) (\<lambda>j. x ! j))"

definition mds :: "nat \<Rightarrow> nat \<Rightarrow> rows \<Rightarrow> bool" where
  "mds k r rs \<longleftrightarrow> (\<forall>x y. length x = k \<longrightarrow> length y = k \<longrightarrow>
     k \<le> card {i. i < k + r \<and> code_value k rs x i = code_value k rs y i} \<longrightarrow> x = y)"

lemma mds_regular:
  assumes "mds k r rs" "missing = filter P [0..<k]" "distinct ids" "set ids \<subseteq> {..<r}" "length ids = length missing"
  shows "regular (length missing) (map (\<lambda>rep. map (\<lambda>m. rs ! rep ! m) missing) ids)"
  unfolding regular_def
proof (intro allI impI)
  let ?n = "length missing"
  fix v c assume zero: "\<forall>i < ?n. dot ?n (map (\<lambda>rep. map (\<lambda>m. rs ! rep ! m) missing) ids ! i) v = 0" and c: "c < ?n"
  define val where "val j = (case map_of (zip missing (map v [0..<?n])) j of None \<Rightarrow> 0 | Some b \<Rightarrow> b)" for j
  define x where "x = map val [0..<k]"
  have dist: "distinct missing" using assms(2) by simp
  have at: "val (missing ! i) = v i" if "i < ?n" for i
    using map_of_zip_nth [of missing "map v [0..<?n]" i] dist that by (simp add: val_def)
  have off: "val j = 0" if "j \<notin> set missing" for j
    using that by (auto simp: val_def split: option.split dest: map_of_SomeD set_zip_leftD)
  have rows: "code_value k rs x (k + rep) = 0" if "rep \<in> set ids" for rep
  proof -
    obtain i where i: "i < ?n" "rep = ids ! i" using \<open>rep \<in> set ids\<close> assms(5) by (metis in_set_conv_nth)
    have "code_value k rs x (k + rep) = xsum (\<lambda>j. gf_multiply (rs ! rep ! j) (val j)) [0..<k]"
      unfolding code_value_def dot_def x_def by (auto intro: xsum_cong)
    also have "\<dots> = xsum (\<lambda>j. gf_multiply (rs ! rep ! j) (val j)) missing XOR
        xsum (\<lambda>j. gf_multiply (rs ! rep ! j) (val j)) (filter (\<lambda>j. \<not> P j) [0..<k])"
      unfolding assms(2) by (rule xsum_filter)
    also have "xsum (\<lambda>j. gf_multiply (rs ! rep ! j) (val j)) (filter (\<lambda>j. \<not> P j) [0..<k]) = 0"
      by (rule xsum_zero) (use assms(2) off in auto)
    also have "xsum (\<lambda>j. gf_multiply (rs ! rep ! j) (val j)) missing =
        xsum (\<lambda>c. gf_multiply (rs ! rep ! (missing ! c)) (val (missing ! c))) [0..<?n]"
      by (subst (1) map_nth [symmetric]) (rule xsum_reindex)
    also have "\<dots> = dot ?n (map (\<lambda>rep. map (\<lambda>m. rs ! rep ! m) missing) ids ! i) v"
      unfolding dot_def using i assms(5) at by (intro xsum_cong) simp
    finally show ?thesis using zero i by simp
  qed
  let ?E = "{i. i < k + r \<and> code_value k rs x i = code_value k rs (replicate k 0) i}"
  have zero0: "code_value k rs (replicate k 0) i = 0" for i
    by (auto simp: code_value_def dot_def intro!: xsum_zero)
  have "({..<k} - set missing) \<union> (\<lambda>rep. k + rep) ` set ids \<subseteq> ?E"
    using rows zero0 off assms(4) by (auto simp: code_value_def x_def)
  then have "card (({..<k} - set missing) \<union> (\<lambda>rep. k + rep) ` set ids) \<le> card ?E"
    by (intro card_mono) auto
  moreover have "card (({..<k} - set missing) \<union> (\<lambda>rep. k + rep) ` set ids) = (k - ?n) + ?n"
  proof (subst card_Un_disjoint)
    have "set missing \<subseteq> {..<k}" using assms(2) by auto
    then show "card ({..<k} - set missing) + card ((\<lambda>rep. k + rep) ` set ids) = k - ?n + ?n"
      using dist assms(3,5) by (simp add: card_Diff_subset distinct_card card_image)
  qed auto
  moreover have "?n \<le> k" using assms(2) length_filter_le [of P "[0..<k]"] by simp
  ultimately have "x = replicate k 0" using assms(1) unfolding mds_def by (simp add: x_def)
  moreover have "missing ! c < k" using nth_mem [OF c] assms(2) by auto
  moreover have "x ! (missing ! c) = val (missing ! c)" if "missing ! c < k" using that by (simp add: x_def)
  ultimately have "val (missing ! c) = 0" by simp
  then show "v c = 0" using at c by simp
qed

lemma scan_missing_eq:
  "length acc \<le> r \<Longrightarrow> scan_missing r seen js acc =
     (if length acc + length (filter (\<lambda>i. \<not> seen ! i) js) \<le> r then Some (acc @ filter (\<lambda>i. \<not> seen ! i) js) else None)"
  by (induction js arbitrary: acc) auto

lemma scan_repairs_eq:
  "scan_repairs k seen cnt js acc = acc @ take (cnt - length acc) (filter (\<lambda>i. seen ! (k + i)) js)"
  by (induction js arbitrary: acc) (auto simp: take_Cons' Suc_diff_Suc)

lemma filter_shift: "filter P [k..<k + r] = map (\<lambda>i. k + i) (filter (\<lambda>i. P (k + i)) [0..<r])"
proof -
  have "[k..<k + r] = map (\<lambda>i. k + i) [0..<r]" using map_add_upt [of k r] by (simp add: add.commute)
  then show ?thesis by (simp add: filter_map comp_def)
qed

lemma enough_repairs:
  assumes "k \<le> length (filter (\<lambda>i. seen ! i) [0..<k + r])"
  shows "length (filter (\<lambda>i. \<not> seen ! i) [0..<k]) \<le> length (filter (\<lambda>i. seen ! (k + i)) [0..<r])"
proof -
  have "[0..<k + r] = [0..<k] @ [k..<k + r]" by (rule upt_add_eq_append) simp
  then have "length (filter (\<lambda>i. seen ! i) [0..<k + r]) =
      length (filter (\<lambda>i. seen ! i) [0..<k]) + length (filter (\<lambda>i. seen ! (k + i)) [0..<r])"
    by (simp only: filter_append length_append filter_shift length_map)
  then show ?thesis using assms sum_length_filter_compl [of "\<lambda>i. seen ! i" "[0..<k]"] by simp
qed

lemma decode_small_rs:
  assumes block: "length S = k" "\<And>i. i < k \<Longrightarrow> length (S ! i) = sz"
    and sup: "r \<le> kRsSmallMaxRepairs" and seen: "length seen = k + r" and kn: "known sz rs S seen syms"
    and enough: "k \<le> length (filter (\<lambda>i. seen ! i) [0..<k + r])"
    and matrix: "Matrix ofc cache k r = Some (Some rs, cache')" and mds: "mds k r rs"
  shows "\<exists>syms' c'. DecodeSmallRs ofc neon cache k r sz seen syms = Some (True, syms', c') \<and>
    length syms' = k + r \<and> (\<forall>i < k. syms' ! i = S ! i) \<and> (\<forall>i. seen ! i \<or> k \<le> i \<longrightarrow> syms' ! i = syms ! i) \<and>
    c' \<in> {cache, cache'}"
proof -
  define missing where "missing = filter (\<lambda>i. \<not> seen ! i) [0..<k]"
  define ids where "ids = take (length missing) (filter (\<lambda>i. seen ! (k + i)) [0..<r])"
  have len: "length syms = k + r" using kn seen by (simp add: known_def)
  have src: "syms ! i = S ! i" if "i < k" "seen ! i" for i using kn that block(1) seen by (simp add: known_def code_sym_def)
  have le: "length missing \<le> length (filter (\<lambda>i. seen ! (k + i)) [0..<r])"
    unfolding missing_def by (rule enough_repairs [OF enough])
  then have ids: "length ids = length missing" "distinct ids" "set ids \<subseteq> {..<r}" "\<And>i. i \<in> set ids \<Longrightarrow> seen ! (k + i)"
    unfolding ids_def by (auto dest: in_set_takeD)
  have "length missing \<le> r" using le length_filter_le [of "\<lambda>i. seen ! (k + i)" "[0..<r]"] by simp
  then have scan: "scan_missing r seen [0..<k] [] = Some missing" "scan_repairs k seen (length missing) [0..<r] [] = ids"
    by (simp_all add: scan_missing_eq scan_repairs_eq missing_def ids_def)
  have miss: "distinct missing" "\<And>i. i \<in> set missing \<Longrightarrow> i < k \<and> \<not> seen ! i" by (auto simp: missing_def)
  show ?thesis
  proof (cases "missing = []")
    case True
    then have "\<forall>i < k. seen ! i" unfolding missing_def by (simp add: filter_empty_conv)
    then show ?thesis using True scan len seen sup src by (simp add: DecodeSmallRs_def)
  next
    case False
    let ?A = "map (\<lambda>rep. map (\<lambda>m. rs ! rep ! m) missing) ids" and ?n = "length missing"
    define X where "X = map (\<lambda>m. S ! m) missing"
    have fst: "map fst (zip missing ids) = missing" using ids(1) by simp
    obtain s1 where s1: "reduce_rows neon sz k seen rs (zip missing ids) syms = Some s1" "known sz rs S seen s1"
        "\<forall>(t, rep) \<in> set (zip missing ids). s1 ! t = rest_sum sz rs S seen rep" "outside missing syms s1"
    proof -
      have "t < length seen \<and> \<not> seen ! t \<and> length S + rep < length seen \<and> seen ! (length S + rep)"
        if "(t, rep) \<in> set (zip missing ids)" for t rep
        using set_zip_leftD [OF that] set_zip_rightD [OF that] miss(2) [of t] ids(3) ids(4) [of rep] block(1) seen by auto
      then show ?thesis
        using reduce_rows_ok [OF kn, of "zip missing ids" neon] fst miss(1) block(1) seen that by fastforce
    qed
    have rhs: "gather missing s1 ! i = rest_sum sz rs S seen (ids ! i)" if "i < ?n" for i
    proof -
      have "(missing ! i, ids ! i) \<in> set (zip missing ids)" using that ids(1) by (metis in_set_zip fst_conv snd_conv)
      then show ?thesis using s1(3) that by (auto simp: gather_nth)
    qed
    have "solved ?n sz X ?A (gather missing s1)"
      unfolding solved_def
    proof (intro conjI allI impI)
      fix i t assume i: "i < ?n" and t: "t < sz"
      have "dot ?n (?A ! i) (\<lambda>c. X ! c ! t) = xsum (\<lambda>c. gf_multiply (rs ! (ids ! i) ! (missing ! c)) (S ! (missing ! c) ! t)) [0..<?n]"
        unfolding dot_def using i ids(1) by (intro xsum_cong) (simp add: X_def)
      also have "\<dots> = xsum (\<lambda>m. gf_multiply (rs ! (ids ! i) ! m) (S ! m ! t)) missing"
        by (subst (2) map_nth [symmetric]) (simp only: xsum_reindex)
      finally show "dot ?n (?A ! i) (\<lambda>c. X ! c ! t) = gather missing s1 ! i ! t"
        using rhs [OF i] t block(1) by (simp add: rest_sum_def missing_def)
    qed (use ids rhs in \<open>simp_all add: gather_def rest_sum_def\<close>)
    moreover have "regular ?n ?A" using mds_regular [OF mds missing_def ids(2,3,1)] .
    moreover have s1_len: "length s1 = k + r" using s1(2) seen by (simp add: known_def)
    ultimately have inv: "elim_inv ?n sz X missing 0 ?A s1"
      using miss by (force simp: elim_inv_def unit_cols_def)
    then obtain A2 s2 where s2: "eliminate neon sz missing [0..<?n] (?A, s1) = Some (True, s2)"
        "elim_inv ?n sz X missing ?n A2 s2" "outside missing s1 s2"
      using eliminate_ok [OF inv, of neon] by auto
    have "gather missing s2 = X"
      by (rule elim_inv_solution [OF s2(2)]) (use miss(2) block nth_mem [of _ missing] in \<open>auto simp: X_def\<close>)
    then have got: "s2 ! m = S ! m" if "m \<in> set missing" for m
      using that by (auto simp: gather_def X_def)
    have fr: "outside missing syms s2" using s1(4) s2(3) by (rule outside_trans)
    have keep: "s2 ! i = syms ! i" if "seen ! i \<or> k \<le> i" for i using fr miss(2) [of i] that unfolding outside_def by (meson leD)
    have "s2 ! i = S ! i" if "i < k" for i
      using that got [of i] keep [of i] src [of i] by (cases "seen ! i") (auto simp: missing_def)
    moreover obtain m ms where "missing = m # ms" using False by (cases missing) auto
    then have "DecodeSmallRs ofc neon cache k r sz seen syms = Some (True, s2, cache')"
      using scan ids(1) matrix s1(1) s2(1) sup seen len by (simp add: DecodeSmallRs_def Let_def)
    ultimately show ?thesis using keep s1_len s2(3) by (auto simp: outside_def)
  qed
qed

section \<open>Memory safety for arbitrary symbols\<close>

definition sized :: "nat \<Rightarrow> nat \<Rightarrow> symbols \<Rightarrow> bool" where
  "sized sz n syms \<longleftrightarrow> length syms = n \<and> (\<forall>i < n. length (syms ! i) = sz)"

lemma sized_nth: "sized sz n syms \<Longrightarrow> i < n \<Longrightarrow> length (syms ! i) = sz"
  by (simp add: sized_def)

lemma sized_update: "sized sz n syms \<Longrightarrow> length b = sz \<Longrightarrow> sized sz n (syms[i := b])"
  unfolding sized_def by (metis length_list_update nth_list_update_eq nth_list_update_neq)

lemma sized_swap: "sized sz n syms \<Longrightarrow> i < n \<Longrightarrow> j < n \<Longrightarrow> sized sz n (swap_at i j syms)"
  by (auto simp: swap_at_def intro!: sized_update sized_nth)

lemma length_mul_add [simp]: "length (mul_add c d s) = min (length d) (length s)"
  by (simp add: mul_add_def)

lemma reduce_rows_safe:
  assumes "sized sz n syms" "k \<le> n" "\<And>t rep. (t, rep) \<in> set eqs \<Longrightarrow> t < n \<and> k + rep < n"
  shows "\<exists>syms'. reduce_rows neon sz k seen rs eqs syms = Some syms' \<and> sized sz n syms'"
  using assms
proof (induction eqs arbitrary: syms)
  case (Cons e eqs)
  obtain t rep where e: "e = (t, rep)" by (cases e)
  have b: "t < n" "k + rep < n" using Cons.prems(3) e by auto
  have "\<exists>b. reduce_row neon sz k seen (rs ! rep) t (k + rep) syms = Some (syms[t := b]) \<and> length b = sz"
    using b Cons.prems(1,2) unfolding reduce_row_def by (subst add_cols_eq) (auto simp: sized_nth)
  then obtain b where b: "reduce_row neon sz k seen (rs ! rep) t (k + rep) syms = Some (syms[t := b])" "length b = sz" by blast
  have "\<exists>syms'. reduce_rows neon sz k seen rs eqs (syms[t := b]) = Some syms' \<and> sized sz n syms'"
    using Cons.prems b(2) by (intro Cons.IH sized_update) (auto simp: e)
  then show ?case using b(1) e by simp
qed simp

lemma clear_rows_safe:
  assumes "sized sz n syms" "set missing \<subseteq> {..<n}" "col < length missing" "set rest \<subseteq> {..<length missing}"
  shows "\<exists>A' syms'. clear_rows neon sz missing col rest (A, syms) = Some (A', syms') \<and> sized sz n syms'"
  using assms(1,4)
proof (induction rest arbitrary: A syms)
  case (Cons row rest)
  have m: "missing ! i < n" if "i < length missing" for i using assms(2) that nth_mem by blast
  then have "length (syms ! (missing ! row)) = sz" "length (syms ! (missing ! col)) = sz"
    using Cons.prems assms(3) sized_nth [OF Cons.prems(1)] by auto
  then show ?case
    using Cons.IH Cons.prems by (auto simp: Let_def MultiplyAdd_eq sized_update)
qed simp

lemma eliminate_safe:
  assumes "sized sz n syms" "set missing \<subseteq> {..<n}" "set cols \<subseteq> {..<length missing}"
  shows "\<exists>ok syms'. eliminate neon sz missing cols (A, syms) = Some (ok, syms') \<and> sized sz n syms'"
  using assms(1,3)
proof (induction cols arbitrary: A syms)
  case (Cons col cols)
  let ?p = "find_pivot A (length missing) col col"
  have m: "missing ! i < n" if "i < length missing" for i using assms(2) that nth_mem by blast
  have p: "?p \<le> length missing" using find_pivot_props [of col "length missing" A col] Cons.prems(2) by simp
  show ?case
  proof (cases "?p = length missing")
    case False
    with p have p: "?p < length missing" by simp
    let ?s = "swap_at (missing ! ?p) (missing ! col) syms" and ?A = "swap_at ?p col A"
    have col: "col < length missing" using Cons.prems(2) by simp
    have s: "sized sz n ?s" using sized_swap [OF Cons.prems(1)] m p col by blast
    let ?v = "gf_inverse (?A ! col ! col)"
    have sc: "Scale neon sz ?v (?s ! (missing ! col)) = Some (map (gf_multiply ?v) (?s ! (missing ! col)))"
      using sized_nth [OF s m [OF col]] by (rule Scale_eq)
    have "sized sz n (?s[missing ! col := map (gf_multiply ?v) (?s ! (missing ! col))])"
      using s sized_nth [OF s m [OF col]] by (simp add: sized_update)
    then obtain A' syms' where c: "clear_rows neon sz missing col [0..<length missing]
        (?A[col := scale_row col ?v (?A ! col)], ?s[missing ! col := map (gf_multiply ?v) (?s ! (missing ! col))]) = Some (A', syms')"
        "sized sz n syms'"
      using clear_rows_safe [OF _ assms(2) col, of sz _ "[0..<length missing]" neon] by (metis atLeast0LessThan order_refl set_upt)
    then show ?thesis using False sc Cons.IH [OF c(2), of A'] Cons.prems(2) by (simp add: Let_def)
  qed (use Cons.prems in \<open>auto simp: Let_def\<close>)
qed auto

lemma Matrix_total: "SupportsSmallRs k r \<Longrightarrow> \<exists>m cache'. Matrix ofc cache k r = Some (m, cache')"
  by (auto simp: Matrix_def SupportsSmallRs_def split: option.split)

lemma DecodeSmallRs_safe:
  assumes sup: "SupportsSmallRs k r" and seen: "length seen = k + r" and syms: "sized sz (k + r) syms"
  shows "\<exists>ok syms' cache'. DecodeSmallRs ofc neon cache k r sz seen syms = Some (ok, syms', cache') \<and> sized sz (k + r) syms'"
proof -
  define ms where "ms = filter (\<lambda>i. \<not> seen ! i) [0..<k]"
  define ids where "ids = scan_repairs k seen (length ms) [0..<r] []"
  have r: "r \<le> kRsSmallMaxRepairs" using sup by (simp add: SupportsSmallRs_def)
  have len: "length syms = k + r" using syms by (simp add: sized_def)
  have scan: "scan_missing r seen [0..<k] [] = (if length ms \<le> r then Some ms else None)"
    by (simp add: scan_missing_eq ms_def)
  show ?thesis
  proof (cases "length ms \<le> r \<and> ms \<noteq> [] \<and> length ms \<le> length ids")
    case False
    then show ?thesis
      using syms len seen r scan unfolding DecodeSmallRs_def by (auto simp: Let_def ids_def split: list.split)
  next
    case True
    then obtain m ms' where ms: "ms = m # ms'" by (cases ms) auto
    obtain mat cache' where mat: "Matrix ofc cache k r = Some (mat, cache')" using Matrix_total [OF sup] by blast
    have id: "set ids \<subseteq> {..<r}" unfolding ids_def scan_repairs_eq by (auto dest: in_set_takeD)
    have m: "set ms \<subseteq> {..<k + r}" by (auto simp: ms_def)
    show ?thesis
    proof (cases mat)
      case None
      then show ?thesis using True ms syms len seen r scan mat unfolding DecodeSmallRs_def by (auto simp: Let_def ids_def)
    next
      case (Some rs)
      obtain s1 where s1: "reduce_rows neon sz k seen rs (zip ms ids) syms = Some s1" "sized sz (k + r) s1"
        using reduce_rows_safe [OF syms, of k "zip ms ids" neon seen rs] id m
        by (metis add_less_cancel_left le_add1 lessThan_iff set_zip_leftD set_zip_rightD subsetD)
      obtain ok s2 where s2: "eliminate neon sz ms [0..<length ms] (map (\<lambda>rep. map (\<lambda>m. rs ! rep ! m) ms) ids, s1) = Some (ok, s2)"
          "sized sz (k + r) s2"
        using eliminate_safe [OF s1(2) m, of "[0..<length ms]" neon] by (metis atLeast0LessThan order_refl set_upt)
      show ?thesis
        using True ms Some len seen r scan mat s1 s2 ids_def [symmetric] unfolding DecodeSmallRs_def by (simp add: Let_def)
    qed
  qed
qed

text \<open>
  C12: On either path, vectorised or scalar, whatever the length of the symbols (block sizes 16, 8 and 1
  included), \<open>MultiplyAdd\<close> and \<open>Scale\<close> compute the pointwise operation over GF(256) and touch no byte outside
  the symbols.
\<close>

theorem block_loops_pointwise:
  assumes "length dst = sz" "length src = sz"
  shows "MultiplyAdd neon sz c dst src = Some (map2 (\<lambda>d s. d XOR gf_multiply c s) dst src) \<and>
    Scale neon sz c dst = Some (map (gf_multiply c) dst)"
  using MultiplyAdd_eq [OF assms] Scale_eq [OF assms(1)] by (simp_all add: mul_add_def)

theorem block_loops_pointwise_witness:
  "MultiplyAdd True 3 2 [1, 2, 3] [4, 128, 6] = Some [9, 31, 15] \<and> Scale True 2 2 [64, 128] = Some [128, 29]"
proof -
  have "map2 (\<lambda>d s. d XOR gf_multiply 2 s) [1, 2, 3] [4, 128, 6] = [9, 31, 15]" "map (gf_multiply 2) [64, 128] = [128, 29]"
    by code_simp+
  then show ?thesis
    using block_loops_pointwise [of "[1, 2, 3]" 3 "[4, 128, 6]" True 2] block_loops_pointwise [of "[64, 128]" 2 "[0, 0]" True 2]
    by simp
qed

end
