(* ===== verification/Fec_Codec.thy ===== *)
theory Fec_Codec
  imports Rs_Small
begin

text \<open>
  The block codec that the network code uses: \<open>FecEncoder\<close> (\<open>fec/fec_encoder.h\<close>, \<open>fec/fec_encoder.cpp\<close>) and
  \<open>FecDecoder\<close> (\<open>fec/fec_decoder.h\<close>, \<open>fec/fec_decoder.cpp\<close>). Small blocks use the fast path of \<open>Rs_Small\<close>, others an
  OpenFEC session, which is the parameter \<open>openfec\<close>; a decoding session is the list of symbols fed to it. The
  cache of generator rows is process-wide state and is passed through the operations.

  The lemmas show that a block that is encoded and of which any \<open>k\<close> distinct symbols arrive, in any order and
  with duplicates, is decoded to its sources, and that the decoder accepts no symbol that contradicts a
  symbol it already has.
\<close>

section \<open>Encoder\<close>

definition kMaxSymbols :: nat where "kMaxSymbols = 255"
definition kMaxSymbolSize :: nat where "kMaxSymbolSize = 1400"

definition LegacyTotal :: "nat \<Rightarrow> nat" where "LegacyTotal k = k * 1000 div 667"

definition LegacyCount :: "nat \<Rightarrow> nat" where
  "LegacyCount len =
     (if len = 0 \<or> kMaxSymbols * kMaxSymbolSize < len then 0
      else let k = (len + kMaxSymbolSize - 1) div kMaxSymbolSize in if LegacyTotal k \<le> kMaxSymbols then k else 0)"

text \<open>The inner \<^const>\<open>None\<close> is the result \<open>false\<close>, with the output vector cleared.\<close>

definition EncodeSymbols :: "openfec \<Rightarrow> bool \<Rightarrow> rs_cache \<Rightarrow> symbols \<Rightarrow> nat \<Rightarrow> (symbols option \<times> rs_cache) option" where
  "EncodeSymbols ofc neon cache sources repair_count =
     (let k = length sources in
      if k = 0 \<or> kMaxSymbols < k \<or> kMaxSymbols - k < repair_count then Some (None, cache)
      else let sz = length (hd sources) in
        if sz = 0 \<or> kMaxSymbolSize < sz then Some (None, cache)
        else if \<not> list_all (\<lambda>s. length s = sz) sources then Some (None, cache)
        else if repair_count = 0 then Some (Some [], cache)
        else if SupportsSmallRs k repair_count then EncodeSmallRs ofc neon cache sources repair_count
        else if \<not> of_open ofc k repair_count sz then Some (None, cache)
        else Some (those (map (\<lambda>i. of_build ofc k repair_count sources (k + i)) [0..<repair_count]), cache))"

text \<open>The legacy API: the data cut into zero-padded symbols, followed by the repair symbols.\<close>

definition legacy_sources :: "nat \<Rightarrow> bytes \<Rightarrow> symbols" where
  "legacy_sources k data =
     map (\<lambda>i. let part = take kMaxSymbolSize (drop (i * kMaxSymbolSize) data)
              in part @ replicate (kMaxSymbolSize - length part) 0) [0..<k]"

definition Encode_legacy :: "openfec \<Rightarrow> bool \<Rightarrow> rs_cache \<Rightarrow> bytes option \<Rightarrow> (symbols option \<times> rs_cache) option" where
  "Encode_legacy ofc neon cache data =
     (case data of None \<Rightarrow> Some (None, cache)
      | Some d \<Rightarrow>
          let k = LegacyCount (length d) in
          if k = 0 then Some (None, cache)
          else let sources = legacy_sources k d in
            do { (repairs, cache) \<leftarrow> EncodeSymbols ofc neon cache sources (LegacyTotal k - k);
                 Some (map_option (\<lambda>r. sources @ r) repairs, cache) })"

definition GetFecPacketsParams :: "nat \<Rightarrow> u8 \<times> u8 \<times> u32" where
  "GetFecPacketsParams len =
     (let k = LegacyCount len in
      (of_nat (LegacyTotal k), of_nat k, if k \<noteq> 0 then of_nat (len - (k - 1) * kMaxSymbolSize) else 0))"

section \<open>Decoder\<close>

datatype fec_result = FecAccepted | FecDuplicate | FecComplete | FecInvalid | FecError

record fec_state =
  fs_session :: "(nat \<times> bytes) list option"
  fs_k :: nat
  fs_size :: nat
  fs_received :: nat
  fs_repairs :: nat
  fs_small :: bool
  fs_complete :: bool
  fs_failed :: bool
  fs_symbols :: symbols
  fs_seen :: "bool list"

text \<open>A decoder is the owned state pointer; \<^const>\<open>None\<close> is the null pointer.\<close>

type_synonym fec_decoder = "fec_state option"

definition Decoder_Reset :: "openfec \<Rightarrow> nat \<Rightarrow> nat \<Rightarrow> nat \<Rightarrow> fec_decoder \<Rightarrow> bool \<times> fec_decoder" where
  "Decoder_Reset ofc k repairs sz st =
     (if k = 0 \<or> kMaxSymbols < k \<or> kMaxSymbols - k < repairs \<or> sz = 0 \<or> kMaxSymbolSize < sz then (False, None)
      else
        let small = SupportsSmallRs k repairs;
            fresh = \<lparr>fs_session = None, fs_k = k, fs_size = sz, fs_received = 0, fs_repairs = repairs, fs_small = small,
                     fs_complete = False, fs_failed = False, fs_symbols = replicate (k + repairs) (replicate sz 0),
                     fs_seen = replicate (k + repairs) False\<rparr>
        in if repairs \<noteq> 0 \<and> \<not> small
           then (if of_open ofc k repairs sz then (True, Some (fresh\<lparr>fs_session := Some []\<rparr>)) else (False, None))
           else (True, Some fresh))"

text \<open>The source symbols that OpenFEC writes into the buffers handed out by \<open>State::Allocate\<close>.\<close>

definition write_back :: "nat \<Rightarrow> nat \<Rightarrow> (nat \<times> bytes) list \<Rightarrow> symbols \<Rightarrow> symbols" where
  "write_back k sz ws syms = foldl (\<lambda>s (i, b). if i < k \<and> length b = sz then s[i := b] else s) syms ws"

definition add_result :: "fec_state \<Rightarrow> fec_result" where
  "add_result s = (if fs_complete s then FecComplete else FecAccepted)"

definition AddSymbol :: "openfec \<Rightarrow> bool \<Rightarrow> rs_cache \<Rightarrow> nat \<Rightarrow> bytes option \<Rightarrow> nat \<Rightarrow> fec_decoder \<Rightarrow>
    (fec_result \<times> fec_decoder \<times> rs_cache) option" where
  "AddSymbol ofc neon cache sid data sz st =
     (case (st, data) of
        (Some s, Some d) \<Rightarrow>
          if length (fs_symbols s) \<le> sid \<or> sz \<noteq> fs_size s then Some (FecInvalid, st, cache)
          else if fs_failed s then Some (FecError, st, cache)
          else if length d < sz then None
          else if fs_seen s ! sid
            then Some (if take sz (fs_symbols s ! sid) = take sz d then FecDuplicate else FecInvalid, st, cache)
          else if fs_complete s then Some (FecComplete, st, cache)
          else
            let s = s\<lparr>fs_symbols := (fs_symbols s)[sid := take sz d], fs_seen := (fs_seen s)[sid := True],
                      fs_received := fs_received s + 1\<rparr>
            in (case fs_session s of
                  Some fed \<Rightarrow>
                    let fed = fed @ [(sid, take sz d)] in
                    (case of_decode ofc (fs_k s) (fs_repairs s) sz fed of
                       (status, complete, ws) \<Rightarrow>
                         let s = s\<lparr>fs_session := Some fed, fs_symbols := write_back (fs_k s) sz ws (fs_symbols s)\<rparr> in
                         if status = OfError then Some (FecError, Some (s\<lparr>fs_failed := True\<rparr>), cache)
                         else let s = s\<lparr>fs_complete := complete\<rparr> in Some (add_result s, Some s, cache))
                | None \<Rightarrow>
                    if fs_small s \<and> fs_k s \<le> fs_received s then
                      do { (ok, syms, cache) \<leftarrow> DecodeSmallRs ofc neon cache (fs_k s) (fs_repairs s) (fs_size s)
                                                  (fs_seen s) (fs_symbols s);
                           let s = s\<lparr>fs_symbols := syms, fs_complete := ok\<rparr> in
                           if \<not> ok then Some (FecError, Some (s\<lparr>fs_failed := True\<rparr>), cache)
                           else Some (add_result s, Some s, cache) }
                    else if \<not> fs_small s
                      then let s = s\<lparr>fs_complete := (fs_received s = fs_k s)\<rparr> in Some (add_result s, Some s, cache)
                    else Some (add_result s, Some s, cache))
      | _ \<Rightarrow> Some (FecInvalid, st, cache))"

definition Decoder_Complete :: "fec_decoder \<Rightarrow> bool" where
  "Decoder_Complete st = (case st of None \<Rightarrow> False | Some s \<Rightarrow> fs_complete s)"

definition Symbols :: "fec_decoder \<Rightarrow> symbols" where
  "Symbols st = (case st of None \<Rightarrow> [] | Some s \<Rightarrow> fs_symbols s)"

definition ResetParams :: "openfec \<Rightarrow> nat \<Rightarrow> fec_decoder \<Rightarrow> int \<times> fec_decoder" where
  "ResetParams ofc k st =
     (if k = 0 \<or> kMaxSymbols < k then (-1, None)
      else case Decoder_Reset ofc k (k * 1000 div 667 - k) 1400 st of (ok, st) \<Rightarrow> (if ok then 0 else -1, st))"

text \<open>The returned table borrows the first \<open>k\<close> symbols.\<close>

definition DecodeWithNewSymbol :: "openfec \<Rightarrow> bool \<Rightarrow> rs_cache \<Rightarrow> bytes option \<Rightarrow> nat \<Rightarrow> fec_decoder \<Rightarrow>
    (symbols option \<times> fec_decoder \<times> rs_cache) option" where
  "DecodeWithNewSymbol ofc neon cache symbol sid st =
     do { (res, st, cache) \<leftarrow> AddSymbol ofc neon cache sid symbol 1400 st;
          Some (if res = FecComplete then map_option (\<lambda>s. take (fs_k s) (fs_symbols s)) st else None, st, cache) }"

section \<open>Memory safety\<close>

text \<open>Whatever symbols arrive, a decoder on the fast path never accesses memory outside its buffers.\<close>

definition dec_safe :: "nat \<Rightarrow> nat \<Rightarrow> nat \<Rightarrow> fec_state \<Rightarrow> bool" where
  "dec_safe k r sz s \<longleftrightarrow> fs_session s = None \<and> fs_k s = k \<and> fs_repairs s = r \<and> fs_size s = sz \<and> fs_small s \<and>
     length (fs_seen s) = k + r \<and> sized sz (k + r) (fs_symbols s)"

lemma AddSymbol_safe:
  assumes "SupportsSmallRs k r" "dec_safe k r sz s" "length d = sz"
  shows "\<exists>res s' cache'. AddSymbol ofc neon cache sid (Some d) sz (Some s) = Some (res, Some s', cache') \<and> dec_safe k r sz s'"
proof -
  have s: "fs_session s = None" "fs_k s = k" "fs_repairs s = r" "fs_size s = sz" "fs_small s" "length (fs_seen s) = k + r"
    "sized sz (k + r) (fs_symbols s)" using assms(2) by (auto simp: dec_safe_def)
  obtain ok syms c where d: "DecodeSmallRs ofc neon cache k r sz ((fs_seen s)[sid := True]) ((fs_symbols s)[sid := d]) = Some (ok, syms, c)"
      "sized sz (k + r) syms"
    using DecodeSmallRs_safe [OF assms(1), of "(fs_seen s)[sid := True]" sz "(fs_symbols s)[sid := d]" ofc neon cache] s assms(3)
    by (auto simp: sized_update)
  have "sized sz (k + r) ((fs_symbols s)[sid := d])" using s assms(3) by (simp add: sized_update)
  with s d assms show ?thesis by (simp add: AddSymbol_def Let_def dec_safe_def)
qed

lemma Reset_safe:
  assumes "SupportsSmallRs k r" "0 < sz" "sz \<le> kMaxSymbolSize"
  shows "\<exists>s. Decoder_Reset ofc k r sz st = (True, Some s) \<and> dec_safe k r sz s"
  using assms by (auto simp: Decoder_Reset_def Let_def dec_safe_def sized_def SupportsSmallRs_def kMaxSymbols_def
      kRsSmallMaxSources_def kRsSmallMaxRepairs_def)

section \<open>Receiving the symbols of an encoded block\<close>

definition seen_set :: "fec_state \<Rightarrow> nat set" where
  "seen_set s = {i. i < length (fs_seen s) \<and> fs_seen s ! i}"

text \<open>
  A decoder that received only symbols of the block with sources \<open>S\<close>, repair rows \<open>rs\<close> and symbol size \<open>sz\<close>:
  \<open>codec_ok\<close> is what it needs from the generator rows.
\<close>

definition codec_ok :: "openfec \<Rightarrow> nat \<Rightarrow> nat \<Rightarrow> rows \<Rightarrow> rs_cache \<Rightarrow> bool" where
  "codec_ok ofc k r rs cache \<longleftrightarrow> r = 0 \<or> (\<exists>cache'. Matrix ofc cache k r = Some (Some rs, cache')) \<and> mds k r rs"

definition dec_inv :: "openfec \<Rightarrow> symbols \<Rightarrow> nat \<Rightarrow> rows \<Rightarrow> nat \<Rightarrow> rs_cache \<Rightarrow> fec_state \<Rightarrow> bool" where
  "dec_inv ofc S r rs sz cache s \<longleftrightarrow>
     fs_session s = None \<and> fs_k s = length S \<and> fs_size s = sz \<and> fs_repairs s = r \<and> (fs_small s \<longleftrightarrow> r \<noteq> 0) \<and>
     \<not> fs_failed s \<and> length (fs_seen s) = length S + r \<and> known sz rs S (fs_seen s) (fs_symbols s) \<and>
     fs_received s = card (seen_set s) \<and> (fs_complete s \<longleftrightarrow> length S \<le> fs_received s) \<and>
     (fs_complete s \<longrightarrow> (\<forall>i < length S. fs_symbols s ! i = S ! i)) \<and> codec_ok ofc (length S) r rs cache"

lemma Matrix_bounds: "Matrix ofc cache k r = Some x \<Longrightarrow> SupportsSmallRs k r"
  by (auto simp: Matrix_def SupportsSmallRs_def split: if_splits)

lemma Matrix_again:
  assumes "Matrix ofc cache k r = Some (Some rs, cache')"
  shows "Matrix ofc cache' k r = Some (Some rs, cache')"
  using assms by (auto simp: Matrix_def split: if_splits option.splits)

lemma length_filter_card: "length (filter P [0..<n]) = card {i. i < n \<and> P i}"
proof -
  have "length (filter P [0..<n]) = card (set (filter P [0..<n]))"
    by (rule distinct_card [symmetric]) simp
  also have "set (filter P [0..<n]) = {i. i < n \<and> P i}" by auto
  finally show ?thesis .
qed

lemma finite_seen [simp]: "finite (seen_set s)" by (simp add: seen_set_def)

lemma known_store:
  assumes "known sz rs S seen syms" "i < length seen" "code_sym sz rs S i = b" "length b = sz"
  shows "known sz rs S (seen[i := True]) (syms[i := b])"
  using assms unfolding known_def by (auto simp: nth_list_update)

lemma code_sym_length: "(\<And>i. i < length S \<Longrightarrow> length (S ! i) = sz) \<Longrightarrow> length (code_sym sz rs S i) = sz"
  by (simp add: code_sym_def)

lemma all_seen:
  assumes "length seen = k" "k \<le> card {i. i < length seen \<and> seen ! i}"
  shows "\<forall>i < k. seen ! i"
proof -
  have "{i. i < length seen \<and> seen ! i} = {..<k}"
    using assms by (intro card_seteq) auto
  then show ?thesis using assms(1) by blast
qed

text \<open>The state after a fresh symbol was stored, before the decoding step.\<close>

definition stored :: "nat \<Rightarrow> bytes \<Rightarrow> fec_state \<Rightarrow> fec_state" where
  "stored sid d s = s\<lparr>fs_symbols := (fs_symbols s)[sid := d], fs_seen := (fs_seen s)[sid := True],
     fs_received := fs_received s + 1\<rparr>"

lemma seen_stored: "sid < length (fs_seen s) \<Longrightarrow> seen_set (stored sid d s) = insert sid (seen_set s)"
  by (auto simp: seen_set_def stored_def nth_list_update)

lemma AddSymbol_fresh:
  assumes inv: "dec_inv ofc S r rs sz cache s" and S: "\<And>i. i < length S \<Longrightarrow> length (S ! i) = sz"
    and sid: "sid < length S + r" "\<not> fs_seen s ! sid" and nc: "\<not> fs_complete s"
  shows "\<exists>res s' cache'. AddSymbol ofc neon cache sid (Some (code_sym sz rs S sid)) sz (Some s) = Some (res, Some s', cache') \<and>
    dec_inv ofc S r rs sz cache' s' \<and> res \<in> {FecAccepted, FecComplete} \<and> seen_set s' = insert sid (seen_set s)"
proof -
  let ?d = "code_sym sz rs S sid" and ?s = "stored sid (code_sym sz rs S sid) s" and ?k = "length S"
  have i: "fs_session s = None" "fs_k s = ?k" "fs_size s = sz" "fs_repairs s = r" "fs_small s \<longleftrightarrow> r \<noteq> 0" "\<not> fs_failed s"
    "length (fs_seen s) = ?k + r" "known sz rs S (fs_seen s) (fs_symbols s)" "fs_received s = card (seen_set s)"
    "fs_received s < ?k" "codec_ok ofc ?k r rs cache"
    using inv nc by (auto simp: dec_inv_def)
  have len: "length (fs_symbols s) = ?k + r" "length ?d = sz" using i(7,8) code_sym_length [OF S] by (auto simp: known_def)
  have sid': "sid \<notin> seen_set s" "sid < length (fs_seen s)" using sid i(7) by (auto simp: seen_set_def)
  have kn: "known sz rs S (fs_seen ?s) (fs_symbols ?s)"
    using i(8) sid'(2) len by (simp add: stored_def known_store)
  have cnt: "fs_received ?s = card (seen_set ?s)" "seen_set ?s = insert sid (seen_set s)"
    using sid' i(9) seen_stored [of sid s ?d] by (simp_all add: stored_def)
  have same: "fs_session ?s = None" "fs_k ?s = ?k" "fs_size ?s = sz" "fs_repairs ?s = r" "fs_small ?s \<longleftrightarrow> r \<noteq> 0"
    "\<not> fs_failed ?s" "length (fs_seen ?s) = ?k + r" "\<not> fs_complete ?s"
    using i nc by (simp_all add: stored_def)
  have add: "AddSymbol ofc neon cache sid (Some ?d) sz (Some s) =
      (if r \<noteq> 0 \<and> ?k \<le> fs_received ?s then
         do { (ok, syms, cache) \<leftarrow> DecodeSmallRs ofc neon cache ?k r sz (fs_seen ?s) (fs_symbols ?s);
              let s = ?s\<lparr>fs_symbols := syms, fs_complete := ok\<rparr> in
              if \<not> ok then Some (FecError, Some (s\<lparr>fs_failed := True\<rparr>), cache) else Some (add_result s, Some s, cache) }
       else if r = 0 then let s = ?s\<lparr>fs_complete := (fs_received ?s = ?k)\<rparr> in Some (add_result s, Some s, cache)
       else Some (add_result ?s, Some ?s, cache))"
    using i nc len sid by (simp add: AddSymbol_def stored_def Let_def)
  consider (decode) "r \<noteq> 0" "?k \<le> fs_received ?s" | (plain) "r = 0" | (wait) "r \<noteq> 0" "fs_received ?s < ?k" by linarith
  then show ?thesis
  proof cases
    case decode
    obtain cache1 where m: "Matrix ofc cache ?k r = Some (Some rs, cache1)" "mds ?k r rs"
      using i(11) decode(1) by (auto simp: codec_ok_def)
    have "?k \<le> length (filter (\<lambda>i. fs_seen ?s ! i) [0..<?k + r])"
      using decode(2) cnt same(7) by (simp add: length_filter_card seen_set_def)
    moreover have "r \<le> kRsSmallMaxRepairs" using Matrix_bounds [OF m(1)] by (simp add: SupportsSmallRs_def)
    ultimately obtain syms c' where d: "DecodeSmallRs ofc neon cache ?k r sz (fs_seen ?s) (fs_symbols ?s) = Some (True, syms, c')"
        "length syms = ?k + r" "\<forall>i < ?k. syms ! i = S ! i"
        "\<forall>i. fs_seen ?s ! i \<or> ?k \<le> i \<longrightarrow> syms ! i = fs_symbols ?s ! i" "c' \<in> {cache, cache1}"
      using decode_small_rs [OF refl S _ same(7) kn _ m] by blast
    let ?t = "?s\<lparr>fs_symbols := syms, fs_complete := True\<rparr>"
    have "known sz rs S (fs_seen ?s) syms"
      unfolding known_def
    proof (intro conjI allI impI)
      fix j assume j: "j < length (fs_seen ?s)"
      show "length (syms ! j) = sz"
        using kn j d(3,4) S by (cases "j < ?k") (auto simp: known_def)
      show "syms ! j = code_sym sz rs S j" if "fs_seen ?s ! j" using that kn j d(4) by (auto simp: known_def)
    qed (simp add: d(2) same(7))
    moreover have "codec_ok ofc ?k r rs c'" using m d(5) Matrix_again [OF m(1)] by (auto simp: codec_ok_def)
    moreover have "seen_set ?t = seen_set ?s" by (simp add: seen_set_def)
    ultimately have "dec_inv ofc S r rs sz c' ?t"
      using same cnt d(3) decode unfolding dec_inv_def by simp
    moreover have "AddSymbol ofc neon cache sid (Some ?d) sz (Some s) = Some (FecComplete, Some ?t, c')"
      unfolding add using decode d(1) by (simp add: add_result_def)
    ultimately show ?thesis using cnt(2) \<open>seen_set ?t = seen_set ?s\<close> by blast
  next
    case plain
    let ?t = "?s\<lparr>fs_complete := (fs_received ?s = ?k)\<rparr>"
    have set: "seen_set ?t = seen_set ?s" by (simp add: seen_set_def)
    have le: "fs_received ?s \<le> ?k" using i(10) by (simp add: stored_def)
    have "\<forall>j < ?k. fs_symbols ?s ! j = S ! j" if full: "fs_received ?s = ?k"
    proof (intro allI impI)
      fix j assume j: "j < ?k"
      have "\<forall>i < ?k. fs_seen ?s ! i"
      proof (rule all_seen)
        show "?k \<le> card {i. i < length (fs_seen ?s) \<and> fs_seen ?s ! i}"
          unfolding seen_set_def [symmetric] using full cnt(1) by simp
      qed (use same(7) plain in simp)
      with j have "fs_symbols ?s ! j = code_sym sz rs S j" using kn same(7) plain unfolding known_def by simp
      with j show "fs_symbols ?s ! j = S ! j" by (simp add: code_sym_def)
    qed
    then have "dec_inv ofc S r rs sz cache ?t"
      using same cnt set plain kn i(11) le unfolding dec_inv_def by auto
    moreover have "AddSymbol ofc neon cache sid (Some ?d) sz (Some s) = Some (add_result ?t, Some ?t, cache)"
      unfolding add using plain by (simp add: Let_def)
    ultimately show ?thesis using cnt(2) set by (auto simp: add_result_def)
  next
    case wait
    have "dec_inv ofc S r rs sz cache ?s"
      using same cnt kn i(11) wait unfolding dec_inv_def by auto
    moreover have "AddSymbol ofc neon cache sid (Some ?d) sz (Some s) = Some (add_result ?s, Some ?s, cache)"
      unfolding add using wait by simp
    ultimately show ?thesis using cnt(2) by (auto simp: add_result_def)
  qed
qed

lemma AddSymbol_block:
  assumes inv: "dec_inv ofc S r rs sz cache s" and S: "\<And>i. i < length S \<Longrightarrow> length (S ! i) = sz" and sid: "sid < length S + r"
  shows "\<exists>res s' cache'. AddSymbol ofc neon cache sid (Some (code_sym sz rs S sid)) sz (Some s) = Some (res, Some s', cache') \<and>
    dec_inv ofc S r rs sz cache' s' \<and> res \<in> {FecAccepted, FecDuplicate, FecComplete} \<and>
    seen_set s' = (if fs_complete s then seen_set s else insert sid (seen_set s))"
proof (cases "fs_seen s ! sid \<or> fs_complete s")
  case True
  have *: "fs_size s = sz" "\<not> fs_failed s" "length (fs_seen s) = length S + r" "known sz rs S (fs_seen s) (fs_symbols s)"
    using inv by (auto simp: dec_inv_def)
  have len: "length (fs_symbols s) = length S + r" "length (code_sym sz rs S sid) = sz" using * code_sym_length [OF S] by (auto simp: known_def)
  have "fs_symbols s ! sid = code_sym sz rs S sid" if "fs_seen s ! sid" using that * sid by (simp add: known_def)
  then have "\<exists>res \<in> {FecDuplicate, FecComplete}.
      AddSymbol ofc neon cache sid (Some (code_sym sz rs S sid)) sz (Some s) = Some (res, Some s, cache)"
    using True * len sid by (auto simp: AddSymbol_def)
  moreover have "seen_set s = insert sid (seen_set s)" if "fs_seen s ! sid" using that sid *(3) by (auto simp: seen_set_def)
  ultimately show ?thesis using inv True by auto
next
  case False
  then show ?thesis using AddSymbol_fresh [OF inv S sid, of neon] by auto
qed

text \<open>Symbols of the block arrive in some order.\<close>

fun feed :: "openfec \<Rightarrow> bool \<Rightarrow> rs_cache \<Rightarrow> nat \<Rightarrow> (nat \<Rightarrow> bytes) \<Rightarrow> nat list \<Rightarrow> fec_decoder \<Rightarrow>
    (fec_result list \<times> fec_decoder \<times> rs_cache) option" where
  "feed ofc neon cache sz f [] st = Some ([], st, cache)"
| "feed ofc neon cache sz f (i # js) st =
     do { (res, st, cache) \<leftarrow> AddSymbol ofc neon cache i (Some (f i)) sz st;
          (rest, st, cache) \<leftarrow> feed ofc neon cache sz f js st;
          Some (res # rest, st, cache) }"

lemma feed_block:
  assumes "dec_inv ofc S r rs sz cache s" "\<And>i. i < length S \<Longrightarrow> length (S ! i) = sz" "set ids \<subseteq> {..<length S + r}"
    "\<And>i. i < length S + r \<Longrightarrow> f i = code_sym sz rs S i" "seen_set s \<subseteq> seen0" "fs_complete s \<or> seen_set s = seen0"
  shows "\<exists>res s' cache'. feed ofc neon cache sz f ids (Some s) = Some (res, Some s', cache') \<and>
    dec_inv ofc S r rs sz cache' s' \<and> set res \<subseteq> {FecAccepted, FecDuplicate, FecComplete} \<and>
    seen_set s' \<subseteq> seen0 \<union> set ids \<and> (fs_complete s' \<or> seen_set s' = seen0 \<union> set ids)"
  using assms
proof (induction ids arbitrary: cache s seen0)
  case Nil
  then show ?case by auto
next
  case (Cons i ids)
  obtain res s1 c1 where 1: "AddSymbol ofc neon cache i (Some (code_sym sz rs S i)) sz (Some s) = Some (res, Some s1, c1)"
      "dec_inv ofc S r rs sz c1 s1" "res \<in> {FecAccepted, FecDuplicate, FecComplete}"
      "seen_set s1 = (if fs_complete s then seen_set s else insert i (seen_set s))"
    using AddSymbol_block [OF Cons.prems(1,2), of i neon] Cons.prems(3) by auto
  have "fs_complete s1" if "fs_complete s"
    using that 1(2,4) Cons.prems(1) by (simp add: dec_inv_def)
  then obtain rest s2 c2 where "feed ofc neon c1 sz f ids (Some s1) = Some (rest, Some s2, c2)"
      "dec_inv ofc S r rs sz c2 s2" "set rest \<subseteq> {FecAccepted, FecDuplicate, FecComplete}"
      "seen_set s2 \<subseteq> insert i seen0 \<union> set ids" "fs_complete s2 \<or> seen_set s2 = insert i seen0 \<union> set ids"
  proof -
    have "seen_set s1 \<subseteq> insert i seen0" "fs_complete s1 \<or> seen_set s1 = insert i seen0"
      using 1(4) Cons.prems(5,6) \<open>fs_complete s \<Longrightarrow> fs_complete s1\<close> by (auto split: if_splits)
    then show ?thesis using Cons.IH [OF 1(2) Cons.prems(2) _ Cons.prems(4), of "insert i seen0"] Cons.prems(3) that by auto
  qed
  then show ?case using 1(1,3) Cons.prems(3,4) by auto
qed

lemma Reset_inv:
  assumes "0 < length S" "length S + r \<le> kMaxSymbols" "0 < sz" "sz \<le> kMaxSymbolSize" "codec_ok ofc (length S) r rs cache"
  shows "\<exists>s. Decoder_Reset ofc (length S) r sz st = (True, Some s) \<and> dec_inv ofc S r rs sz cache s \<and> seen_set s = {} \<and> \<not> fs_complete s"
proof -
  have small: "SupportsSmallRs (length S) r \<longleftrightarrow> r \<noteq> 0"
    using assms(5) Matrix_bounds [of ofc cache "length S" r]
    by (cases "r = 0") (auto simp: codec_ok_def SupportsSmallRs_def [of _ 0])
  have "known sz rs S (replicate (length S + r) False) (replicate (length S + r) (replicate sz 0))"
    by (auto simp: known_def)
  with assms small show ?thesis by (auto simp: Decoder_Reset_def dec_inv_def seen_set_def Let_def)
qed

lemma EncodeSymbols_block:
  assumes "0 < length S" "length S + r \<le> kMaxSymbols" "0 < sz" "sz \<le> kMaxSymbolSize" "\<And>i. i < length S \<Longrightarrow> length (S ! i) = sz"
    "codec_ok ofc (length S) r rs cache"
  shows "\<exists>R cache'. EncodeSymbols ofc neon cache S r = Some (Some R, cache') \<and> length R = r \<and>
     (\<forall>i < length S + r. (S @ R) ! i = code_sym sz rs S i) \<and> codec_ok ofc (length S) r rs cache'"
proof -
  have hd: "length (hd S) = sz" using assms(1) assms(5) [of 0] by (simp add: hd_conv_nth)
  have all: "list_all (\<lambda>s. length s = sz) S" using assms(5) by (simp add: list_all_length)
  show ?thesis
  proof (cases "r = 0")
    case True
    then show ?thesis using assms hd all by (auto simp: EncodeSymbols_def Let_def code_sym_def codec_ok_def)
  next
    case False
    then obtain c where m: "Matrix ofc cache (length S) r = Some (Some rs, c)" "mds (length S) r rs"
      using assms(6) by (auto simp: codec_ok_def)
    have "EncodeSymbols ofc neon cache S r = Some (Some (map (\<lambda>row. combine sz (rs ! row) S) [0..<r]), c)"
      using assms hd all False m(1) Matrix_bounds [OF m(1)] EncodeSmallRs_eq [OF m(1), of sz neon]
      by (simp add: EncodeSymbols_def Let_def)
    moreover have "codec_ok ofc (length S) r rs c" using m Matrix_again [OF m(1)] by (auto simp: codec_ok_def)
    ultimately show ?thesis by (auto simp: code_sym_def nth_append)
  qed
qed

text \<open>
  C5: A block of \<open>k\<close> equally long sources with \<open>r\<close> repair symbols survives the loss of any \<open>r\<close> symbols: encoding
  succeeds, and a decoder that was reset for the block and receives symbols of it in any order, with repetitions,
  reports no error, is complete exactly when \<open>k\<close> different symbols have arrived, and then holds the
  sources. The generator rows are those of OpenFEC, whose code is MDS.
\<close>

theorem fec_roundtrip:
  assumes "0 < length S" "length S + r \<le> kMaxSymbols" "0 < sz" "sz \<le> kMaxSymbolSize" "\<forall>s \<in> set S. length s = sz"
    and "codec_ok ofc (length S) r rs cache" and "set ids \<subseteq> {..<length S + r}"
  shows "\<exists>R cache1 st0 res st cache2. EncodeSymbols ofc neon cache S r = Some (Some R, cache1) \<and> length R = r \<and>
    Decoder_Reset ofc (length S) r sz old = (True, st0) \<and>
    feed ofc neon' cache1 sz (\<lambda>i. (S @ R) ! i) ids st0 = Some (res, st, cache2) \<and>
    FecError \<notin> set res \<and> FecInvalid \<notin> set res \<and>
    (Decoder_Complete st \<longleftrightarrow> length S \<le> card (set ids)) \<and>
    (Decoder_Complete st \<longrightarrow> take (length S) (Symbols st) = S)"
proof -
  have S: "\<And>i. i < length S \<Longrightarrow> length (S ! i) = sz" using assms(5) by simp
  obtain R cache1 where e: "EncodeSymbols ofc neon cache S r = Some (Some R, cache1)" "length R = r"
      "\<forall>i < length S + r. (S @ R) ! i = code_sym sz rs S i" "codec_ok ofc (length S) r rs cache1"
    using EncodeSymbols_block [OF assms(1-4) S assms(6), of neon] by auto
  obtain s where s: "Decoder_Reset ofc (length S) r sz old = (True, Some s)" "dec_inv ofc S r rs sz cache1 s" "seen_set s = {}"
    using Reset_inv [OF assms(1-4) e(4), of old] by auto
  obtain res t cache2 where f: "feed ofc neon' cache1 sz (\<lambda>i. (S @ R) ! i) ids (Some s) = Some (res, Some t, cache2)"
      "dec_inv ofc S r rs sz cache2 t" "set res \<subseteq> {FecAccepted, FecDuplicate, FecComplete}"
      "seen_set t \<subseteq> set ids" "fs_complete t \<or> seen_set t = set ids"
    using feed_block [OF s(2) S assms(7), of "\<lambda>i. (S @ R) ! i" "{}" neon'] e(3) s(3) by auto
  have "fs_complete t \<longleftrightarrow> length S \<le> card (seen_set t)" using f(2) by (simp add: dec_inv_def)
  then have "Decoder_Complete (Some t) \<longleftrightarrow> length S \<le> card (set ids)"
    using f(4,5) card_mono [OF _ f(4)] by (auto simp: Decoder_Complete_def)
  moreover have "take (length S) (Symbols (Some t)) = S" if "Decoder_Complete (Some t)"
    using that f(2) by (auto simp: Decoder_Complete_def dec_inv_def known_def Symbols_def list_eq_iff_nth_eq)
  ultimately show ?thesis using e s f by blast
qed

text \<open>A block of two sources with one parity symbol, of which the second source is lost.\<close>

definition parity_openfec :: openfec where
  "parity_openfec = \<lparr>of_open = (\<lambda>k r len. k = 2 \<and> r = 1), of_build = (\<lambda>k r S i. Some (map2 (XOR) (S ! 0) (S ! 1))),
     of_decode = (\<lambda>k r sz fed. (OfFailure, False, []))\<rparr>"

definition parity_rows :: rows where "parity_rows = [[1, 1, 0, 0, 0, 0, 0, 0, 0, 0, 0, 0, 0, 0, 0, 0]]"

lemma parity_matrix: "Matrix parity_openfec (\<lambda>_. None) 2 1 = Some (Some parity_rows, (\<lambda>_. None)((2, 1) \<mapsto> parity_rows))"
  by (simp add: Matrix_def parity_openfec_def basis_def kRsSmallMaxSources_def kRsSmallMaxRepairs_def parity_rows_def
      numeral_eq_Suc)

lemma xor_cancel:
  assumes "a XOR b = a XOR d"
  shows "b = (d :: u8)"
proof -
  have "a XOR (a XOR b) = a XOR (a XOR d)" using assms by simp
  then show ?thesis by (simp flip: xor.assoc)
qed

lemma parity_mds: "mds 2 1 parity_rows"
  unfolding mds_def
proof (intro allI impI)
  fix x y :: "u8 list"
  assume "length x = 2" "length y = 2" and e: "2 \<le> card {i. i < 2 + 1 \<and> code_value 2 parity_rows x i = code_value 2 parity_rows y i}"
  then obtain a b c d where xy: "x = [a, b]" "y = [c, d]"
    by (metis (no_types, opaque_lifting) One_nat_def Suc_1 Suc_length_conv length_0_conv)
  let ?E = "{i. i < 2 + 1 \<and> code_value 2 parity_rows x i = code_value 2 parity_rows y i}"
  have E: "i \<in> ?E \<longleftrightarrow> (i = 0 \<and> a = c) \<or> (i = 1 \<and> b = d) \<or> (i = 2 \<and> a XOR b = c XOR d)" for i
    by (auto simp: xy code_value_def dot_def parity_rows_def less_Suc_eq numeral_eq_Suc)
  show "x = y"
  proof (rule ccontr)
    assume "x \<noteq> y"
    moreover have "a XOR b = c XOR d \<Longrightarrow> b = d \<Longrightarrow> a = c" "a XOR b = c XOR d \<Longrightarrow> a = c \<Longrightarrow> b = d"
      using xor_cancel [of b a c] xor_cancel [of a b d] by (simp_all add: xor.commute)
    ultimately have "?E \<subseteq> {0} \<or> ?E \<subseteq> {1} \<or> ?E \<subseteq> {2}" using E unfolding xy by blast
    then have "card ?E \<le> 1" using card_mono [of "{_ :: nat}" ?E] by fastforce
    then show False using e by simp
  qed
qed

theorem fec_roundtrip_witness:
  "\<exists>R cache1 st0 res st cache2. EncodeSymbols parity_openfec True (\<lambda>_. None) [[1, 2], [3, 4]] 1 = Some (Some R, cache1) \<and>
    Decoder_Reset parity_openfec 2 1 2 None = (True, st0) \<and>
    feed parity_openfec False cache1 2 (\<lambda>i. ([[1, 2], [3, 4]] @ R) ! i) [2, 0] st0 = Some (res, st, cache2) \<and>
    take 2 (Symbols st) = [[1, 2], [3, 4]]"
proof -
  have "codec_ok parity_openfec 2 1 parity_rows (\<lambda>_. None)"
    unfolding codec_ok_def using parity_matrix parity_mds by blast
  then show ?thesis
    using fec_roundtrip [of "[[1, 2], [3, 4]]" 1 2 parity_openfec parity_rows "\<lambda>_. None" "[2, 0]" True None False]
    by (auto simp: kMaxSymbols_def kMaxSymbolSize_def numeral_2_eq_2)
qed

end
