(* ===== verification/Ordered_Map.thy ===== *)
theory Ordered_Map
  imports Main
begin

text \<open>
  \<open>std::map\<close> as an association list in key order: \<open>insert_or_assign\<close>, \<open>erase\<close> and iteration from the least
  key. The lookups are those of \<^const>\<open>map_of\<close>.
\<close>

fun omap_insert :: "'k::linorder \<Rightarrow> 'v \<Rightarrow> ('k \<times> 'v) list \<Rightarrow> ('k \<times> 'v) list" where
  "omap_insert k v [] = [(k, v)]"
| "omap_insert k v ((k', v') # xs) =
     (if k < k' then (k, v) # (k', v') # xs else if k = k' then (k, v) # xs else (k', v') # omap_insert k v xs)"

definition omap_erase :: "'k \<Rightarrow> ('k \<times> 'v) list \<Rightarrow> ('k \<times> 'v) list" where
  "omap_erase k xs = filter (\<lambda>(k', v). k' \<noteq> k) xs"

abbreviation ordered :: "('k::linorder \<times> 'v) list \<Rightarrow> bool" where
  "ordered xs \<equiv> sorted_wrt (<) (map fst xs)"

lemma set_omap_insert: "ordered xs \<Longrightarrow> set (omap_insert k v xs) = insert (k, v) {e \<in> set xs. fst e \<noteq> k}"
  by (induction xs rule: omap_insert.induct) (auto simp: not_less_iff_gr_or_eq)

lemma ordered_insert: "ordered xs \<Longrightarrow> ordered (omap_insert k v xs)"
proof (induction k v xs rule: omap_insert.induct)
  case (2 k v k' v' xs)
  then show ?case by (auto simp: set_omap_insert)
qed simp

lemma map_of_omap_insert: "ordered xs \<Longrightarrow> map_of (omap_insert k v xs) = (map_of xs)(k \<mapsto> v)"
  by (induction k v xs rule: omap_insert.induct) (auto simp: fun_eq_iff)

lemma length_omap_insert: "length (omap_insert k v xs) \<le> Suc (length xs)"
  by (induction k v xs rule: omap_insert.induct) auto

lemma length_omap_update: "ordered xs \<Longrightarrow> map_of xs k \<noteq> None \<Longrightarrow> length (omap_insert k v xs) = length xs"
proof (induction k v xs rule: omap_insert.induct)
  case (2 k v k' v' xs)
  have False if "k < k'"
  proof -
    have "map_of xs k \<noteq> None" using 2(3) that by (auto split: if_splits)
    then have "k \<in> fst ` set xs" by (simp add: map_of_eq_None_iff)
    then show False using 2(2) that by auto
  qed
  with 2 show ?case by auto
qed simp

lemma ordered_filter: "ordered xs \<Longrightarrow> ordered (filter P xs)"
  by (induction xs) auto

lemma ordered_distinct: "ordered xs \<Longrightarrow> distinct (map fst xs)"
  using strict_sorted_iff by blast

lemma map_of_filter: "ordered xs \<Longrightarrow> map_of (filter P xs) k = (case map_of xs k of None \<Rightarrow> None | Some v \<Rightarrow> if P (k, v) then Some v else None)"
proof (induction xs)
  case (Cons e xs)
  obtain a v where e: "e = (a, v)" by (cases e)
  have "map_of xs a = None" using Cons.prems e by (auto simp: map_of_eq_None_iff)
  with Cons e show ?case by auto
qed simp

lemma length_erase: "k \<in> fst ` set xs \<Longrightarrow> length (omap_erase k xs) < length xs"
  unfolding omap_erase_def by (auto intro: length_filter_less)

lemma ordered_erase: "ordered xs \<Longrightarrow> ordered (omap_erase k xs)"
  unfolding omap_erase_def by (rule ordered_filter)

lemma map_of_erase: "map_of (omap_erase k xs) = (map_of xs)(k := None)"
  unfolding omap_erase_def by (induction xs) (auto simp: fun_eq_iff)

end
