(* ===== verification/Double_Ops.thy ===== *)
theory Double_Ops
  imports Main
begin

text \<open>
  Floating point arithmetic as a parameter. The operations of \<open>float\<close> and \<open>double\<close> that the sources use are the
  fields of a record that the definitions take as an argument; nothing is assumed of their rounding, so that what
  is proved without further hypotheses holds for every arithmetic.
\<close>

record 'd double_ops =
  d_zero :: 'd
  d_const :: "nat \<Rightarrow> 'd"
  d_of_nat :: "nat \<Rightarrow> 'd"
  d_add :: "'d \<Rightarrow> 'd \<Rightarrow> 'd"
  d_sub :: "'d \<Rightarrow> 'd \<Rightarrow> 'd"
  d_mul :: "'d \<Rightarrow> 'd \<Rightarrow> 'd"
  d_div :: "'d \<Rightarrow> 'd \<Rightarrow> 'd"
  d_less :: "'d \<Rightarrow> 'd \<Rightarrow> bool"
  d_eq :: "'d \<Rightarrow> 'd \<Rightarrow> bool"
  d_finite :: "'d \<Rightarrow> bool"
  d_ceil :: "'d \<Rightarrow> nat"
  d_trunc :: "'d \<Rightarrow> nat"

text \<open>Constants are given in thousandths: \<open>d_const 250\<close> is 0.25. \<open>std::min\<close> and \<open>std::clamp\<close>:\<close>

definition d_min :: "'d double_ops \<Rightarrow> 'd \<Rightarrow> 'd \<Rightarrow> 'd" where
  "d_min D a b = (if d_less D b a then b else a)"

definition d_clamp :: "'d double_ops \<Rightarrow> 'd \<Rightarrow> 'd \<Rightarrow> 'd \<Rightarrow> 'd" where
  "d_clamp D v lo hi = (if d_less D v lo then lo else if d_less D hi v then hi else v)"

definition d_nonzero :: "'d double_ops \<Rightarrow> 'd \<Rightarrow> bool" where "d_nonzero D a \<longleftrightarrow> \<not> d_eq D a (d_zero D)"

definition iclamp :: "int \<Rightarrow> int \<Rightarrow> int \<Rightarrow> int" where
  "iclamp v lo hi = (if v < lo then lo else if hi < v then hi else v)"

text \<open>Fixed-point arithmetic in thousandths, an instance of \<open>double_ops\<close> for evaluation.\<close>

definition milli_ops :: "int double_ops" where
  "milli_ops = \<lparr>d_zero = 0, d_const = int, d_of_nat = (\<lambda>n. 1000 * int n), d_add = (+), d_sub = (-),
     d_mul = (\<lambda>a b. a * b div 1000), d_div = (\<lambda>a b. a * 1000 div b), d_less = (<), d_eq = (=), d_finite = (\<lambda>_. True),
     d_ceil = (\<lambda>a. nat ((a + 999) div 1000)), d_trunc = (\<lambda>a. nat (a div 1000))\<rparr>"

end
