(* ===== verification/Rtp_Fec.thy ===== *)
theory Rtp_Fec
  imports Fec_Codec Ordered_Map Double_Ops "HOL-Library.Product_Lexorder"
begin

text \<open>
  Forward error correction of RTP streams (\<open>fec/rtp_fec.h\<close>, \<open>fec/rtp_fec.cpp\<close>) with the rate budget of
  \<open>fec/fec_adaptation_controller.cpp\<close>: the sender groups the packets of a frame into blocks and emits repair packets, the
  receiver caches media packets and restores missing ones.

  \<^descr> Packets are byte lists; an access outside a packet is \<^const>\<open>None\<close>.
  \<^descr> \<open>std::map\<close> is an association list in key order.
  \<^descr> The arithmetic on \<open>double\<close> is the parameter \<open>double_ops\<close>: nothing is assumed of its rounding, and what is
  proved holds for every arithmetic.
  \<^descr> Times are milliseconds of a 64-bit clock, far from its limits, and are integers here.

  The lemmas show that arbitrary input never causes an invalid access, that the caches stay within their
  bounds, that every restored packet is a well-formed packet of the media stream, and that
  the packets of a block are restored byte for byte from any sufficient set of received packets.
\<close>

section \<open>Packets\<close>

definition kRsFecPayloadType :: u8 where "kRsFecPayloadType = 122"
definition kFecMaxMediaPacket :: nat where "kFecMaxMediaPacket = 1148"
definition kFecMaxWirePacket :: nat where "kFecMaxWirePacket = 1184"
definition kFecWindowMs :: int where "kFecWindowMs = 150"
definition kFecMaxSources :: nat where "kFecMaxSources = 16"
definition kFecMaxRepairs :: nat where "kFecMaxRepairs = 4"
definition kFecHeaderSize :: nat where "kFecHeaderSize = 16"

definition HeaderSize :: "bytes \<Rightarrow> nat option" where
  "HeaderSize p =
     (if length p < 12 then Some 0
      else do { b \<leftarrow> rd8 p 0;
        if drop_bit 6 b \<noteq> 2 \<or> b AND 0x20 \<noteq> 0 then Some 0
        else let header = 12 + 4 * unat (b AND 15) in
          if length p < header then Some 0
          else if b AND 0x10 \<noteq> 0 then
            if length p - header < 4 then Some 0
            else do { w \<leftarrow> rd16 p (header + 2);
                      let header = header + 4 + 4 * unat w in
                      Some (if header < length p then header else 0) }
          else Some (if header < length p then header else 0) })"

section \<open>Configuration\<close>

datatype fec_decision = DecOff | DecFixed | DecStartup | DecHealthy | DecLoss | DecCongested | DecStale | DecInsufficient

record 'd fec_config =
  fc_version :: u64
  fc_source_ratio :: 'd
  fc_fec_bitrate :: int
  fc_media_bitrate :: int
  fc_window :: int
  fc_keyframe_priority :: bool
  fc_reason :: fec_decision

definition fec_config_init :: "'d double_ops \<Rightarrow> 'd fec_config" where
  "fec_config_init D = \<lparr>fc_version = 0, fc_source_ratio = d_const D 250, fc_fec_bitrate = -1, fc_media_bitrate = 0,
     fc_window = 150, fc_keyframe_priority = False, fc_reason = DecFixed\<rparr>"

section \<open>Rate budget\<close>

record 'd rate_budget =
  rb_rate :: int
  rb_last :: int
  rb_credit :: 'd

definition rate_budget_init :: "'d double_ops \<Rightarrow> 'd rate_budget" where
  "rate_budget_init D = \<lparr>rb_rate = -1, rb_last = -1, rb_credit = d_zero D\<rparr>"

definition Refill :: "'d double_ops \<Rightarrow> int \<Rightarrow> 'd rate_budget \<Rightarrow> 'd rate_budget" where
  "Refill D now b =
     (let b = (if rb_last b \<ge> 0 \<and> now \<ge> rb_last b \<and> rb_rate b > 0
               then b\<lparr>rb_credit := d_min D (d_of_nat D 4800)
                       (d_add D (rb_credit b)
                         (d_div D (d_mul D (d_of_nat D (nat (min (now - rb_last b) 1000))) (d_of_nat D (nat (rb_rate b))))
                                  (d_of_nat D 8000)))\<rparr>
               else b);
          b = (if now < rb_last b then b\<lparr>rb_credit := d_zero D\<rparr> else b)
      in b\<lparr>rb_last := now\<rparr>)"

definition SetRate :: "'d double_ops \<Rightarrow> int \<Rightarrow> int \<Rightarrow> 'd rate_budget \<Rightarrow> 'd rate_budget" where
  "SetRate D bps now b =
     (let b = Refill D now b; bps = iclamp bps 0 1000000000;
          b = (if rb_rate b > 0 \<and> bps < rb_rate b
               then b\<lparr>rb_credit := d_mul D (rb_credit b) (d_div D (d_of_nat D (nat bps)) (d_of_nat D (nat (rb_rate b))))\<rparr>
               else b);
          b = (if bps = 0 then b\<lparr>rb_credit := d_zero D\<rparr> else b)
      in b\<lparr>rb_rate := bps\<rparr>)"

definition Consume :: "'d double_ops \<Rightarrow> nat \<Rightarrow> int \<Rightarrow> 'd rate_budget \<Rightarrow> bool \<times> 'd rate_budget" where
  "Consume D n now b =
     (if rb_rate b < 0 then (True, b)
      else let b = Refill D now b in
        if d_less D (rb_credit b) (d_of_nat D n) then (False, b)
        else (True, b\<lparr>rb_credit := d_sub D (rb_credit b) (d_of_nat D n)\<rparr>))"

section \<open>Sender\<close>

record fec_stats =
  st_source :: u64
  st_repair :: u64
  st_recovered :: u64
  st_expired :: u64
  st_rejected :: u64
  st_budget :: u64
  st_codec :: u64

definition fec_stats_init :: fec_stats where
  "fec_stats_init = \<lparr>st_source = 0, st_repair = 0, st_recovered = 0, st_expired = 0, st_rejected = 0, st_budget = 0, st_codec = 0\<rparr>"

record 'd fec_sender =
  sd_pending :: symbols
  sd_first :: int
  sd_credit :: 'd
  sd_config :: "'d fec_config"
  sd_block_config :: "'d fec_config"
  sd_budget :: "'d rate_budget"
  sd_keyframe :: bool
  sd_last :: int
  sd_deadline :: int
  sd_stats :: fec_stats

definition fec_sender_init :: "'d double_ops \<Rightarrow> 'd fec_sender" where
  "fec_sender_init D = \<lparr>sd_pending = [], sd_first = 0, sd_credit = d_zero D, sd_config = fec_config_init D,
     sd_block_config = fec_config_init D, sd_budget = rate_budget_init D, sd_keyframe = False, sd_last = -1,
     sd_deadline = -1, sd_stats = fec_stats_init\<rparr>"

definition Sender_Reset :: "'d double_ops \<Rightarrow> 'd fec_sender \<Rightarrow> 'd fec_sender" where
  "Sender_Reset D s = s\<lparr>sd_pending := [], sd_credit := d_zero D, sd_last := -1, sd_budget := rate_budget_init D\<rparr>"

definition SetProtection :: "'d double_ops \<Rightarrow> 'd fec_config \<Rightarrow> int \<Rightarrow> 'd fec_sender \<Rightarrow> 'd fec_sender" where
  "SetProtection D config now s =
     (if fc_version config < fc_version (sd_config s) then s
      else
        let nxt = config\<lparr>fc_source_ratio := (if d_finite D (fc_source_ratio config)
                            then d_clamp D (fc_source_ratio config) (d_zero D) (d_const D 250) else d_zero D),
                         fc_window := iclamp (fc_window config) 20 150\<rparr>;
            old = fc_source_ratio (sd_config s);
            s = (if d_less D (d_zero D) old \<and> d_less D (fc_source_ratio nxt) old
                 then s\<lparr>sd_credit := d_mul D (sd_credit s) (d_div D (fc_source_ratio nxt) old)\<rparr> else s);
            s = (if \<not> d_nonzero D (fc_source_ratio nxt) \<or> fc_fec_bitrate nxt = 0
                 then s\<lparr>sd_pending := [], sd_credit := d_zero D\<rparr> else s);
            s = (if fc_fec_bitrate nxt \<ge> 0 then s\<lparr>sd_budget := SetRate D (fc_fec_bitrate nxt) now (sd_budget s)\<rparr> else s)
        in s\<lparr>sd_config := nxt\<rparr>)"

text \<open>The symbol of a packet: its length, its bytes, and padding.\<close>

definition packet_symbol :: "nat \<Rightarrow> bytes \<Rightarrow> bytes" where
  "packet_symbol sz p = be16_bytes (of_nat (length p)) @ p @ replicate (sz - 2 - length p) 0"

definition symbol_size :: "symbols \<Rightarrow> nat" where
  "symbol_size ps = foldl (\<lambda>m p. max m (length p + 2)) 0 ps"

text \<open>The \<open>while\<close> loop that pays for repair packets.\<close>

fun afford :: "'d double_ops \<Rightarrow> nat \<Rightarrow> int \<Rightarrow> nat \<Rightarrow> nat \<Rightarrow> 'd rate_budget \<Rightarrow> nat \<times> 'd rate_budget" where
  "afford D cost now 0 n b = (n, b)"
| "afford D cost now (Suc left) n b =
     (case Consume D cost now b of (ok, b) \<Rightarrow> if ok then afford D cost now left (Suc n) b else (n, b))"

text \<open>One repair packet: the RTP header of the last packet, the FEC header, the repair symbol.\<close>

definition repair_packet :: "bytes \<Rightarrow> nat \<Rightarrow> u32 \<Rightarrow> nat \<Rightarrow> nat \<Rightarrow> nat \<Rightarrow> nat \<Rightarrow> u32 \<Rightarrow> u16 \<Rightarrow> bytes \<Rightarrow> bytes" where
  "repair_packet lst header repair_ssrc k r i sz ssrc base symbol =
     take 1 lst @ [kRsFecPayloadType] @ be16_bytes 0 @ take 4 (drop 4 lst) @ be32_bytes repair_ssrc @
     drop 12 (take header lst) @
     [0x4d, 0x46, 1, of_nat k, of_nat r, of_nat (k + i)] @ be16_bytes (of_nat sz) @ be32_bytes ssrc @ be16_bytes base @ [0, 0] @
     symbol"

definition repair_count :: "'d double_ops \<Rightarrow> nat \<Rightarrow> nat \<Rightarrow> 'd fec_sender \<Rightarrow> nat" where
  "repair_count D n wire s =
     (let a = fc_source_ratio (sd_config s); b = fc_source_ratio (sd_block_config s); ratio = d_min D a b;
          block_ratio = (if sd_keyframe s \<and> fc_keyframe_priority (sd_block_config s) \<and> d_less D (d_zero D) ratio
                         then d_min D (d_const D 250) (d_add D ratio (d_const D 50)) else ratio)
      in min (min kFecMaxRepairs (d_ceil D (d_mul D (d_of_nat D n) block_ratio)))
             (d_trunc D (d_div D (sd_credit s) (d_of_nat D (wire + 64)))))"

definition Flush :: "openfec \<Rightarrow> bool \<Rightarrow> 'd double_ops \<Rightarrow> u32 \<Rightarrow> int \<Rightarrow> 'd fec_sender \<times> rs_cache \<Rightarrow>
    (symbols \<times> 'd fec_sender \<times> rs_cache) option" where
  "Flush ofc neon D repair_ssrc now st = (case st of (s, cache) \<Rightarrow>
     (if sd_pending s = [] then Some ([], s, cache)
      else
        let pending = sd_pending s; s = s\<lparr>sd_pending := []\<rparr>;
            deadline = sd_first s + min (fc_window (sd_config s)) (fc_window (sd_block_config s)) in
        if now \<ge> deadline then Some ([], s\<lparr>sd_stats := (sd_stats s)\<lparr>st_expired := st_expired (sd_stats s) + 1\<rparr>\<rparr>, cache)
        else
          let sz = symbol_size pending; lst = last pending in
          do { header \<leftarrow> HeaderSize lst;
            let wire = header + kFecHeaderSize + sz in
            if kFecMaxWirePacket < wire then Some ([], s\<lparr>sd_stats := (sd_stats s)\<lparr>st_budget := st_budget (sd_stats s) + 1\<rparr>\<rparr>, cache)
            else
              (case afford D (wire + 64) now (repair_count D (length pending) wire s) 0 (sd_budget s) of (n, budget) \<Rightarrow>
                let s = s\<lparr>sd_budget := budget\<rparr> in
                if n = 0 then Some ([], s\<lparr>sd_stats := (sd_stats s)\<lparr>st_budget := st_budget (sd_stats s) + 1\<rparr>\<rparr>, cache)
                else
                  let sources = map (packet_symbol sz) pending in
                  do { (repairs, cache) \<leftarrow> EncodeSymbols ofc neon cache sources n;
                    case repairs of
                      None \<Rightarrow> Some ([], s\<lparr>sd_stats := (sd_stats s)\<lparr>st_codec := st_codec (sd_stats s) + 1\<rparr>\<rparr>, cache)
                    | Some rs \<Rightarrow>
                        do { ssrc \<leftarrow> rd32 (hd pending) 8; base \<leftarrow> rd16 (hd pending) 2;
                          Some (map (\<lambda>i. repair_packet lst header repair_ssrc (length sources) n i sz ssrc base (rs ! i)) [0..<length rs],
                            s\<lparr>sd_credit := d_sub D (sd_credit s) (d_of_nat D (length rs * (wire + 64))),
                              sd_deadline := (if sd_deadline s < 0 then deadline else min (sd_deadline s) deadline),
                              sd_stats := (sd_stats s)\<lparr>st_repair := st_repair (sd_stats s) + of_nat (length rs)\<rparr>\<rparr>,
                            cache) } }) }))"

definition FlushExpired :: "openfec \<Rightarrow> bool \<Rightarrow> 'd double_ops \<Rightarrow> u32 \<Rightarrow> int \<Rightarrow> 'd fec_sender \<times> rs_cache \<Rightarrow>
    (symbols \<times> 'd fec_sender \<times> rs_cache) option" where
  "FlushExpired ofc neon D repair_ssrc now st = (case st of (s, cache) \<Rightarrow>
     let s = s\<lparr>sd_deadline := -1\<rparr> in
     if sd_pending s = [] \<or> now - sd_first s < 20 then Some ([], s, cache) else Flush ofc neon D repair_ssrc now (s, cache))"

text \<open>Whether a packet does not continue the pending block.\<close>

definition breaks_block :: "bytes \<Rightarrow> bytes \<Rightarrow> int \<Rightarrow> int \<Rightarrow> bool option" where
  "breaks_block lst p now first =
     do { a \<leftarrow> rd32 lst 8; b \<leftarrow> rd32 p 8; c \<leftarrow> rd32 lst 4; d \<leftarrow> rd32 p 4; e \<leftarrow> rd16 lst 2; f \<leftarrow> rd16 p 2;
          Some (a \<noteq> b \<or> c \<noteq> d \<or> e + 1 \<noteq> f \<or> now < first \<or> now - first \<ge> 20) }"

text \<open>The part of \<open>AddPacket\<close> that closes the pending block when the packet does not continue it, and appends the packet.\<close>

definition enqueue_packet :: "openfec \<Rightarrow> bool \<Rightarrow> 'd double_ops \<Rightarrow> bytes \<Rightarrow> u32 \<Rightarrow> int \<Rightarrow> bool \<Rightarrow>
    'd fec_sender \<times> rs_cache \<Rightarrow> (symbols \<times> 'd fec_sender \<times> rs_cache) option" where
  "enqueue_packet ofc neon D p repair_ssrc now keyframe st = (case st of (s, cache) \<Rightarrow>
     do { (out, s, cache) \<leftarrow>
            (if sd_pending s \<noteq> []
             then do { b \<leftarrow> breaks_block (last (sd_pending s)) p now (sd_first s);
                       if b then Flush ofc neon D repair_ssrc now (s, cache) else Some ([], s, cache) }
             else Some ([], s, cache));
          let s = (if sd_pending s = []
                   then s\<lparr>sd_first := now, sd_block_config := sd_config s, sd_keyframe := keyframe\<rparr> else s);
              s = s\<lparr>sd_pending := sd_pending s @ [p]\<rparr> in
          do { m \<leftarrow> rd8 p 1;
            if length (sd_pending s) = kFecMaxSources \<or> m AND 0x80 \<noteq> 0
            then do { (tail, s, cache) \<leftarrow> Flush ofc neon D repair_ssrc now (s, cache); Some (out @ tail, s, cache) }
            else Some (out, s, cache) } })"

definition Sender_AddPacket :: "openfec \<Rightarrow> bool \<Rightarrow> 'd double_ops \<Rightarrow> bytes \<Rightarrow> u32 \<Rightarrow> int \<Rightarrow> bool \<Rightarrow>
    'd fec_sender \<times> rs_cache \<Rightarrow> (symbols \<times> 'd fec_sender \<times> rs_cache) option" where
  "Sender_AddPacket ofc neon D p repair_ssrc now keyframe st = (case st of (s, cache) \<Rightarrow>
     do { header \<leftarrow> HeaderSize p;
       let s = s\<lparr>sd_deadline := -1\<rparr>;
           reject = Some ([], s\<lparr>sd_pending := [], sd_stats := (sd_stats s)\<lparr>st_rejected := st_rejected (sd_stats s) + 1\<rparr>\<rparr>, cache) in
       if header = 0 \<or> kFecMaxMediaPacket < length p \<or> repair_ssrc = 0 then reject
       else do { ssrc \<leftarrow> rd32 p 8;
         if repair_ssrc = ssrc then reject
         else
           let s = s\<lparr>sd_stats := (sd_stats s)\<lparr>st_source := st_source (sd_stats s) + 1\<rparr>\<rparr> in
           if \<not> d_nonzero D (fc_source_ratio (sd_config s)) \<or> fc_fec_bitrate (sd_config s) = 0 then Some ([], s, cache)
           else
             let s = (if sd_last s < 0 \<and> fc_fec_bitrate (sd_config s) \<ge> 0
                      then s\<lparr>sd_budget := SetRate D (fc_fec_bitrate (sd_config s)) now (sd_budget s)\<rparr> else s);
                 s = (if sd_last s \<ge> 0 \<and> (now < sd_last s \<or> now - sd_last s > 1000)
                      then s\<lparr>sd_credit := d_zero D, sd_pending := []\<rparr> else s);
                 s = s\<lparr>sd_last := now,
                       sd_credit := d_min D (d_add D (sd_credit s) (d_mul D (d_of_nat D (length p)) (fc_source_ratio (sd_config s))))
                                            (d_of_nat D 4800)\<rparr> in
             enqueue_packet ofc neon D p repair_ssrc now keyframe (s, cache) } })"

section \<open>Receiver\<close>

text \<open>\<open>std::min_element\<close> of a non-empty range: the first of the least elements.\<close>

fun min_elem :: "('a \<Rightarrow> int) \<Rightarrow> 'a \<Rightarrow> 'a list \<Rightarrow> 'a" where
  "min_elem f best [] = best"
| "min_elem f best (x # xs) = min_elem f (if f x < f best then x else best) xs"

record fec_source =
  so_bytes :: bytes
  so_arrival :: int

record fec_block =
  bl_timestamp :: u32
  bl_base :: u16
  bl_k :: nat
  bl_r :: nat
  bl_size :: nat
  bl_arrival :: int
  bl_done :: bool
  bl_repairs :: symbols
  bl_present :: "bool list"

record fec_receiver =
  rc_media_ssrc :: u32
  rc_repair_ssrc :: u32
  rc_media_pt :: u8
  rc_sources :: "(u16 \<times> fec_source) list"
  rc_blocks :: "((u32 \<times> u16) \<times> fec_block) list"
  rc_stats :: fec_stats
  rc_decoder :: fec_decoder

definition fec_receiver_init :: "u32 \<Rightarrow> u32 \<Rightarrow> u8 \<Rightarrow> fec_receiver" where
  "fec_receiver_init media_ssrc repair_ssrc media_pt =
     \<lparr>rc_media_ssrc = media_ssrc, rc_repair_ssrc = repair_ssrc, rc_media_pt = media_pt, rc_sources = [], rc_blocks = [],
      rc_stats = fec_stats_init, rc_decoder = None\<rparr>"

definition stale :: "int \<Rightarrow> int \<Rightarrow> bool" where
  "stale now arrival \<longleftrightarrow> now < arrival \<or> now - arrival \<ge> kFecWindowMs"

definition Expire :: "int \<Rightarrow> fec_receiver \<Rightarrow> fec_receiver" where
  "Expire now rc =
     (let dead = filter (\<lambda>(k, b). stale now (bl_arrival b) \<and> \<not> bl_done b) (rc_blocks rc) in
      rc\<lparr>rc_sources := filter (\<lambda>(k, e). \<not> stale now (so_arrival e)) (rc_sources rc),
         rc_blocks := filter (\<lambda>(k, b). \<not> stale now (bl_arrival b)) (rc_blocks rc),
         rc_stats := (rc_stats rc)\<lparr>st_expired := st_expired (rc_stats rc) + of_nat (length dead)\<rparr>\<rparr>)"

definition Cache :: "bytes \<Rightarrow> int \<Rightarrow> fec_receiver \<Rightarrow> fec_receiver option" where
  "Cache packet now rc =
     do { seq \<leftarrow> rd16 packet 2;
       if map_of (rc_sources rc) seq \<noteq> None then Some rc
       else
         let src = rc_sources rc;
             src = (if 512 \<le> length src then omap_erase (fst (min_elem (\<lambda>e. so_arrival (snd e)) (hd src) (tl src))) src else src)
         in Some (rc\<lparr>rc_sources := omap_insert seq \<lparr>so_bytes = packet, so_arrival = now\<rparr> src\<rparr>) }"

definition reject :: "fec_receiver \<Rightarrow> fec_receiver" where
  "reject rc = rc\<lparr>rc_stats := (rc_stats rc)\<lparr>st_rejected := st_rejected (rc_stats rc) + 1\<rparr>\<rparr>"

definition codec_error :: "fec_receiver \<Rightarrow> fec_receiver" where
  "codec_error rc = rc\<lparr>rc_stats := (rc_stats rc)\<lparr>st_codec := st_codec (rc_stats rc) + 1\<rparr>\<rparr>"

text \<open>The cached sources of a block; the inner \<^const>\<open>None\<close> is a source that does not fit the symbol size.\<close>

fun collect :: "(u16 \<times> fec_source) list \<Rightarrow> fec_block \<Rightarrow> nat list \<Rightarrow> bytes option list option option" where
  "collect src b [] = Some (Some [])"
| "collect src b (i # js) =
     (case map_of src (bl_base b + of_nat i) of
        None \<Rightarrow> do { rest \<leftarrow> collect src b js; Some (map_option (\<lambda>xs. None # xs) rest) }
      | Some e \<Rightarrow>
          do { ts \<leftarrow> rd32 (so_bytes e) 4;
               if ts \<noteq> bl_timestamp b then do { rest \<leftarrow> collect src b js; Some (map_option (\<lambda>xs. None # xs) rest) }
               else if bl_size b < length (so_bytes e) + 2 then Some None
               else do { rest \<leftarrow> collect src b js; Some (map_option (\<lambda>xs. Some (so_bytes e) # xs) rest) } })"

fun feed_sources :: "openfec \<Rightarrow> bool \<Rightarrow> nat \<Rightarrow> (nat \<times> bytes option) list \<Rightarrow> fec_decoder \<times> rs_cache \<Rightarrow>
    (fec_decoder \<times> rs_cache) option" where
  "feed_sources ofc neon sz [] st = Some st"
| "feed_sources ofc neon sz ((i, None) # xs) st = feed_sources ofc neon sz xs st"
| "feed_sources ofc neon sz ((i, Some p) # xs) (dec, cache) =
     do { (res, dec, cache) \<leftarrow> AddSymbol ofc neon cache i (Some (packet_symbol sz p)) sz dec;
          feed_sources ofc neon sz xs (dec, cache) }"

fun feed_repairs :: "openfec \<Rightarrow> bool \<Rightarrow> fec_block \<Rightarrow> nat list \<Rightarrow> fec_decoder \<times> rs_cache \<Rightarrow>
    (fec_decoder \<times> rs_cache) option" where
  "feed_repairs ofc neon b [] st = Some st"
| "feed_repairs ofc neon b (i # js) (dec, cache) =
     (if Decoder_Complete dec then Some (dec, cache)
      else if bl_present b ! i
      then do { (res, dec, cache) \<leftarrow> AddSymbol ofc neon cache (bl_k b + i) (Some (bl_repairs b ! i)) (bl_size b) dec;
                feed_repairs ofc neon b js (dec, cache) }
      else feed_repairs ofc neon b js (dec, cache))"

text \<open>The restored packets; the inner \<^const>\<open>None\<close> is a symbol that is no packet of the block.\<close>

fun restore_packets :: "fec_receiver \<Rightarrow> fec_block \<Rightarrow> symbols \<Rightarrow> (nat \<times> bytes option) list \<Rightarrow> symbols option option" where
  "restore_packets rc b syms [] = Some (Some [])"
| "restore_packets rc b syms ((i, Some _) # xs) = restore_packets rc b syms xs"
| "restore_packets rc b syms ((i, None) # xs) =
     do { len \<leftarrow> rd16 (syms ! i) 0;
          if bl_size b - 2 < unat len then Some None
          else let p = take (unat len) (drop 2 (syms ! i)) in
            do { h \<leftarrow> HeaderSize p;
              if h = 0 then Some None
              else do { ssrc \<leftarrow> rd32 p 8; ts \<leftarrow> rd32 p 4; seq \<leftarrow> rd16 p 2; m \<leftarrow> rd8 p 1;
                if ssrc \<noteq> rc_media_ssrc rc \<or> ts \<noteq> bl_timestamp b \<or> seq \<noteq> bl_base b + of_nat i \<or> m AND 127 \<noteq> rc_media_pt rc
                then Some None
                else do { rest \<leftarrow> restore_packets rc b syms xs; Some (map_option (\<lambda>ps. p # ps) rest) } } } }"

definition TryDecode :: "openfec \<Rightarrow> bool \<Rightarrow> fec_block \<Rightarrow> fec_receiver \<times> rs_cache \<Rightarrow>
    (symbols \<times> fec_block \<times> fec_receiver \<times> rs_cache) option" where
  "TryDecode ofc neon b st = (case st of (rc, cache) \<Rightarrow>
     if bl_done b then Some ([], b, rc, cache)
     else do { found \<leftarrow> collect (rc_sources rc) b [0..<bl_k b];
       case found of
         None \<Rightarrow> Some ([], b\<lparr>bl_done := True\<rparr>, reject rc, cache)
       | Some present \<Rightarrow>
           let have = length (filter (\<lambda>x. x \<noteq> None) present) in
           if have = bl_k b then Some ([], b\<lparr>bl_done := True, bl_repairs := []\<rparr>, rc, cache)
           else if have + length (filter (\<lambda>x. x) (bl_present b)) < bl_k b then Some ([], b, rc, cache)
           else
             (case Decoder_Reset ofc (bl_k b) (bl_r b) (bl_size b) (rc_decoder rc) of (ok, dec) \<Rightarrow>
                let rc = rc\<lparr>rc_decoder := dec\<rparr>; b' = b\<lparr>bl_done := True\<rparr> in
                if \<not> ok then Some ([], b', codec_error rc, cache)
                else do { (dec, cache) \<leftarrow> feed_sources ofc neon (bl_size b) (zip [0..<bl_k b] present) (dec, cache);
                  (dec, cache) \<leftarrow> feed_repairs ofc neon b [0..<bl_r b] (dec, cache);
                  let b' = b'\<lparr>bl_repairs := []\<rparr>; rc = rc\<lparr>rc_decoder := dec\<rparr> in
                  if \<not> Decoder_Complete dec then Some ([], b', codec_error rc, cache)
                  else do { res \<leftarrow> restore_packets rc b (Symbols dec) (zip [0..<bl_k b] present);
                    case res of
                      None \<Rightarrow> Some ([], b', reject rc, cache)
                    | Some ps \<Rightarrow>
                        Some (ps, b', rc\<lparr>rc_stats := (rc_stats rc)\<lparr>st_recovered := st_recovered (rc_stats rc) + of_nat (length ps)\<rparr>\<rparr>,
                              cache) } }) })"

fun try_blocks :: "openfec \<Rightarrow> bool \<Rightarrow> ('k \<times> fec_block) list \<Rightarrow> fec_receiver \<times> rs_cache \<Rightarrow>
    (symbols \<times> ('k \<times> fec_block) list \<times> fec_receiver \<times> rs_cache) option" where
  "try_blocks ofc neon [] (rc, cache) = Some ([], [], rc, cache)"
| "try_blocks ofc neon ((k, b) # bs) (rc, cache) =
     do { (ps, b, rc, cache) \<leftarrow> TryDecode ofc neon b (rc, cache);
          (qs, bs, rc, cache) \<leftarrow> try_blocks ofc neon bs (rc, cache);
          Some (ps @ qs, (k, b) # bs, rc, cache) }"

fun cache_all :: "int \<Rightarrow> symbols \<Rightarrow> fec_receiver \<Rightarrow> fec_receiver option" where
  "cache_all now [] rc = Some rc"
| "cache_all now (p # ps) rc = do { rc \<leftarrow> Cache p now rc; cache_all now ps rc }"

text \<open>The fields of the FEC header at \<open>h\<close> and the tests on them.\<close>

record fec_header =
  fh_k :: nat
  fh_r :: nat
  fh_id :: nat
  fh_size :: nat
  fh_base :: u16

definition parse_fec_header :: "u32 \<Rightarrow> bytes \<Rightarrow> nat \<Rightarrow> fec_header option option" where
  "parse_fec_header media_ssrc p header =
     do { m0 \<leftarrow> rd8 p header; m1 \<leftarrow> rd8 p (header + 1); v \<leftarrow> rd8 p (header + 2); k \<leftarrow> rd8 p (header + 3);
          r \<leftarrow> rd8 p (header + 4); sid \<leftarrow> rd8 p (header + 5); sz \<leftarrow> rd16 p (header + 6); ssrc \<leftarrow> rd32 p (header + 8);
          base \<leftarrow> rd16 p (header + 12); z0 \<leftarrow> rd8 p (header + 14); z1 \<leftarrow> rd8 p (header + 15);
          let h = \<lparr>fh_k = unat k, fh_r = unat r, fh_id = unat sid, fh_size = unat sz, fh_base = base\<rparr> in
          Some (if m0 \<noteq> 0x4d \<or> m1 \<noteq> 0x46 \<or> v \<noteq> 1 \<or> z0 \<noteq> 0 \<or> z1 \<noteq> 0 \<or> k = 0 \<or> kFecMaxSources < fh_k h \<or>
                   r = 0 \<or> kFecMaxRepairs < fh_r h \<or> fh_id h < fh_k h \<or> fh_k h + fh_r h \<le> fh_id h \<or>
                   fh_size h < 14 \<or> kFecMaxMediaPacket + 2 < fh_size h \<or>
                   length p - header - kFecHeaderSize \<noteq> fh_size h \<or> ssrc \<noteq> media_ssrc
                then None else Some h) }"

text \<open>The block of a repair packet, created when it is new; the oldest block makes room.\<close>

definition find_block :: "int \<Rightarrow> u32 \<times> u16 \<Rightarrow> fec_header \<Rightarrow> fec_receiver \<Rightarrow> fec_receiver" where
  "find_block now key h rc =
     (if map_of (rc_blocks rc) key \<noteq> None then rc
      else
        let rc = (if 64 \<le> length (rc_blocks rc)
                  then let (k, b) = min_elem (\<lambda>e. bl_arrival (snd e)) (hd (rc_blocks rc)) (tl (rc_blocks rc)) in
                    rc\<lparr>rc_blocks := omap_erase k (rc_blocks rc),
                       rc_stats := (if \<not> bl_done b then (rc_stats rc)\<lparr>st_expired := st_expired (rc_stats rc) + 1\<rparr> else rc_stats rc)\<rparr>
                  else rc)
        in rc\<lparr>rc_blocks := omap_insert key
               \<lparr>bl_timestamp = fst key, bl_base = snd key, bl_k = fh_k h, bl_r = fh_r h, bl_size = fh_size h, bl_arrival = now,
                bl_done = False, bl_repairs = replicate (fh_r h) [], bl_present = replicate (fh_r h) False\<rparr>
               (rc_blocks rc)\<rparr>)"

definition add_repair :: "openfec \<Rightarrow> bool \<Rightarrow> int \<Rightarrow> u32 \<Rightarrow> fec_header \<Rightarrow> bytes \<Rightarrow> fec_receiver \<times> rs_cache \<Rightarrow>
    (symbols \<times> fec_receiver \<times> rs_cache) option" where
  "add_repair ofc neon now ts h symbol st = (case st of (rc, cache) \<Rightarrow>
     let key = (ts, fh_base h); rc = find_block now key h rc in
     (case map_of (rc_blocks rc) key of
        None \<Rightarrow> None
      | Some b \<Rightarrow>
          if bl_k b \<noteq> fh_k h \<or> bl_r b \<noteq> fh_r h \<or> bl_size b \<noteq> fh_size h then Some ([], reject rc, cache)
          else if bl_done b \<or> bl_present b ! (fh_id h - fh_k h) then Some ([], rc, cache)
          else
            let i = fh_id h - fh_k h;
                b = b\<lparr>bl_repairs := (bl_repairs b)[i := symbol], bl_present := (bl_present b)[i := True]\<rparr>;
                rc = rc\<lparr>rc_stats := (rc_stats rc)\<lparr>st_repair := st_repair (rc_stats rc) + 1\<rparr>\<rparr>
            in do { (ps, b, rc, cache) \<leftarrow> TryDecode ofc neon b (rc, cache);
                    rc \<leftarrow> cache_all now ps (rc\<lparr>rc_blocks := omap_insert key b (rc_blocks rc)\<rparr>);
                    Some (ps, rc, cache) }))"

definition Receiver_AddPacket :: "openfec \<Rightarrow> bool \<Rightarrow> bytes \<Rightarrow> int \<Rightarrow> fec_receiver \<times> rs_cache \<Rightarrow>
    (symbols \<times> fec_receiver \<times> rs_cache) option" where
  "Receiver_AddPacket ofc neon p now st = (case st of (rc, cache) \<Rightarrow>
     let rc = Expire now rc in
     do { header \<leftarrow> HeaderSize p;
       if header = 0 \<or> kFecMaxWirePacket < length p then Some ([], reject rc, cache)
       else do { m \<leftarrow> rd8 p 1; ssrc \<leftarrow> rd32 p 8; ts \<leftarrow> rd32 p 4;
         if m AND 127 = rc_media_pt rc \<and> ssrc = rc_media_ssrc rc \<and> length p \<le> kFecMaxMediaPacket
         then do { rc \<leftarrow> Cache p now (rc\<lparr>rc_stats := (rc_stats rc)\<lparr>st_source := st_source (rc_stats rc) + 1\<rparr>\<rparr>);
                   (ps, bs, rc, cache) \<leftarrow> try_blocks ofc neon (rc_blocks rc) (rc, cache);
                   rc \<leftarrow> cache_all now ps (rc\<lparr>rc_blocks := bs\<rparr>);
                   Some (ps, rc, cache) }
         else if m AND 127 = kRsFecPayloadType \<and> ssrc = rc_repair_ssrc rc \<and> kFecHeaderSize \<le> length p - header
         then do { h \<leftarrow> parse_fec_header (rc_media_ssrc rc) p header;
                   case h of None \<Rightarrow> Some ([], reject rc, cache)
                   | Some h \<Rightarrow> add_repair ofc neon now ts h (drop (header + kFecHeaderSize) p) (rc, cache) }
         else Some ([], reject rc, cache) } })"

lemma min_elem_in: "min_elem f best xs \<in> insert best (set xs)"
  by (induction xs arbitrary: best) (auto split: if_splits)

section \<open>Packets\<close>

lemma HeaderSize_total: "\<exists>h. HeaderSize p = Some h \<and> (h \<noteq> 0 \<longrightarrow> 12 \<le> h \<and> h < length p)"
proof (cases "length p < 12")
  case False
  let ?h = "12 + 4 * unat (p ! 0 AND 15)"
  have "\<exists>w. rd16 p (?h + 2) = Some w" if "\<not> length p < ?h" "\<not> length p - ?h < 4"
    using that rd16_None_iff [of p "?h + 2"] by (cases "rd16 p (?h + 2)") auto
  moreover have "rd8 p 0 = Some (p ! 0)" using False by (intro rd8_in) auto
  ultimately show ?thesis using False by (auto simp: HeaderSize_def Let_def)
qed (simp add: HeaderSize_def)

lemma rd_ok: "12 \<le> length p \<Longrightarrow> \<exists>m ssrc ts seq. rd8 p 1 = Some m \<and> rd32 p 8 = Some ssrc \<and> rd32 p 4 = Some ts \<and> rd16 p 2 = Some seq"
  using rd16_None_iff [of p 2] rd32_None_iff [of p 4] rd32_None_iff [of p 8]
  by (cases "rd16 p 2"; cases "rd32 p 4"; cases "rd32 p 8") auto

text \<open>A packet of the media stream, as the receiver accepts it.\<close>

definition media_packet :: "u32 \<Rightarrow> u8 \<Rightarrow> bytes \<Rightarrow> bool" where
  "media_packet ssrc pt p \<longleftrightarrow> (\<exists>h m. HeaderSize p = Some h \<and> h \<noteq> 0 \<and> length p \<le> kFecMaxMediaPacket \<and> rd32 p 8 = Some ssrc \<and>
     rd8 p 1 = Some m \<and> m AND 127 = pt)"

lemma media_packet_length: "media_packet ssrc pt p \<Longrightarrow> 12 < length p"
  using HeaderSize_total [of p] by (auto simp: media_packet_def)

section \<open>The receiver's invariant\<close>

definition source_ok :: "u32 \<Rightarrow> u8 \<Rightarrow> u16 \<times> fec_source \<Rightarrow> bool" where
  "source_ok ssrc pt e \<longleftrightarrow> media_packet ssrc pt (so_bytes (snd e)) \<and> rd16 (so_bytes (snd e)) 2 = Some (fst e)"

definition block_ok :: "fec_block \<Rightarrow> bool" where
  "block_ok b \<longleftrightarrow> SupportsSmallRs (bl_k b) (bl_r b) \<and> 14 \<le> bl_size b \<and> bl_size b \<le> kFecMaxMediaPacket + 2 \<and>
     length (bl_present b) = bl_r b \<and>
     (\<not> bl_done b \<longrightarrow> length (bl_repairs b) = bl_r b \<and> (\<forall>i < bl_r b. bl_present b ! i \<longrightarrow> length (bl_repairs b ! i) = bl_size b))"

definition rc_inv :: "u32 \<Rightarrow> u8 \<Rightarrow> fec_receiver \<Rightarrow> bool" where
  "rc_inv ssrc pt rc \<longleftrightarrow> rc_media_ssrc rc = ssrc \<and> rc_media_pt rc = pt \<and>
     ordered (rc_sources rc) \<and> length (rc_sources rc) \<le> 512 \<and> (\<forall>e \<in> set (rc_sources rc). source_ok ssrc pt e) \<and>
     ordered (rc_blocks rc) \<and> length (rc_blocks rc) \<le> 64 \<and> (\<forall>e \<in> set (rc_blocks rc). block_ok (snd e))"

lemma inv_Expire: "rc_inv ssrc pt rc \<Longrightarrow> rc_inv ssrc pt (Expire now rc)"
  unfolding rc_inv_def Expire_def Let_def
  by (auto simp: ordered_filter intro: order_trans [OF length_filter_le])

lemma inv_reject: "rc_inv ssrc pt rc \<Longrightarrow> rc_inv ssrc pt (reject rc)"
  by (simp add: rc_inv_def reject_def)

lemma inv_Cache:
  assumes "rc_inv ssrc pt rc" "media_packet ssrc pt p"
  shows "\<exists>rc'. Cache p now rc = Some rc' \<and> rc_inv ssrc pt rc' \<and> rc_blocks rc' = rc_blocks rc"
proof -
  obtain seq where seq: "rd16 p 2 = Some seq" using rd_ok [of p] media_packet_length [OF assms(2)] by auto
  define src where "src = (let src = rc_sources rc in
    if 512 \<le> length src then omap_erase (fst (min_elem (\<lambda>e. so_arrival (snd e)) (hd src) (tl src))) src else src)"
  have s: "ordered (rc_sources rc)" "length (rc_sources rc) \<le> 512" "\<forall>e \<in> set (rc_sources rc). source_ok ssrc pt e"
    using assms(1) by (auto simp: rc_inv_def)
  have "length src < 512" "ordered src" "set src \<subseteq> set (rc_sources rc)"
  proof -
    show "length src < 512"
    proof (cases "512 \<le> length (rc_sources rc)")
      case True
      then have "rc_sources rc \<noteq> []" by auto
      then have "min_elem (\<lambda>e. so_arrival (snd e)) (hd (rc_sources rc)) (tl (rc_sources rc)) \<in> set (rc_sources rc)"
        using min_elem_in by (metis list.simps(15) list.collapse)
      then show ?thesis using s(2) True length_erase unfolding src_def Let_def by fastforce
    qed (simp add: src_def Let_def)
  qed (use s(1) in \<open>auto simp: src_def Let_def omap_erase_def ordered_filter\<close>)
  then have "ordered (omap_insert seq e src)" "length (omap_insert seq e src) \<le> 512"
      "set (omap_insert seq e src) \<subseteq> insert (seq, e) (set (rc_sources rc))" for e
    using ordered_insert length_omap_insert [of seq e src] set_omap_insert [of src seq e] by auto
  moreover have "source_ok ssrc pt (seq, \<lparr>so_bytes = p, so_arrival = now\<rparr>)" using assms(2) seq by (simp add: source_ok_def)
  moreover from calculation have "\<forall>x \<in> set (omap_insert seq \<lparr>so_bytes = p, so_arrival = now\<rparr> src). source_ok ssrc pt x"
    using s(3) by blast
  ultimately have "rc_inv ssrc pt (rc\<lparr>rc_sources := omap_insert seq \<lparr>so_bytes = p, so_arrival = now\<rparr> src\<rparr>)"
    using assms(1) unfolding rc_inv_def by simp
  then show ?thesis using assms(1) seq by (auto simp: Cache_def Let_def src_def)
qed

lemma inv_cache_all:
  assumes "rc_inv ssrc pt rc" "\<forall>p \<in> set ps. media_packet ssrc pt p"
  shows "\<exists>rc'. cache_all now ps rc = Some rc' \<and> rc_inv ssrc pt rc' \<and> rc_blocks rc' = rc_blocks rc"
  using assms
proof (induction ps arbitrary: rc)
  case (Cons p ps)
  then obtain rc1 where 1: "Cache p now rc = Some rc1" "rc_inv ssrc pt rc1" "rc_blocks rc1 = rc_blocks rc"
    using inv_Cache [of ssrc pt rc p now] by auto
  then show ?case using Cons.IH [OF 1(2)] Cons.prems(2) by auto
qed simp

text \<open>\<open>TryDecode\<close> on a well-formed block never fails and returns only packets of the stream.\<close>

lemma collect_ok:
  assumes "\<forall>e \<in> set src. source_ok ssrc pt e"
  shows "\<exists>res. collect src b js = Some res \<and> (\<forall>xs. res = Some xs \<longrightarrow> length xs = length js \<and>
    (\<forall>p. Some p \<in> set xs \<longrightarrow> length p + 2 \<le> bl_size b))"
proof (induction js)
  case (Cons i js)
  then obtain res where res: "collect src b js = Some res" "\<And>xs. res = Some xs \<Longrightarrow> length xs = length js \<and>
    (\<forall>p. Some p \<in> set xs \<longrightarrow> length p + 2 \<le> bl_size b)" by auto
  show ?case
  proof (cases "map_of src (bl_base b + of_nat i)")
    case None
    then show ?thesis using res by auto
  next
    case (Some e)
    then have "source_ok ssrc pt (bl_base b + of_nat i, e)" using assms map_of_SomeD by fast
    then have "12 < length (so_bytes e)" using media_packet_length by (auto simp: source_ok_def)
    then obtain ts where "rd32 (so_bytes e) 4 = Some ts" using rd_ok [of "so_bytes e"] by auto
    then show ?thesis using Some res by auto
  qed
qed simp

lemma length_packet_symbol: "length p + 2 \<le> sz \<Longrightarrow> length (packet_symbol sz p) = sz"
  by (simp add: packet_symbol_def)

lemma feed_sources_safe:
  assumes "SupportsSmallRs k r" "dec_safe k r sz s" "\<And>i p. (i, Some p) \<in> set xs \<Longrightarrow> length p + 2 \<le> sz"
  shows "\<exists>s' cache'. feed_sources ofc neon sz xs (Some s, cache) = Some (Some s', cache') \<and> dec_safe k r sz s'"
  using assms
proof (induction xs arbitrary: s cache)
  case (Cons x xs)
  obtain i o' where x: "x = (i, o')" by (cases x)
  show ?case
  proof (cases o')
    case None
    then show ?thesis using Cons x by auto
  next
    case (Some p)
    have "length (packet_symbol sz p) = sz" using Cons.prems(3) [of i p] x Some by (simp add: length_packet_symbol)
    then obtain res s1 c1 where 1: "AddSymbol ofc neon cache i (Some (packet_symbol sz p)) sz (Some s) = Some (res, Some s1, c1)"
        "dec_safe k r sz s1" using AddSymbol_safe [OF Cons.prems(1,2)] by blast
    have "\<exists>s' cache'. feed_sources ofc neon sz xs (Some s1, c1) = Some (Some s', cache') \<and> dec_safe k r sz s'"
      using Cons.prems 1(2) by (intro Cons.IH) auto
    then show ?thesis using 1 x Some by simp
  qed
qed simp

lemma feed_repairs_safe:
  assumes "SupportsSmallRs (bl_k b) (bl_r b)" "dec_safe (bl_k b) (bl_r b) (bl_size b) s"
    "\<And>i. i \<in> set js \<Longrightarrow> bl_present b ! i \<Longrightarrow> length (bl_repairs b ! i) = bl_size b"
  shows "\<exists>s' cache'. feed_repairs ofc neon b js (Some s, cache) = Some (Some s', cache') \<and> dec_safe (bl_k b) (bl_r b) (bl_size b) s'"
  using assms
proof (induction js arbitrary: s cache)
  case (Cons i js)
  show ?case
  proof (cases "Decoder_Complete (Some s) \<or> \<not> bl_present b ! i")
    case True
    then show ?thesis using Cons by auto
  next
    case False
    then have "length (bl_repairs b ! i) = bl_size b" using Cons.prems(3) [of i] by simp
    then obtain res s1 c1 where 1: "AddSymbol ofc neon cache (bl_k b + i) (Some (bl_repairs b ! i)) (bl_size b) (Some s) = Some (res, Some s1, c1)"
        "dec_safe (bl_k b) (bl_r b) (bl_size b) s1" using AddSymbol_safe [OF Cons.prems(1,2)] by blast
    have "\<exists>s' cache'. feed_repairs ofc neon b js (Some s1, c1) = Some (Some s', cache') \<and> dec_safe (bl_k b) (bl_r b) (bl_size b) s'"
      using Cons.prems 1(2) by (intro Cons.IH) auto
    then show ?thesis using 1 False by simp
  qed
qed simp

lemma restore_ok:
  assumes "sized (bl_size b) n syms" "14 \<le> bl_size b" "bl_size b \<le> kFecMaxMediaPacket + 2" "\<And>i o'. (i, o') \<in> set xs \<Longrightarrow> i < n"
  shows "\<exists>res. restore_packets rc b syms xs = Some res \<and>
    (\<forall>ps. res = Some ps \<longrightarrow> (\<forall>p \<in> set ps. media_packet (rc_media_ssrc rc) (rc_media_pt rc) p))"
  using assms(4)
proof (induction xs)
  case (Cons x xs)
  obtain i o' where x: "x = (i, o')" by (cases x)
  obtain res where res: "restore_packets rc b syms xs = Some res"
      "\<forall>ps. res = Some ps \<longrightarrow> (\<forall>p \<in> set ps. media_packet (rc_media_ssrc rc) (rc_media_pt rc) p)"
    using Cons by auto
  show ?case
  proof (cases o')
    case (Some p)
    then show ?thesis using res x by simp
  next
    case None
    have len: "length (syms ! i) = bl_size b" using Cons.prems [of i o'] x assms(1) by (simp add: sized_nth)
    obtain w where w: "rd16 (syms ! i) 0 = Some w"
      using rd16_None_iff [of "syms ! i" 0] len assms(2) by (cases "rd16 (syms ! i) 0") auto
    let ?p = "take (unat w) (drop 2 (syms ! i))"
    obtain h where h: "HeaderSize ?p = Some h" "h \<noteq> 0 \<longrightarrow> 12 \<le> h \<and> h < length ?p" using HeaderSize_total by blast
    show ?thesis
    proof (cases "bl_size b - 2 < unat w \<or> h = 0")
      case True
      then show ?thesis using None x w h by (auto simp: Let_def)
    next
      case False
      then obtain m ssrc ts seq where r: "rd8 ?p 1 = Some m" "rd32 ?p 8 = Some ssrc" "rd32 ?p 4 = Some ts" "rd16 ?p 2 = Some seq"
        using rd_ok [of ?p] h by auto
      have "length ?p \<le> kFecMaxMediaPacket" using False len assms(2,3) by (auto simp: min_def)
      then have "media_packet ssrc (m AND 127) ?p" using h False r by (auto simp: media_packet_def)
      then show ?thesis using None x w h False r res by (auto simp: Let_def)
    qed
  qed
qed simp

lemma rc_inv_frame [simp]:
  "rc_inv ssrc pt (rc\<lparr>rc_stats := st\<rparr>) = rc_inv ssrc pt rc" "rc_inv ssrc pt (rc\<lparr>rc_decoder := dec\<rparr>) = rc_inv ssrc pt rc"
  by (simp_all add: rc_inv_def)

lemma block_ok_done: "block_ok b \<Longrightarrow> block_ok (b\<lparr>bl_done := True\<rparr>)" "block_ok b \<Longrightarrow> block_ok (b\<lparr>bl_done := True, bl_repairs := rs\<rparr>)"
  by (simp_all add: block_ok_def)

lemma TryDecode_safe:
  assumes "rc_inv ssrc pt rc" "block_ok b"
  shows "\<exists>ps b' rc' cache'. TryDecode ofc neon b (rc, cache) = Some (ps, b', rc', cache') \<and> block_ok b' \<and> rc_inv ssrc pt rc' \<and>
    rc_sources rc' = rc_sources rc \<and> rc_blocks rc' = rc_blocks rc \<and> (\<forall>p \<in> set ps. media_packet ssrc pt p)"
proof -
  have rc: "\<forall>e \<in> set (rc_sources rc). source_ok ssrc pt e" "rc_media_ssrc rc = ssrc" "rc_media_pt rc = pt"
    using assms(1) by (auto simp: rc_inv_def)
  obtain found where f: "collect (rc_sources rc) b [0..<bl_k b] = Some found"
      "\<And>xs. found = Some xs \<Longrightarrow> length xs = bl_k b \<and> (\<forall>p. Some p \<in> set xs \<longrightarrow> length p + 2 \<le> bl_size b)"
    using collect_ok [OF rc(1), of b "[0..<bl_k b]"] by auto
  show ?thesis
  proof (cases "bl_done b")
    case True
    then show ?thesis using assms by (simp add: TryDecode_def)
  next
    case nd: False
    show ?thesis
    proof (cases found)
      case None
      then show ?thesis using nd f assms by (simp add: TryDecode_def block_ok_done inv_reject) (simp add: reject_def)
    next
      case (Some xs)
      let ?zs = "zip [0..<bl_k b] xs"
      have xs: "length xs = bl_k b" "\<And>p. Some p \<in> set xs \<Longrightarrow> length p + 2 \<le> bl_size b" using f(2) Some by auto
      have b: "SupportsSmallRs (bl_k b) (bl_r b)" "14 \<le> bl_size b" "bl_size b \<le> kFecMaxMediaPacket + 2"
        "\<And>i. i < bl_r b \<Longrightarrow> bl_present b ! i \<Longrightarrow> length (bl_repairs b ! i) = bl_size b"
        using assms(2) nd by (auto simp: block_ok_def)
      obtain s0 where s0: "Decoder_Reset ofc (bl_k b) (bl_r b) (bl_size b) (rc_decoder rc) = (True, Some s0)"
          "dec_safe (bl_k b) (bl_r b) (bl_size b) s0"
        using Reset_safe [OF b(1), of "bl_size b" ofc "rc_decoder rc"] b(2,3) by (auto simp: kMaxSymbolSize_def kFecMaxMediaPacket_def)
      obtain s1 c1 where s1: "feed_sources ofc neon (bl_size b) ?zs (Some s0, cache) = Some (Some s1, c1)"
          "dec_safe (bl_k b) (bl_r b) (bl_size b) s1"
        using feed_sources_safe [OF b(1) s0(2), of ?zs ofc neon cache] xs(2) by (metis set_zip_rightD)
      obtain s2 c2 where s2: "feed_repairs ofc neon b [0..<bl_r b] (Some s1, c1) = Some (Some s2, c2)"
          "dec_safe (bl_k b) (bl_r b) (bl_size b) s2"
        using feed_repairs_safe [OF b(1) s1(2), of "[0..<bl_r b]" ofc neon c1] b(4) by auto
      let ?rc = "rc\<lparr>rc_decoder := Some s2\<rparr>"
      have "sized (bl_size b) (bl_k b + bl_r b) (Symbols (Some s2))" using s2(2) by (simp add: Symbols_def dec_safe_def)
      moreover have "i < bl_k b + bl_r b" if "(i, x) \<in> set ?zs" for i x using set_zip_leftD [OF that] by simp
      ultimately have "\<exists>res. restore_packets ?rc b (Symbols (Some s2)) ?zs = Some res \<and>
          (\<forall>ps. res = Some ps \<longrightarrow> (\<forall>p \<in> set ps. media_packet (rc_media_ssrc ?rc) (rc_media_pt ?rc) p))"
        by (rule restore_ok [OF _ b(2,3)])
      then obtain res where res: "restore_packets ?rc b (Symbols (Some s2)) ?zs = Some res"
          "\<forall>ps. res = Some ps \<longrightarrow> (\<forall>p \<in> set ps. media_packet ssrc pt p)"
        using rc by auto
      show ?thesis
      proof (cases res)
        case None
        then show ?thesis using nd f Some s0 s1 s2 res assms
          by (simp add: TryDecode_def Let_def block_ok_done inv_reject reject_def codec_error_def)
      next
        case (Some ps)
        then show ?thesis using nd f \<open>found = Some xs\<close> s0 s1 s2 res assms
          by (simp add: TryDecode_def Let_def block_ok_done codec_error_def)
      qed
    qed
  qed
qed

lemma try_blocks_safe:
  assumes "rc_inv ssrc pt rc" "\<forall>e \<in> set bs. block_ok (snd e)"
  shows "\<exists>ps bs' rc' cache'. try_blocks ofc neon bs (rc, cache) = Some (ps, bs', rc', cache') \<and> map fst bs' = map fst bs \<and>
    (\<forall>e \<in> set bs'. block_ok (snd e)) \<and> rc_inv ssrc pt rc' \<and> rc_blocks rc' = rc_blocks rc \<and> (\<forall>p \<in> set ps. media_packet ssrc pt p)"
  using assms
proof (induction bs arbitrary: rc cache)
  case (Cons e bs)
  obtain k b where e: "e = (k, b)" by (cases e)
  obtain ps b1 rc1 c1 where 1: "TryDecode ofc neon b (rc, cache) = Some (ps, b1, rc1, c1)" "block_ok b1" "rc_inv ssrc pt rc1"
      "rc_blocks rc1 = rc_blocks rc" "\<forall>p \<in> set ps. media_packet ssrc pt p"
    using TryDecode_safe [OF Cons.prems(1), of b ofc neon cache] Cons.prems(2) e by auto
  obtain qs bs2 rc2 c2 where 2: "try_blocks ofc neon bs (rc1, c1) = Some (qs, bs2, rc2, c2)" "map fst bs2 = map fst bs"
      "\<forall>e \<in> set bs2. block_ok (snd e)" "rc_inv ssrc pt rc2" "rc_blocks rc2 = rc_blocks rc1" "\<forall>p \<in> set qs. media_packet ssrc pt p"
    using Cons.IH [OF 1(3), of c1] Cons.prems(2) by auto
  show ?case using 1 2 e by auto
qed simp

lemma inv_blocks:
  assumes "rc_inv ssrc pt rc" "ordered bs" "length bs \<le> 64" "\<forall>e \<in> set bs. block_ok (snd e)"
  shows "rc_inv ssrc pt (rc\<lparr>rc_blocks := bs\<rparr>)"
  using assms by (simp add: rc_inv_def)

lemma parse_header_ok:
  assumes "header + kFecHeaderSize \<le> length p"
  shows "\<exists>res. parse_fec_header media_ssrc p header = Some res \<and> (\<forall>h. res = Some h \<longrightarrow>
    SupportsSmallRs (fh_k h) (fh_r h) \<and> 14 \<le> fh_size h \<and> fh_size h \<le> kFecMaxMediaPacket + 2 \<and>
    fh_k h \<le> fh_id h \<and> fh_id h < fh_k h + fh_r h \<and> length p = header + kFecHeaderSize + fh_size h)"
proof -
  have len: "header + 16 \<le> length p" using assms by (simp add: kFecHeaderSize_def)
  define k r i z where kriz: "k = p ! (header + 3)" "r = p ! (header + 4)" "i = p ! (header + 5)"
    "z = be16_of (p ! (header + 6)) (p ! (header + 6 + 1))"
  have rd: "rd16 p (header + 6) = Some z" "\<exists>ssrc. rd32 p (header + 8) = Some ssrc" "\<exists>b. rd16 p (header + 12) = Some b"
    using len by (simp_all add: rd16_in rd32_in kriz)
  have z: "k \<noteq> 0 \<Longrightarrow> unat k \<noteq> 0" "r \<noteq> 0 \<Longrightarrow> unat r \<noteq> 0" by (simp_all add: unat_eq_0)
  show ?thesis
    using len rd z by (auto simp: parse_fec_header_def Let_def SupportsSmallRs_def kFecMaxSources_def kFecMaxRepairs_def
        kRsSmallMaxSources_def kRsSmallMaxRepairs_def kFecHeaderSize_def kriz(1-3) [symmetric])
qed

lemma find_block_ok:
  assumes "rc_inv ssrc pt rc" "SupportsSmallRs (fh_k h) (fh_r h)" "14 \<le> fh_size h" "fh_size h \<le> kFecMaxMediaPacket + 2"
  shows "rc_inv ssrc pt (find_block now key h rc) \<and> (\<exists>b. map_of (rc_blocks (find_block now key h rc)) key = Some b \<and> block_ok b)"
proof (cases "map_of (rc_blocks rc) key")
  case (Some b)
  then have "block_ok b" using assms(1) map_of_SomeD [OF Some] by (auto simp: rc_inv_def)
  then show ?thesis using assms(1) Some by (simp add: find_block_def)
next
  case None
  define nb where "nb = \<lparr>bl_timestamp = fst key, bl_base = snd key, bl_k = fh_k h, bl_r = fh_r h, bl_size = fh_size h, bl_arrival = now,
    bl_done = False, bl_repairs = replicate (fh_r h) [], bl_present = replicate (fh_r h) False\<rparr>"
  define bs where "bs = (if 64 \<le> length (rc_blocks rc)
    then omap_erase (fst (min_elem (\<lambda>e. bl_arrival (snd e)) (hd (rc_blocks rc)) (tl (rc_blocks rc)))) (rc_blocks rc) else rc_blocks rc)"
  have b: "ordered (rc_blocks rc)" "length (rc_blocks rc) \<le> 64" "\<forall>e \<in> set (rc_blocks rc). block_ok (snd e)"
    using assms(1) by (auto simp: rc_inv_def)
  have nb: "block_ok nb" using assms by (simp add: nb_def block_ok_def)
  have bs: "ordered bs" "set bs \<subseteq> set (rc_blocks rc)" using b(1) by (auto simp: bs_def omap_erase_def ordered_filter)
  have "length bs < 64"
  proof (cases "64 \<le> length (rc_blocks rc)")
    case True
    then have "rc_blocks rc \<noteq> []" by auto
    then have "min_elem (\<lambda>e. bl_arrival (snd e)) (hd (rc_blocks rc)) (tl (rc_blocks rc)) \<in> set (rc_blocks rc)"
      using min_elem_in by (metis list.simps(15) list.collapse)
    then show ?thesis using b(2) True length_erase unfolding bs_def by fastforce
  qed (simp add: bs_def)
  then have ins: "ordered (omap_insert key nb bs)" "length (omap_insert key nb bs) \<le> 64" "map_of (omap_insert key nb bs) key = Some nb"
    using ordered_insert [OF bs(1)] length_omap_insert [of key nb bs] map_of_omap_insert [OF bs(1)] by auto
  have ok: "block_ok (snd e)" if "e \<in> set (omap_insert key nb bs)" for e
    using that bs(2) b(3) nb unfolding set_omap_insert [OF bs(1)] by auto
  have "\<exists>st. find_block now key h rc = rc\<lparr>rc_stats := st, rc_blocks := omap_insert key nb bs\<rparr>"
  proof (cases "64 \<le> length (rc_blocks rc)")
    case True
    then show ?thesis using None
      by (auto simp: find_block_def Let_def nb_def bs_def case_prod_beta intro!: exI fec_receiver.equality)
  next
    case False
    then show ?thesis using None by (auto simp: find_block_def Let_def nb_def bs_def intro!: exI [of _ "rc_stats rc"])
  qed
  then obtain st where "find_block now key h rc = rc\<lparr>rc_stats := st, rc_blocks := omap_insert key nb bs\<rparr>" ..
  then show ?thesis using ins ok assms(1) nb by (simp add: inv_blocks)
qed

lemma add_repair_safe:
  assumes "rc_inv ssrc pt rc" "SupportsSmallRs (fh_k h) (fh_r h)" "14 \<le> fh_size h" "fh_size h \<le> kFecMaxMediaPacket + 2"
    "fh_k h \<le> fh_id h" "fh_id h < fh_k h + fh_r h" "length symbol = fh_size h"
  shows "\<exists>ps rc' cache'. add_repair ofc neon now ts h symbol (rc, cache) = Some (ps, rc', cache') \<and> rc_inv ssrc pt rc' \<and>
    (\<forall>p \<in> set ps. media_packet ssrc pt p)"
proof -
  let ?key = "(ts, fh_base h)" let ?rc = "find_block now ?key h rc" let ?i = "fh_id h - fh_k h"
  obtain b where b: "rc_inv ssrc pt ?rc" "map_of (rc_blocks ?rc) ?key = Some b" "block_ok b"
    using find_block_ok [OF assms(1-4), of now ?key] by blast
  show ?thesis
  proof (cases "bl_k b \<noteq> fh_k h \<or> bl_r b \<noteq> fh_r h \<or> bl_size b \<noteq> fh_size h \<or> bl_done b \<or> bl_present b ! ?i")
    case True
    then show ?thesis using b(1,2) inv_reject [OF b(1)] by (auto simp: add_repair_def Let_def)
  next
    case False
    let ?b = "b\<lparr>bl_repairs := (bl_repairs b)[?i := symbol], bl_present := (bl_present b)[?i := True]\<rparr>"
    let ?rc2 = "?rc\<lparr>rc_stats := (rc_stats ?rc)\<lparr>st_repair := st_repair (rc_stats ?rc) + 1\<rparr>\<rparr>"
    have "block_ok ?b" using b(3) False assms(5-7) by (auto simp: block_ok_def nth_list_update)
    moreover have "rc_inv ssrc pt ?rc2" using b(1) by simp
    ultimately obtain ps b3 rc3 c3 where 3: "TryDecode ofc neon ?b (?rc2, cache) = Some (ps, b3, rc3, c3)" "block_ok b3"
        "rc_inv ssrc pt rc3" "rc_blocks rc3 = rc_blocks ?rc" "\<forall>p \<in> set ps. media_packet ssrc pt p"
      using TryDecode_safe [of ssrc pt ?rc2 ?b ofc neon cache] by auto
    let ?bs = "omap_insert ?key b3 (rc_blocks rc3)"
    have o: "ordered (rc_blocks rc3)" "length (rc_blocks rc3) \<le> 64" "\<forall>e \<in> set (rc_blocks rc3). block_ok (snd e)"
      using 3(3) by (auto simp: rc_inv_def)
    have "length ?bs \<le> 64" using length_omap_update [OF o(1)] b(2) 3(4) o(2) by simp
    then have "rc_inv ssrc pt (rc3\<lparr>rc_blocks := ?bs\<rparr>)"
      using 3(2,3) o ordered_insert [OF o(1)] set_omap_insert [OF o(1), of ?key b3] by (intro inv_blocks) auto
    then obtain rc4 where "cache_all now ps (rc3\<lparr>rc_blocks := ?bs\<rparr>) = Some rc4" "rc_inv ssrc pt rc4"
      using inv_cache_all 3(5) by blast
    then show ?thesis using False b(2) 3(1,5) by (auto simp: add_repair_def Let_def)
  qed
qed

lemma Receiver_AddPacket_safe:
  assumes "rc_inv ssrc pt rc"
  shows "\<exists>ps rc' cache'. Receiver_AddPacket ofc neon p now (rc, cache) = Some (ps, rc', cache') \<and> rc_inv ssrc pt rc' \<and>
    (\<forall>p \<in> set ps. media_packet ssrc pt p)"
proof -
  let ?rc = "Expire now rc"
  have inv: "rc_inv ssrc pt ?rc" using assms by (rule inv_Expire)
  have const: "rc_media_ssrc ?rc = ssrc" "rc_media_pt ?rc = pt" using inv by (auto simp: rc_inv_def)
  obtain h where h: "HeaderSize p = Some h" "h \<noteq> 0 \<longrightarrow> 12 \<le> h \<and> h < length p" using HeaderSize_total by blast
  show ?thesis
  proof (cases "h = 0 \<or> kFecMaxWirePacket < length p")
    case True
    then show ?thesis using h inv_reject [OF inv] by (simp add: Receiver_AddPacket_def Let_def)
  next
    case False
    then obtain m s ts seq where r: "rd8 p 1 = Some m" "rd32 p 8 = Some s" "rd32 p 4 = Some ts" "rd16 p 2 = Some seq"
      using rd_ok [of p] h by auto
    consider (media) "m AND 127 = pt" "s = ssrc" "length p \<le> kFecMaxMediaPacket"
      | (repair) "\<not> (m AND 127 = pt \<and> s = ssrc \<and> length p \<le> kFecMaxMediaPacket)"
          "m AND 127 = kRsFecPayloadType" "s = rc_repair_ssrc ?rc" "kFecHeaderSize \<le> length p - h"
      | (other) "\<not> (m AND 127 = pt \<and> s = ssrc \<and> length p \<le> kFecMaxMediaPacket)"
          "\<not> (m AND 127 = kRsFecPayloadType \<and> s = rc_repair_ssrc ?rc \<and> kFecHeaderSize \<le> length p - h)"
      by blast
    then show ?thesis
    proof cases
      case media
      let ?rc1 = "?rc\<lparr>rc_stats := (rc_stats ?rc)\<lparr>st_source := st_source (rc_stats ?rc) + 1\<rparr>\<rparr>"
      have "media_packet ssrc pt p" using media r h False by (auto simp: media_packet_def)
      moreover have "rc_inv ssrc pt ?rc1" using inv by simp
      ultimately obtain rc2 where 2: "Cache p now ?rc1 = Some rc2" "rc_inv ssrc pt rc2" using inv_Cache by blast
      have b2: "\<forall>e \<in> set (rc_blocks rc2). block_ok (snd e)" "ordered (rc_blocks rc2)" "length (rc_blocks rc2) \<le> 64"
        using 2(2) by (auto simp: rc_inv_def)
      obtain ps bs rc3 c3 where 3: "try_blocks ofc neon (rc_blocks rc2) (rc2, cache) = Some (ps, bs, rc3, c3)"
          "map fst bs = map fst (rc_blocks rc2)" "\<forall>e \<in> set bs. block_ok (snd e)" "rc_inv ssrc pt rc3" "\<forall>p \<in> set ps. media_packet ssrc pt p"
        using try_blocks_safe [OF 2(2) b2(1), of ofc neon cache] by auto
      have "length bs \<le> 64" using 3(2) b2(3) by (metis length_map)
      then have "rc_inv ssrc pt (rc3\<lparr>rc_blocks := bs\<rparr>)" using 3 b2(2) by (intro inv_blocks) auto
      then obtain rc4 where "cache_all now ps (rc3\<lparr>rc_blocks := bs\<rparr>) = Some rc4" "rc_inv ssrc pt rc4"
        using inv_cache_all 3(5) by blast
      then show ?thesis using False media r h const 2(1) 3(1,5) by (simp add: Receiver_AddPacket_def Let_def)
    next
      case repair
      have "h + kFecHeaderSize \<le> length p" using repair(4) h(2) False by linarith
      then obtain res where res: "parse_fec_header ssrc p h = Some res" "\<And>fh. res = Some fh \<Longrightarrow>
          SupportsSmallRs (fh_k fh) (fh_r fh) \<and> 14 \<le> fh_size fh \<and> fh_size fh \<le> kFecMaxMediaPacket + 2 \<and>
          fh_k fh \<le> fh_id fh \<and> fh_id fh < fh_k fh + fh_r fh \<and> length p = h + kFecHeaderSize + fh_size fh"
        using parse_header_ok by blast
      show ?thesis
      proof (cases res)
        case None
        then show ?thesis using False repair r h const res(1) inv_reject [OF inv]
          unfolding Receiver_AddPacket_def Let_def by (simp only: prod.case bind.simps if_not_P if_P) auto
      next
        case (Some fh)
        note f = res(2) [OF Some]
        have "length (drop (h + kFecHeaderSize) p) = fh_size fh" using f by simp
        then obtain ps rc' c' where "add_repair ofc neon now ts fh (drop (h + kFecHeaderSize) p) (?rc, cache) = Some (ps, rc', c')"
            "rc_inv ssrc pt rc'" "\<forall>p \<in> set ps. media_packet ssrc pt p"
          using add_repair_safe [OF inv, of fh] f by blast
        then show ?thesis using False repair r h const res(1) Some by (auto simp: Receiver_AddPacket_def Let_def)
      qed
    next
      case other
      then show ?thesis using False r h const inv_reject [OF inv] by (auto simp: Receiver_AddPacket_def Let_def)
    qed
  qed
qed

fun receiver_run :: "openfec \<Rightarrow> bool \<Rightarrow> (bytes \<times> int) list \<Rightarrow> fec_receiver \<times> rs_cache \<Rightarrow>
    (symbols \<times> fec_receiver \<times> rs_cache) option" where
  "receiver_run ofc neon [] (rc, cache) = Some ([], rc, cache)"
| "receiver_run ofc neon ((p, now) # xs) (rc, cache) =
     do { (ps, rc, cache) \<leftarrow> Receiver_AddPacket ofc neon p now (rc, cache);
          (qs, rc, cache) \<leftarrow> receiver_run ofc neon xs (rc, cache);
          Some (ps @ qs, rc, cache) }"

lemma receiver_run_safe:
  "rc_inv ssrc pt rc \<Longrightarrow> \<exists>ps rc' cache'. receiver_run ofc neon xs (rc, cache) = Some (ps, rc', cache') \<and> rc_inv ssrc pt rc' \<and>
    (\<forall>p \<in> set ps. media_packet ssrc pt p)"
proof (induction xs arbitrary: rc cache)
  case (Cons x xs)
  obtain p now where x: "x = (p, now)" by (cases x)
  obtain ps rc1 c1 where 1: "Receiver_AddPacket ofc neon p now (rc, cache) = Some (ps, rc1, c1)" "rc_inv ssrc pt rc1"
      "\<forall>p \<in> set ps. media_packet ssrc pt p"
    using Receiver_AddPacket_safe [OF Cons.prems] by blast
  obtain qs rc2 c2 where "receiver_run ofc neon xs (rc1, c1) = Some (qs, rc2, c2)" "rc_inv ssrc pt rc2"
      "\<forall>p \<in> set qs. media_packet ssrc pt p"
    using Cons.IH [OF 1(2)] by blast
  then show ?case using 1 x by auto
qed simp


end
