(* ===== verification/Rtp_Fec_Sender.thy ===== *)
theory Rtp_Fec_Sender
  imports Rtp_Fec
begin

text \<open>
  What the FEC sender guarantees in every run: it never leaves a packet or a symbol, the packets it collects are
  consecutive packets of one frame, at most fifteen wait at a time, and no repair packet exceeds the wire size.
\<close>

section \<open>Encoding is total\<close>

lemma EncodeSymbols_safe:
  assumes "SupportsSmallRs (length S) n" "S \<noteq> []" "\<And>i. i < length S \<Longrightarrow> length (S ! i) = sz" "0 < sz" "sz \<le> kMaxSymbolSize"
  shows "\<exists>res cache'. EncodeSymbols ofc neon cache S n = Some (res, cache') \<and>
    (\<forall>R. res = Some R \<longrightarrow> length R = n \<and> (\<forall>i < n. length (R ! i) = sz))"
proof -
  have hd: "length (hd S) = sz" using assms(2) assms(3) [of 0] by (simp add: hd_conv_nth)
  have all: "list_all (\<lambda>s. length s = sz) S" using assms(3) by (simp add: list_all_length)
  have small: "length S \<le> 16" "n \<le> 4" "n \<noteq> 0" using assms(1) by (auto simp: SupportsSmallRs_def kRsSmallMaxSources_def kRsSmallMaxRepairs_def)
  have e: "EncodeSymbols ofc neon cache S n = EncodeSmallRs ofc neon cache S n"
    using assms hd all small by (auto simp: EncodeSymbols_def Let_def kMaxSymbols_def)
  have "Matrix ofc cache (length S) n \<noteq> None"
    using assms(1) by (auto simp: Matrix_def SupportsSmallRs_def split: option.split)
  then obtain m c where m: "Matrix ofc cache (length S) n = Some (m, c)" by auto
  show ?thesis
  proof (cases m)
    case None
    then show ?thesis using m e by (simp add: EncodeSmallRs_def)
  next
    case (Some rs)
    then show ?thesis using EncodeSmallRs_eq [of ofc cache S n rs c sz neon] m e assms by simp
  qed
qed

section \<open>Collected packets\<close>

definition sendable :: "bytes \<Rightarrow> bool" where
  "sendable p \<longleftrightarrow> (\<exists>h. HeaderSize p = Some h \<and> h \<noteq> 0) \<and> length p \<le> kFecMaxMediaPacket"

text \<open>The successor of a packet in its frame.\<close>

definition continues :: "bytes \<Rightarrow> bytes \<Rightarrow> bool" where
  "continues p q \<longleftrightarrow> rd32 q 8 = rd32 p 8 \<and> rd32 q 4 = rd32 p 4 \<and> rd16 q 2 = map_option (\<lambda>n. n + 1) (rd16 p 2)"

definition collected :: "symbols \<Rightarrow> bool" where
  "collected ps \<longleftrightarrow> (\<forall>p \<in> set ps. sendable p) \<and> (\<forall>i. Suc i < length ps \<longrightarrow> continues (ps ! i) (ps ! Suc i))"

lemma sendable_length: "sendable p \<Longrightarrow> 12 < length p \<and> length p \<le> kFecMaxMediaPacket"
  using HeaderSize_total [of p] by (auto simp: sendable_def)

lemma collected_snoc: "collected ps \<Longrightarrow> sendable p \<Longrightarrow> ps = [] \<or> continues (last ps) p \<Longrightarrow> collected (ps @ [p])"
  unfolding collected_def
proof (intro conjI allI impI, goal_cases)
  case (2 i)
  then have "i = length ps - 1 \<and> ps \<noteq> [] \<or> Suc i < length ps" by (cases ps) auto
  with 2 show ?case by (auto simp: nth_append last_conv_nth)
qed auto

definition sender_ok :: "'d fec_sender \<Rightarrow> bool" where
  "sender_ok s \<longleftrightarrow> collected (sd_pending s) \<and> length (sd_pending s) < kFecMaxSources"

lemma foldl_max: "foldl (\<lambda>m p. max m (length p + 2)) a ps = max a (foldl (\<lambda>m p. max m (length p + 2)) 0 ps)"
proof (induction ps arbitrary: a)
  case (Cons p ps)
  show ?case using Cons [of "max a (length p + 2)"] Cons [of "max 0 (length p + 2)"] by simp
qed simp

lemma symbol_size_simps: "symbol_size [] = 0" "symbol_size (p # ps) = max (length p + 2) (symbol_size ps)"
  using foldl_max [of "length p + 2" ps] by (simp_all add: symbol_size_def)

lemma symbol_size_ge: "p \<in> set ps \<Longrightarrow> length p + 2 \<le> symbol_size ps"
  by (induction ps) (auto simp: symbol_size_simps)

lemma symbol_size_le: "(\<And>p. p \<in> set ps \<Longrightarrow> length p \<le> n) \<Longrightarrow> symbol_size ps \<le> n + 2"
  by (induction ps) (auto simp: symbol_size_simps)

lemma afford_le: "fst (afford D cost now left n b) \<le> n + left"
proof (induction D cost now left n b rule: afford.induct)
  case (2 D cost now left n b)
  obtain ok b' where c: "Consume D cost now b = (ok, b')" by (cases "Consume D cost now b")
  show ?case using 2 [OF c [symmetric]] c by (cases ok) auto
qed simp

lemma repair_packet_length:
  "12 \<le> header \<Longrightarrow> header < length lst \<Longrightarrow> length (repair_packet lst header rssrc k r i sz ssrc base symbol) = header + 16 + length symbol"
  by (simp add: repair_packet_def)

lemma Flush_safe:
  assumes "collected (sd_pending s)" "length (sd_pending s) \<le> kFecMaxSources"
  shows "\<exists>out s' cache'. Flush ofc neon D rssrc now (s, cache) = Some (out, s', cache') \<and> sd_pending s' = [] \<and>
    (\<forall>q \<in> set out. length q \<le> kFecMaxWirePacket) \<and> length out \<le> kFecMaxRepairs"
proof (cases "sd_pending s = []")
  case True
  then show ?thesis by (simp add: Flush_def)
next
  case False
  let ?P = "sd_pending s" and ?s = "s\<lparr>sd_pending := []\<rparr>" let ?S = "map (packet_symbol (symbol_size ?P)) ?P"
  have p: "sendable q" "12 < length q" "length q \<le> kFecMaxMediaPacket" "length q + 2 \<le> symbol_size ?P" if "q \<in> set ?P" for q
    using that assms(1) sendable_length [of q] symbol_size_ge [OF that] by (auto simp: collected_def)
  have last: "last ?P \<in> set ?P" "hd ?P \<in> set ?P" using False by simp_all
  obtain h where h: "HeaderSize (last ?P) = Some h" "12 \<le> h" "h < length (last ?P)"
    using p(1) [OF last(1)] HeaderSize_total [of "last ?P"] by (auto simp: sendable_def)
  obtain ssrc base where rd: "rd32 (hd ?P) 8 = Some ssrc" "rd16 (hd ?P) 2 = Some base"
    using rd_ok [of "hd ?P"] p(2) [OF last(2)] by auto
  let ?wire = "h + kFecHeaderSize + symbol_size ?P"
  obtain n budget where a: "afford D (?wire + 64) now (repair_count D (length ?P) ?wire ?s) 0 (sd_budget ?s) = (n, budget)"
    by (cases "afford D (?wire + 64) now (repair_count D (length ?P) ?wire ?s) 0 (sd_budget ?s)")
  have "repair_count D (length ?P) ?wire ?s \<le> kFecMaxRepairs" unfolding repair_count_def Let_def by linarith
  then have n: "n \<le> kFecMaxRepairs" using afford_le [of D "?wire + 64" now "repair_count D (length ?P) ?wire ?s" 0 "sd_budget ?s"] a by simp
  have S: "length (?S ! i) = symbol_size ?P" if "i < length ?S" for i using that p(4) by (simp add: length_packet_symbol)
  have "symbol_size ?P \<le> kFecMaxMediaPacket + 2" by (rule symbol_size_le) (rule p(3))
  then have sz: "symbol_size ?P \<le> kMaxSymbolSize" "0 < symbol_size ?P"
    using p(4) [OF last(1)] by (auto simp: kFecMaxMediaPacket_def kMaxSymbolSize_def)
  show ?thesis
  proof (cases "now \<ge> sd_first s + min (fc_window (sd_config s)) (fc_window (sd_block_config s)) \<or> kFecMaxWirePacket < ?wire \<or> n = 0")
    case True
    then show ?thesis using False h(1) a by (auto simp: Flush_def Let_def)
  next
    case go: False
    have "SupportsSmallRs (length ?S) n" using go assms(2) n False
      by (auto simp: SupportsSmallRs_def kFecMaxSources_def kFecMaxRepairs_def kRsSmallMaxSources_def kRsSmallMaxRepairs_def)
    then obtain res c where res: "EncodeSymbols ofc neon cache ?S n = Some (res, c)"
        "\<forall>R. res = Some R \<longrightarrow> length R = n \<and> (\<forall>i < n. length (R ! i) = symbol_size ?P)"
      using EncodeSymbols_safe [of ?S n "symbol_size ?P" ofc neon cache] S sz False by auto
    show ?thesis
    proof (cases res)
      case None
      then show ?thesis using go False h(1) a res(1) by (simp add: Flush_def Let_def)
    next
      case (Some R)
      then have R: "length R = n" "\<And>i. i < n \<Longrightarrow> length (R ! i) = symbol_size ?P" using res(2) by auto
      then show ?thesis using go False h a res(1) Some rd n
        by (simp add: Flush_def Let_def repair_packet_length kFecHeaderSize_def)
    qed
  qed
qed

section \<open>Every run\<close>

lemma SetProtection_ok: "sender_ok s \<Longrightarrow> sender_ok (SetProtection D config now s)"
  by (auto simp: SetProtection_def Let_def sender_ok_def collected_def kFecMaxSources_def)

lemma breaks_block_continues:
  assumes "sendable p" "sendable q"
  shows "\<exists>b. breaks_block p q now first = Some b \<and> (\<not> b \<longrightarrow> continues p q)"
proof -
  obtain m ssrc ts seq where "rd8 p 1 = Some m" "rd32 p 8 = Some ssrc" "rd32 p 4 = Some ts" "rd16 p 2 = Some seq"
    using rd_ok [of p] sendable_length [OF assms(1)] by auto
  moreover obtain m' ssrc' ts' seq' where "rd8 q 1 = Some m'" "rd32 q 8 = Some ssrc'" "rd32 q 4 = Some ts'" "rd16 q 2 = Some seq'"
    using rd_ok [of q] sendable_length [OF assms(2)] by auto
  ultimately show ?thesis by (simp add: breaks_block_def continues_def)
qed

definition small_packets :: "symbols \<Rightarrow> bool" where
  "small_packets out \<longleftrightarrow> (\<forall>q \<in> set out. length q \<le> kFecMaxWirePacket)"

lemma enqueue_packet_safe:
  assumes s: "sender_ok s" and p: "sendable p"
  shows "\<exists>out s' cache'. enqueue_packet ofc neon D p rssrc now keyframe (s, cache) = Some (out, s', cache') \<and> sender_ok s' \<and> small_packets out"
proof -
  obtain m where m: "rd8 p 1 = Some m" using rd_ok [of p] sendable_length [OF p] by auto
  have "\<exists>out s1 c1. (if sd_pending s \<noteq> []
      then do { b \<leftarrow> breaks_block (last (sd_pending s)) p now (sd_first s);
                if b then Flush ofc neon D rssrc now (s, cache) else Some ([], s, cache) }
      else Some ([], s, cache)) = Some (out, s1, c1) \<and> sender_ok s1 \<and> small_packets out \<and>
      (sd_pending s1 = [] \<or> continues (last (sd_pending s1)) p)" (is "\<exists>out s1 c1. ?first = _ \<and> _")
  proof (cases "sd_pending s = []")
    case True
    then show ?thesis using s by (simp add: small_packets_def)
  next
    case False
    have "sendable (last (sd_pending s))" using s False by (simp add: sender_ok_def collected_def)
    then obtain b where b: "breaks_block (last (sd_pending s)) p now (sd_first s) = Some b" "\<not> b \<longrightarrow> continues (last (sd_pending s)) p"
      using breaks_block_continues [OF _ p] by blast
    obtain out s1 c1 where "Flush ofc neon D rssrc now (s, cache) = Some (out, s1, c1)" "sd_pending s1 = []" "small_packets out"
      using Flush_safe [of s ofc neon D rssrc now cache] s by (auto simp: sender_ok_def small_packets_def)
    then show ?thesis using False b s by (cases b) (auto simp: sender_ok_def collected_def small_packets_def kFecMaxSources_def)
  qed
  then obtain out s1 c1 where 1: "?first = Some (out, s1, c1)" "sender_ok s1" "small_packets out"
      "sd_pending s1 = [] \<or> continues (last (sd_pending s1)) p" by blast
  define s2 where "s2 = (let s = (if sd_pending s1 = [] then s1\<lparr>sd_first := now, sd_block_config := sd_config s1, sd_keyframe := keyframe\<rparr> else s1)
    in s\<lparr>sd_pending := sd_pending s @ [p]\<rparr>)"
  have s2: "sd_pending s2 = sd_pending s1 @ [p]" by (simp add: s2_def Let_def)
  have c2: "collected (sd_pending s2)" "length (sd_pending s2) \<le> kFecMaxSources"
    using 1(2,4) p unfolding s2 by (auto simp: sender_ok_def intro: collected_snoc)
  have eq: "enqueue_packet ofc neon D p rssrc now keyframe (s, cache) =
      (if length (sd_pending s2) = kFecMaxSources \<or> m AND 0x80 \<noteq> 0
       then do { (tail, s, cache) \<leftarrow> Flush ofc neon D rssrc now (s2, c1); Some (out @ tail, s, cache) } else Some (out, s2, c1))"
    using 1(1) m by (simp add: enqueue_packet_def Let_def s2_def)
  show ?thesis
  proof (cases "length (sd_pending s2) = kFecMaxSources \<or> m AND 0x80 \<noteq> 0")
    case True
    obtain tail s3 c3 where "Flush ofc neon D rssrc now (s2, c1) = Some (tail, s3, c3)" "sd_pending s3 = []" "small_packets tail"
      using Flush_safe [OF c2, of ofc neon D rssrc now c1] by (auto simp: small_packets_def)
    then show ?thesis using True 1(3) unfolding eq by (auto simp: sender_ok_def collected_def small_packets_def kFecMaxSources_def)
  next
    case False
    then show ?thesis using c2 1(3) unfolding eq by (auto simp: sender_ok_def)
  qed
qed

lemma sender_ok_cong: "sd_pending s' = sd_pending s \<or> sd_pending s' = [] \<Longrightarrow> sender_ok s \<Longrightarrow> sender_ok s'"
  by (auto simp: sender_ok_def collected_def kFecMaxSources_def)

lemma Sender_AddPacket_safe:
  assumes "sender_ok s"
  shows "\<exists>out s' cache'. Sender_AddPacket ofc neon D p rssrc now keyframe (s, cache) = Some (out, s', cache') \<and> sender_ok s' \<and> small_packets out"
proof -
  obtain h where h: "HeaderSize p = Some h" "h \<noteq> 0 \<longrightarrow> 12 \<le> h \<and> h < length p" using HeaderSize_total by blast
  show ?thesis
  proof (cases "h = 0 \<or> kFecMaxMediaPacket < length p \<or> rssrc = 0 \<or> rd32 p 8 = Some rssrc")
    case True
    moreover obtain x where "rd32 p 8 = Some x" if "h \<noteq> 0" using rd_ok [of p] h(2) by (cases "h = 0") auto
    ultimately show ?thesis using h(1)
      by (auto simp: Sender_AddPacket_def Let_def sender_ok_def collected_def kFecMaxSources_def small_packets_def)
  next
    case False
    then have p: "sendable p" using h(1) by (auto simp: sendable_def)
    obtain ssrc where rd: "rd32 p 8 = Some ssrc" "ssrc \<noteq> rssrc" using rd_ok [of p] h(2) False by auto
    have "\<exists>s'. (sd_pending s' = sd_pending s \<or> sd_pending s' = []) \<and>
        (Sender_AddPacket ofc neon D p rssrc now keyframe (s, cache) = Some ([], s', cache) \<or>
         Sender_AddPacket ofc neon D p rssrc now keyframe (s, cache) = enqueue_packet ofc neon D p rssrc now keyframe (s', cache))"
      using False h(1) rd unfolding Sender_AddPacket_def Let_def
      by (simp del: ex_simps) (intro conjI impI; rule exI; rule conjI; (rule disjI1, rule refl | rule disjI2, rule refl | simp))
    then obtain s' where s': "sd_pending s' = sd_pending s \<or> sd_pending s' = []"
        "Sender_AddPacket ofc neon D p rssrc now keyframe (s, cache) = Some ([], s', cache) \<or>
         Sender_AddPacket ofc neon D p rssrc now keyframe (s, cache) = enqueue_packet ofc neon D p rssrc now keyframe (s', cache)" by blast
    have "sender_ok s'" by (rule sender_ok_cong [OF s'(1) assms])
    then show ?thesis using s'(2) enqueue_packet_safe [OF _ p, of s' ofc neon D rssrc now keyframe cache] by (auto simp: small_packets_def)
  qed
qed

lemma FlushExpired_safe:
  assumes "sender_ok s"
  shows "\<exists>out s' cache'. FlushExpired ofc neon D rssrc now (s, cache) = Some (out, s', cache') \<and> sender_ok s' \<and> small_packets out"
proof -
  have "collected (sd_pending (s\<lparr>sd_deadline := -1\<rparr>))" "length (sd_pending (s\<lparr>sd_deadline := -1\<rparr>)) \<le> kFecMaxSources"
    using assms by (auto simp: sender_ok_def)
  then obtain out s' c where "Flush ofc neon D rssrc now (s\<lparr>sd_deadline := -1\<rparr>, cache) = Some (out, s', c)" "sd_pending s' = []" "small_packets out"
    using Flush_safe [of "s\<lparr>sd_deadline := -1\<rparr>" ofc neon D rssrc now cache] by (auto simp: small_packets_def)
  then show ?thesis using assms
    by (auto simp: FlushExpired_def Let_def sender_ok_def collected_def small_packets_def kFecMaxSources_def)
qed

datatype 'd sender_op = OpAdd bytes u32 int bool | OpFlush u32 int | OpProtect "'d fec_config" int | OpReset

fun sender_step :: "openfec \<Rightarrow> bool \<Rightarrow> 'd double_ops \<Rightarrow> 'd sender_op \<Rightarrow> 'd fec_sender \<times> rs_cache \<Rightarrow>
    (symbols \<times> 'd fec_sender \<times> rs_cache) option" where
  "sender_step ofc neon D (OpAdd p rssrc now keyframe) st = Sender_AddPacket ofc neon D p rssrc now keyframe st"
| "sender_step ofc neon D (OpFlush rssrc now) st = FlushExpired ofc neon D rssrc now st"
| "sender_step ofc neon D (OpProtect config now) (s, cache) = Some ([], SetProtection D config now s, cache)"
| "sender_step ofc neon D OpReset (s, cache) = Some ([], Sender_Reset D s, cache)"

fun sender_run :: "openfec \<Rightarrow> bool \<Rightarrow> 'd double_ops \<Rightarrow> 'd sender_op list \<Rightarrow> 'd fec_sender \<times> rs_cache \<Rightarrow>
    (symbols \<times> 'd fec_sender \<times> rs_cache) option" where
  "sender_run ofc neon D [] (s, cache) = Some ([], s, cache)"
| "sender_run ofc neon D (a # as) st =
     do { (out, st) \<leftarrow> sender_step ofc neon D a st; (rest, st) \<leftarrow> sender_run ofc neon D as st; Some (out @ rest, st) }"

lemma sender_step_safe:
  assumes "sender_ok s"
  shows "\<exists>out s' cache'. sender_step ofc neon D a (s, cache) = Some (out, s', cache') \<and> sender_ok s' \<and> small_packets out"
proof (cases a)
  case (OpAdd p rssrc now keyframe)
  then show ?thesis using Sender_AddPacket_safe [OF assms, of ofc neon D p rssrc now keyframe cache] by simp
next
  case (OpFlush rssrc now)
  then show ?thesis using FlushExpired_safe [OF assms, of ofc neon D rssrc now cache] by simp
next
  case (OpProtect config now)
  then show ?thesis using SetProtection_ok [OF assms, of D config now] by (simp add: small_packets_def)
next
  case OpReset
  then show ?thesis by (simp add: Sender_Reset_def small_packets_def sender_ok_def collected_def kFecMaxSources_def)
qed


text \<open>The packets that a sender has collected are the packets of a frame.\<close>

lemma collected_frame:
  assumes "collected ps" "ps \<noteq> []" "i < length ps"
  shows "rd32 (ps ! i) 8 = rd32 (ps ! 0) 8" "rd32 (ps ! i) 4 = rd32 (ps ! 0) 4"
    "rd16 (ps ! i) 2 = map_option (\<lambda>n. n + of_nat i) (rd16 (ps ! 0) 2)"
proof -
  have "rd32 (ps ! i) 8 = rd32 (ps ! 0) 8 \<and> rd32 (ps ! i) 4 = rd32 (ps ! 0) 4 \<and>
      rd16 (ps ! i) 2 = map_option (\<lambda>n. n + of_nat i) (rd16 (ps ! 0) 2)"
    using assms(3)
  proof (induction i)
    case 0
    then show ?case by (simp add: option.map_ident)
  next
    case (Suc i)
    then have "continues (ps ! i) (ps ! Suc i)" using assms(1) by (simp add: collected_def)
    then have "rd32 (ps ! Suc i) 8 = rd32 (ps ! i) 8" "rd32 (ps ! Suc i) 4 = rd32 (ps ! i) 4"
      and next_seq: "rd16 (ps ! Suc i) 2 = map_option (\<lambda>n. n + 1) (rd16 (ps ! i) 2)" by (simp_all add: continues_def)
    moreover have "map_option (\<lambda>n. n + 1) (map_option (\<lambda>n. n + of_nat i) y) = map_option (\<lambda>n. n + of_nat (Suc i)) y"
      for y :: "u16 option" by (cases y) (simp_all add: algebra_simps)
    ultimately show ?case using Suc by (simp del: of_nat_Suc)
  qed
  then show "rd32 (ps ! i) 8 = rd32 (ps ! 0) 8" "rd32 (ps ! i) 4 = rd32 (ps ! 0) 4"
    "rd16 (ps ! i) 2 = map_option (\<lambda>n. n + of_nat i) (rd16 (ps ! 0) 2)" by auto
qed

end
