(* ===== verification/Rtp_Fec_Recovery.thy ===== *)
theory Rtp_Fec_Recovery
  imports Rtp_Fec_Sender
begin

text \<open>
  The FEC sender and the FEC receiver together: a block of consecutive media packets that the sender flushes is
  restored by a receiver that gets enough packets of it, in any order, with losses and repetitions.

  The scene of the argument is a record: the packets of the block, the generator rows and the repair symbols. The receiver's
  state is described by the set \<open>C\<close> of cached packets and the set \<open>I\<close> of received repair symbols;
  \<open>scene_inv\<close> says that as long as the block is not done they are too few to decode it.
\<close>

section \<open>The scene\<close>

record scene =
  sn_ssrc :: u32
  sn_pt :: u8
  sn_repair_ssrc :: u32
  sn_ts :: u32
  sn_base :: u16
  sn_packets :: symbols
  sn_rows :: rows
  sn_repairs :: symbols

abbreviation sn_k :: "scene \<Rightarrow> nat" where "sn_k X \<equiv> length (sn_packets X)"
abbreviation sn_r :: "scene \<Rightarrow> nat" where "sn_r X \<equiv> length (sn_repairs X)"
abbreviation sn_size :: "scene \<Rightarrow> nat" where "sn_size X \<equiv> symbol_size (sn_packets X)"
abbreviation sn_sources :: "scene \<Rightarrow> symbols" where "sn_sources X \<equiv> map (packet_symbol (sn_size X)) (sn_packets X)"
abbreviation sn_seq :: "scene \<Rightarrow> nat \<Rightarrow> u16" where "sn_seq X i \<equiv> sn_base X + of_nat i"

text \<open>Consecutive packets of one frame, as the sender collects them.\<close>

definition frame_packets :: "u32 \<Rightarrow> u8 \<Rightarrow> u32 \<Rightarrow> u16 \<Rightarrow> symbols \<Rightarrow> bool" where
  "frame_packets ssrc pt ts base ps \<longleftrightarrow> ps \<noteq> [] \<and> length ps \<le> kFecMaxSources \<and>
     (\<forall>i < length ps. media_packet ssrc pt (ps ! i) \<and> rd32 (ps ! i) 4 = Some ts \<and> rd16 (ps ! i) 2 = Some (base + of_nat i))"

definition scene_ok :: "scene \<Rightarrow> bool" where
  "scene_ok X \<longleftrightarrow> frame_packets (sn_ssrc X) (sn_pt X) (sn_ts X) (sn_base X) (sn_packets X) \<and> 0 < sn_r X \<and> sn_r X \<le> kFecMaxRepairs \<and>
     sn_repair_ssrc X \<noteq> sn_ssrc X \<and>
     (\<forall>i < sn_r X. sn_repairs X ! i = code_sym (sn_size X) (sn_rows X) (sn_sources X) (sn_k X + i))"

section \<open>Packets and symbols\<close>

lemma scene_packet:
  assumes "scene_ok X" "i < sn_k X"
  shows "media_packet (sn_ssrc X) (sn_pt X) (sn_packets X ! i)" "rd32 (sn_packets X ! i) 4 = Some (sn_ts X)"
    "rd16 (sn_packets X ! i) 2 = Some (sn_seq X i)" "length (sn_packets X ! i) + 2 \<le> sn_size X"
    "12 < length (sn_packets X ! i)" "length (sn_packets X ! i) \<le> kFecMaxMediaPacket"
  using assms symbol_size_ge [of "sn_packets X ! i" "sn_packets X"] media_packet_length [of "sn_ssrc X" "sn_pt X" "sn_packets X ! i"]
  by (auto simp: scene_ok_def frame_packets_def media_packet_def)

lemma scene_size:
  assumes "scene_ok X"
  shows "0 < sn_k X" "sn_k X \<le> 16" "14 \<le> sn_size X" "sn_size X \<le> kFecMaxMediaPacket + 2" "0 < sn_r X" "sn_r X \<le> 4"
proof -
  show k: "0 < sn_k X" "sn_k X \<le> 16" "0 < sn_r X" "sn_r X \<le> 4"
    using assms by (auto simp: scene_ok_def frame_packets_def kFecMaxSources_def kFecMaxRepairs_def)
  show "14 \<le> sn_size X" using scene_packet(4,5) [OF assms k(1)] by linarith
  show "sn_size X \<le> kFecMaxMediaPacket + 2"
    by (rule symbol_size_le) (use scene_packet(6) [OF assms] in \<open>auto simp: in_set_conv_nth\<close>)
qed

lemma scene_seq_inject: "scene_ok X \<Longrightarrow> i < sn_k X \<Longrightarrow> j < sn_k X \<Longrightarrow> sn_seq X i = sn_seq X j \<longleftrightarrow> i = j"
proof -
  assume "scene_ok X" "i < sn_k X" "j < sn_k X"
  then have ij: "i < 2 ^ 16" "j < 2 ^ 16" using scene_size(2) [of X] by auto
  have "i = j" if "(of_nat i :: u16) = of_nat j"
  proof -
    have "unat (of_nat i :: u16) = unat (of_nat j :: u16)" using that by simp
    then show ?thesis using ij by (simp add: unsigned_of_nat take_bit_nat_eq_self)
  qed
  then show ?thesis by auto
qed

text \<open>The symbol of a packet gives the packet back.\<close>

lemma symbol_restored:
  assumes "length p \<le> kFecMaxMediaPacket"
  shows "rd16 (packet_symbol sz p) 0 = Some (of_nat (length p))" "unat (of_nat (length p) :: u16) = length p"
    "take (length p) (drop 2 (packet_symbol sz p)) = p"
  using assms rd16_bytes [of 0 "[]" "of_nat (length p)"]
  by (simp_all add: packet_symbol_def unsigned_of_nat take_bit_nat_eq_self kFecMaxMediaPacket_def)

text \<open>The size of the header depends on the header only.\<close>

lemma HeaderSize_copy:
  assumes "HeaderSize p = Some h" "h \<noteq> 0" "h < length q" "q ! 0 = p ! 0" "\<And>i. 12 \<le> i \<Longrightarrow> i < h \<Longrightarrow> q ! i = p ! i"
  shows "HeaderSize q = Some h"
proof -
  have h: "12 \<le> h" "h < length p" using HeaderSize_total [of p] assms(1,2) by auto
  then have "0 < length p" "0 < length q" using assms(3) by linarith+
  then have b: "rd8 p 0 = Some (p ! 0)" "rd8 q 0 = Some (p ! 0)" "\<not> length p < 12" "\<not> length q < 12"
    using assms(3,4) h by (simp_all only: rd8_in)
  let ?h = "12 + 4 * unat (p ! 0 AND 15)"
  show ?thesis
  proof (cases "p ! 0 AND 0x10 = 0")
    case True
    with assms(1,2) b have "h = ?h" by (auto simp: HeaderSize_def Let_def split: if_splits)
    with True assms(1-3) b show ?thesis by (auto simp: HeaderSize_def Let_def split: if_splits)
  next
    case False
    with assms(1,2) b have v: "\<not> (drop_bit 6 (p ! 0) \<noteq> 2 \<or> p ! 0 AND 0x20 \<noteq> 0)" "\<not> length p < ?h" "\<not> length p - ?h < 4"
      by (auto simp: HeaderSize_def Let_def split: if_splits)
    then have w: "rd16 p (?h + 2) = Some (be16_of (p ! (?h + 2)) (p ! (?h + 2 + 1)))" by (intro rd16_in) simp
    have h': "h = ?h + 4 + 4 * unat (be16_of (p ! (?h + 2)) (p ! (?h + 2 + 1)))"
      using assms(1,2) b False v w by (auto simp: HeaderSize_def Let_def split: if_splits)
    then have "rd16 q (?h + 2) = rd16 p (?h + 2)" using assms(3,5) w by (subst rd16_in) auto
    then show ?thesis using assms(3) b False v w h' by (auto simp: HeaderSize_def Let_def)
  qed
qed

text \<open>The repair packets that the sender builds, as the receiver reads them.\<close>

definition scene_repair :: "scene \<Rightarrow> nat \<Rightarrow> bytes" where
  "scene_repair X i = (let lst = last (sn_packets X); header = the (HeaderSize lst) in
     repair_packet lst header (sn_repair_ssrc X) (sn_k X) (sn_r X) i (sn_size X) (sn_ssrc X) (sn_base X) (sn_repairs X ! i))"

lemma nth_take_drop: "i < n \<Longrightarrow> m + n \<le> length xs \<Longrightarrow> take n (drop m xs) ! i = xs ! (m + i)"
  by simp

lemma repair_packet_prefix:
  assumes "12 \<le> header" "header < length lst"
    and q_def: "q = repair_packet lst header rssrc k r i sz ssrc base symbol"
  shows "length q = header + 16 + length symbol" "q ! 0 = lst ! 0" "rd8 q 1 = Some kRsFecPayloadType" "rd32 q 4 = rd32 lst 4"
    "rd32 q 8 = Some rssrc" "\<And>j. 12 \<le> j \<Longrightarrow> j < header \<Longrightarrow> q ! j = lst ! j"
    "drop header q = [0x4d, 0x46, 1, of_nat k, of_nat r, of_nat (k + i)] @ be16_bytes (of_nat sz) @ be32_bytes ssrc @ be16_bytes base @ [0, 0] @ symbol"
proof -
  obtain x y where 0: "lst = x # y" using assms(2) by (cases lst) auto
  let ?a = "take 1 lst @ [kRsFecPayloadType] @ be16_bytes 0 @ take 4 (drop 4 lst)"
  let ?tl = "[0x4d, 0x46, 1, of_nat k, of_nat r, of_nat (k + i)] @ be16_bytes (of_nat sz) @ be32_bytes ssrc @ be16_bytes base @ [0, 0] @ symbol"
  have len: "length ?a = 8" "length (?a @ be32_bytes rssrc) = 12" "length (drop 12 (take header lst)) = header - 12"
      "length (take 4 (drop 4 lst)) = 4" using assms(1,2) by auto
  have q: "q = (?a @ be32_bytes rssrc) @ drop 12 (take header lst) @ ?tl" by (simp add: q_def repair_packet_def)
  show "length q = header + 16 + length symbol" using len assms(1) unfolding q by simp
  show "q ! 0 = lst ! 0" "rd8 q 1 = Some kRsFecPayloadType" unfolding q by (simp_all add: 0 wire_simps)
  have "rd32 q 4 = rd32 (take 4 (drop 4 lst)) 0"
    unfolding q using len(4) by (simp add: 0 rd32_def be16_bytes_def wire_simps)
  also have "\<dots> = rd32 lst 4" using assms(1,2) by (simp add: rd32_in)
  finally show "rd32 q 4 = rd32 lst 4" .
  show "rd32 q 8 = Some rssrc" unfolding q using len(1) by (subst append_assoc, subst rd32_bytes) auto
  show "q ! j = lst ! j" if "12 \<le> j" "j < header" for j
  proof -
    have "drop 12 (take header lst) ! (j - 12) = lst ! j" "j - 12 < header - 12" using that assms(2) by auto
    then show ?thesis unfolding q using len that by (simp only: nth_append [of "?a @ be32_bytes rssrc"] nth_append [of "drop 12 (take header lst)"] len) simp
  qed
  show "drop header q = ?tl" unfolding q using len assms(1) by (simp del: append_assoc add: drop_append)
qed

lemma unat_small8: "n < 256 \<Longrightarrow> unat (of_nat n :: u8) = n"
  by (simp add: unsigned_of_nat take_bit_nat_eq_self)

lemma unat_small16: "n < 65536 \<Longrightarrow> unat (of_nat n :: u16) = n"
  by (simp add: unsigned_of_nat take_bit_nat_eq_self)

lemma parse_repair:
  assumes "drop h q = [0x4d, 0x46, 1, of_nat k, of_nat r, of_nat (k + i)] @ be16_bytes (of_nat sz) @ be32_bytes ssrc @ be16_bytes base @ [0, 0] @ symbol"
    and "0 < k" "k \<le> 16" "0 < r" "r \<le> 4" "i < r" "14 \<le> sz" "sz \<le> kFecMaxMediaPacket + 2" "length symbol = sz" "h \<le> length q"
  shows "parse_fec_header ssrc q h = Some (Some \<lparr>fh_k = k, fh_r = r, fh_id = k + i, fh_size = sz, fh_base = base\<rparr>)"
    "drop (h + kFecHeaderSize) q = symbol"
proof -
  let ?d = "[0x4d, 0x46, 1, of_nat k, of_nat r, of_nat (k + i)] @ be16_bytes (of_nat sz) @ be32_bytes ssrc @ be16_bytes base @ [0, 0] @ symbol"
  have d: "drop h q = ?d" by (rule assms(1))
  have rd: "rd8 q (h + n) = rd8 ?d n" "rd16 q (h + n) = rd16 ?d n" "rd32 q (h + n) = rd32 ?d n" for n
    unfolding d [symmetric] by simp_all
  have r0: "rd8 q h = Some 0x4d" using rd(1) [of 0] by (simp add: wire_simps)
  have r8: "rd8 q (h + 1) = Some 0x46" "rd8 q (h + 2) = Some 1" "rd8 q (h + 3) = Some (of_nat k)"
      "rd8 q (h + 4) = Some (of_nat r)" "rd8 q (h + 5) = Some (of_nat (k + i))" "rd8 q (h + 14) = Some 0" "rd8 q (h + 15) = Some 0"
    unfolding rd by (simp_all add: wire_simps)
  have r16: "rd16 q (h + 6) = Some (of_nat sz)" "rd32 q (h + 8) = Some ssrc" "rd16 q (h + 12) = Some base"
    unfolding rd by (simp_all add: rd16_def rd32_def be16_bytes_def be32_bytes_def wire_simps)
  have "length (drop h q) = 16 + sz" unfolding d using assms(9) by simp
  then have len: "length q - h - kFecHeaderSize = sz" by (simp add: kFecHeaderSize_def)
  have u: "unat (of_nat k :: u8) = k" "unat (of_nat r :: u8) = r" "unat (of_nat (k + i) :: u8) = k + i" "unat (of_nat sz :: u16) = sz"
    using assms by (auto simp: unat_small8 unat_small16 kFecMaxMediaPacket_def simp del: of_nat_add)
  then have nz: "(of_nat k :: u8) \<noteq> 0" "(of_nat r :: u8) \<noteq> 0" using assms(2,4) by (metis unat_0 less_irrefl)+
  show "parse_fec_header ssrc q h = Some (Some \<lparr>fh_k = k, fh_r = r, fh_id = k + i, fh_size = sz, fh_base = base\<rparr>)"
    using assms(2-8) len unfolding parse_fec_header_def Let_def r0 r8 r16 bind.bind_lunit
    by (simp add: u nz kFecMaxSources_def kFecMaxRepairs_def del: of_nat_add)
  have "drop (h + kFecHeaderSize) q = drop 16 ?d" unfolding d [symmetric] by (simp add: kFecHeaderSize_def add.commute)
  then show "drop (h + kFecHeaderSize) q = symbol" by (simp add: be16_bytes_def be32_bytes_def)
qed

lemma scene_repair_read:
  assumes X: "scene_ok X" and i: "i < sn_r X"
    and wire: "the (HeaderSize (last (sn_packets X))) + 16 + sn_size X \<le> kFecMaxWirePacket"
  obtains h where "HeaderSize (scene_repair X i) = Some h" "h \<noteq> 0" "length (scene_repair X i) \<le> kFecMaxWirePacket"
    "kFecHeaderSize \<le> length (scene_repair X i) - h"
    "rd8 (scene_repair X i) 1 = Some kRsFecPayloadType" "rd32 (scene_repair X i) 4 = Some (sn_ts X)" "rd32 (scene_repair X i) 8 = Some (sn_repair_ssrc X)"
    "parse_fec_header (sn_ssrc X) (scene_repair X i) h =
       Some (Some \<lparr>fh_k = sn_k X, fh_r = sn_r X, fh_id = sn_k X + i, fh_size = sn_size X, fh_base = sn_base X\<rparr>)"
    "drop (h + kFecHeaderSize) (scene_repair X i) = sn_repairs X ! i"
proof -
  let ?lst = "last (sn_packets X)" and ?q = "scene_repair X i"
  have k: "sn_packets X \<noteq> []" "sn_k X - 1 < sn_k X" using scene_size(1) [OF X] by auto
  have lst: "?lst = sn_packets X ! (sn_k X - 1)" using k by (simp add: last_conv_nth)
  obtain h where h: "HeaderSize ?lst = Some h" "h \<noteq> 0"
    using scene_packet(1) [OF X k(2)] unfolding lst by (auto simp: media_packet_def)
  then have hb: "12 \<le> h" "h < length ?lst" using HeaderSize_total [of ?lst] by auto
  have sym: "length (sn_repairs X ! i) = sn_size X"
    using X i code_sym_length [of "sn_sources X" "sn_size X"] scene_packet(4) [OF X] by (simp add: scene_ok_def length_packet_symbol)
  have q: "?q = repair_packet ?lst h (sn_repair_ssrc X) (sn_k X) (sn_r X) i (sn_size X) (sn_ssrc X) (sn_base X) (sn_repairs X ! i)"
    by (simp add: scene_repair_def h(1))
  note p = repair_packet_prefix [OF hb q]
  have "HeaderSize ?q = Some h"
    by (rule HeaderSize_copy [OF h]) (use p(1,2,6) in auto)
  moreover have "length ?q \<le> kFecMaxWirePacket" "kFecHeaderSize \<le> length ?q - h" using wire p(1) h(1) sym by (simp_all add: kFecHeaderSize_def)
  moreover have "rd32 ?q 4 = Some (sn_ts X)" unfolding p(4) lst by (rule scene_packet(2) [OF X k(2)])
  moreover note parse_repair [OF p(7) _ _ _ _ i _ _ sym]
  ultimately show thesis using that h(2) p(1,3,5) scene_size [OF X] by simp
qed

section \<open>Decoding\<close>

text \<open>The cached packets, and the symbols of the block in its decoder.\<close>

definition cached :: "scene \<Rightarrow> int \<Rightarrow> int \<Rightarrow> nat set \<Rightarrow> (u16 \<times> fec_source) list \<Rightarrow> bool" where
  "cached X t0 t C src \<longleftrightarrow> ordered src \<and> C \<subseteq> {..<sn_k X} \<and> fst ` set src = sn_seq X ` C \<and>
     (\<forall>i \<in> C. \<exists>e. map_of src (sn_seq X i) = Some e \<and> so_bytes e = sn_packets X ! i) \<and>
     (\<forall>e \<in> set src. t0 \<le> so_arrival (snd e) \<and> so_arrival (snd e) \<le> t)"

definition present_of :: "scene \<Rightarrow> nat set \<Rightarrow> nat \<Rightarrow> bytes option" where
  "present_of X C i = (if i \<in> C then Some (sn_packets X ! i) else None)"

lemma cached_lookup:
  assumes "scene_ok X" "cached X t0 t C src" "i < sn_k X"
  shows "map_option so_bytes (map_of src (sn_seq X i)) = present_of X C i"
proof (cases "i \<in> C")
  case True
  then show ?thesis using assms(2) by (auto simp: cached_def present_of_def)
next
  case False
  have "sn_seq X i \<notin> sn_seq X ` C"
    using False assms scene_seq_inject [OF assms(1,3)] by (auto simp: cached_def)
  then have "map_of src (sn_seq X i) = None" using assms(2) by (auto simp: cached_def map_of_eq_None_iff)
  then show ?thesis using False by (simp add: present_of_def)
qed

lemma collect_scene:
  assumes X: "scene_ok X" and c: "cached X t0 t C src" and b: "bl_base b = sn_base X" "bl_timestamp b = sn_ts X" "bl_size b = sn_size X"
  shows "set js \<subseteq> {..<sn_k X} \<Longrightarrow> collect src b js = Some (Some (map (present_of X C) js))"
proof (induction js)
  case (Cons i js)
  then have i: "i < sn_k X" by simp
  show ?case
  proof (cases "map_of src (sn_seq X i)")
    case None
    then show ?thesis using cached_lookup [OF X c i] Cons b by simp
  next
    case (Some e)
    then have e: "Some (so_bytes e) = present_of X C i" using cached_lookup [OF X c i] by simp
    then have "so_bytes e = sn_packets X ! i" by (simp add: present_of_def split: if_splits)
    then show ?thesis using Some Cons b e scene_packet [OF X i] by simp
  qed
qed simp

lemma code_sym_source: "i < sn_k X \<Longrightarrow> code_sym (sn_size X) (sn_rows X) (sn_sources X) i = packet_symbol (sn_size X) (sn_packets X ! i)"
  by (simp add: code_sym_def)

lemma scene_sources_length: "scene_ok X \<Longrightarrow> i < length (sn_sources X) \<Longrightarrow> length (sn_sources X ! i) = sn_size X"
  using scene_packet(4) [of X i] by (simp add: length_packet_symbol)

abbreviation scene_dec :: "openfec \<Rightarrow> scene \<Rightarrow> rs_cache \<Rightarrow> fec_state \<Rightarrow> bool" where
  "scene_dec ofc X cache s \<equiv> dec_inv ofc (sn_sources X) (sn_r X) (sn_rows X) (sn_size X) cache s"

lemma scene_add:
  assumes "scene_ok X" "scene_dec ofc X cache s" "sid < sn_k X + sn_r X"
    "d = code_sym (sn_size X) (sn_rows X) (sn_sources X) sid"
  obtains res s' cache' where "AddSymbol ofc neon cache sid (Some d) (sn_size X) (Some s) = Some (res, Some s', cache')"
    "scene_dec ofc X cache' s'" "seen_set s' = (if fs_complete s then seen_set s else insert sid (seen_set s))"
  using AddSymbol_block [OF assms(2) scene_sources_length [OF assms(1)], of sid neon] assms(3,4) by auto

lemma scene_complete: "scene_dec ofc X cache s \<Longrightarrow> fs_complete s \<longleftrightarrow> sn_k X \<le> card (seen_set s)"
  by (simp add: dec_inv_def)

lemma feed_sources_scene:
  assumes X: "scene_ok X" and C: "C \<subseteq> {..<sn_k X}" "card C < sn_k X"
  shows "scene_dec ofc X cache s \<Longrightarrow> seen_set s \<subseteq> C \<Longrightarrow> set js \<subseteq> {..<sn_k X} \<Longrightarrow>
    \<exists>s' cache'. feed_sources ofc neon (sn_size X) (map (\<lambda>i. (i, present_of X C i)) js) (Some s, cache) = Some (Some s', cache') \<and>
      scene_dec ofc X cache' s' \<and> seen_set s' = seen_set s \<union> (set js \<inter> C)"
proof (induction js arbitrary: s cache)
  case (Cons i js)
  show ?case
  proof (cases "i \<in> C")
    case False
    then show ?thesis using Cons by (simp add: present_of_def)
  next
    case True
    then have i: "i < sn_k X" using C by auto
    obtain res s1 c1 where 1: "AddSymbol ofc neon cache i (Some (packet_symbol (sn_size X) (sn_packets X ! i))) (sn_size X) (Some s) = Some (res, Some s1, c1)"
        "scene_dec ofc X c1 s1" "seen_set s1 = (if fs_complete s then seen_set s else insert i (seen_set s))"
      using scene_add [OF X Cons.prems(1), of i _ neon] i by (metis code_sym_source trans_less_add1)
    have fin: "finite C" using C(1) finite_subset by blast
    have "card (seen_set s) \<le> card C" using Cons.prems(2) fin by (rule_tac card_mono) auto
    then have "\<not> fs_complete s" using scene_complete [OF Cons.prems(1)] C(2) by linarith
    then have "seen_set s1 = insert i (seen_set s)" using 1(3) by simp
    moreover from this have "seen_set s1 \<subseteq> C" using Cons.prems(2) True by auto
    ultimately show ?thesis using Cons.IH [OF 1(2)] Cons.prems(3) 1(1) True by (auto simp: present_of_def)
  qed
qed simp

lemma feed_repairs_scene:
  assumes X: "scene_ok X" and b: "bl_k b = sn_k X" "bl_size b = sn_size X" "\<And>i. i < sn_r X \<Longrightarrow> bl_present b ! i \<Longrightarrow> bl_repairs b ! i = sn_repairs X ! i"
  shows "scene_dec ofc X cache s \<Longrightarrow> set js \<subseteq> {..<sn_r X} \<Longrightarrow>
    \<exists>s' cache'. feed_repairs ofc neon b js (Some s, cache) = Some (Some s', cache') \<and> scene_dec ofc X cache' s' \<and>
      (fs_complete s' \<or> seen_set s' = seen_set s \<union> (\<lambda>i. sn_k X + i) ` {i \<in> set js. bl_present b ! i})"
proof (induction js arbitrary: s cache)
  case (Cons i js)
  then have i: "i < sn_r X" by simp
  consider (complete) "fs_complete s" | (absent) "\<not> fs_complete s" "\<not> bl_present b ! i" | (add) "\<not> fs_complete s" "bl_present b ! i" by blast
  then show ?case
  proof cases
    case complete
    then show ?thesis using Cons.prems(1) by (simp add: Decoder_Complete_def)
  next
    case absent
    moreover have "{j \<in> set (i # js). bl_present b ! j} = {j \<in> set js. bl_present b ! j}" using absent by auto
    ultimately show ?thesis using Cons.IH [OF Cons.prems(1)] Cons.prems(2) by (simp add: Decoder_Complete_def)
  next
    case add
    have d: "bl_repairs b ! i = code_sym (sn_size X) (sn_rows X) (sn_sources X) (sn_k X + i)"
      using b(3) [OF i add(2)] X i by (simp add: scene_ok_def)
    obtain res s1 c1 where 1: "AddSymbol ofc neon cache (sn_k X + i) (Some (bl_repairs b ! i)) (sn_size X) (Some s) = Some (res, Some s1, c1)"
        "scene_dec ofc X c1 s1" "seen_set s1 = (if fs_complete s then seen_set s else insert (sn_k X + i) (seen_set s))"
      by (rule scene_add [OF X Cons.prems(1) _ d, of neon]) (use i in auto)
    have "{j \<in> set (i # js). bl_present b ! j} = insert i {j \<in> set js. bl_present b ! j}" using add(2) by auto
    then show ?thesis using Cons.IH [OF 1(2)] Cons.prems(2) 1(1,3) add b by (auto simp: Decoder_Complete_def)
  qed
qed simp

definition lost_packets :: "scene \<Rightarrow> nat set \<Rightarrow> nat list \<Rightarrow> symbols" where
  "lost_packets X C js = map (\<lambda>i. sn_packets X ! i) (filter (\<lambda>i. i \<notin> C) js)"

lemma restore_scene:
  assumes X: "scene_ok X" and rc: "rc_media_ssrc rc = sn_ssrc X" "rc_media_pt rc = sn_pt X"
    and b: "bl_size b = sn_size X" "bl_timestamp b = sn_ts X" "bl_base b = sn_base X"
    and syms: "\<And>i. i < sn_k X \<Longrightarrow> syms ! i = packet_symbol (sn_size X) (sn_packets X ! i)"
  shows "set js \<subseteq> {..<sn_k X} \<Longrightarrow>
    restore_packets rc b syms (map (\<lambda>i. (i, present_of X C i)) js) = Some (Some (lost_packets X C js))"
proof (induction js)
  case (Cons i js)
  then have i: "i < sn_k X" by simp
  let ?p = "sn_packets X ! i"
  obtain h m where p: "HeaderSize ?p = Some h" "h \<noteq> 0" "rd32 ?p 8 = Some (sn_ssrc X)" "rd8 ?p 1 = Some m" "m AND 127 = sn_pt X"
    using scene_packet(1) [OF X i] by (auto simp: media_packet_def)
  have sym: "rd16 (syms ! i) 0 = Some (of_nat (length ?p))" "unat (of_nat (length ?p) :: u16) = length ?p"
      "take (length ?p) (drop 2 (syms ! i)) = ?p"
    unfolding syms [OF i] using symbol_restored [OF scene_packet(6) [OF X i]] by auto
  show ?case
  proof (cases "i \<in> C")
    case True
    then show ?thesis using Cons by (simp add: present_of_def lost_packets_def)
  next
    case False
    then show ?thesis using Cons p sym b rc scene_packet(2-4) [OF X i]
      by (simp add: present_of_def lost_packets_def Let_def)
  qed
qed (simp add: lost_packets_def)

definition block_open :: "scene \<Rightarrow> int \<Rightarrow> int \<Rightarrow> nat set \<Rightarrow> fec_block \<Rightarrow> bool" where
  "block_open X t0 t I b \<longleftrightarrow> bl_timestamp b = sn_ts X \<and> bl_base b = sn_base X \<and> bl_k b = sn_k X \<and> bl_r b = sn_r X \<and>
     bl_size b = sn_size X \<and> t0 \<le> bl_arrival b \<and> bl_arrival b \<le> t \<and> \<not> bl_done b \<and> I \<subseteq> {..<sn_r X} \<and>
     length (bl_present b) = sn_r X \<and> length (bl_repairs b) = sn_r X \<and> (\<forall>i < sn_r X. bl_present b ! i \<longleftrightarrow> i \<in> I) \<and>
     (\<forall>i \<in> I. bl_repairs b ! i = sn_repairs X ! i)"

definition block_closed :: "scene \<Rightarrow> int \<Rightarrow> int \<Rightarrow> fec_block \<Rightarrow> bool" where
  "block_closed X t0 t b \<longleftrightarrow> bl_k b = sn_k X \<and> bl_r b = sn_r X \<and> bl_size b = sn_size X \<and> t0 \<le> bl_arrival b \<and> bl_arrival b \<le> t \<and> bl_done b"

definition same_receiver :: "fec_receiver \<Rightarrow> fec_receiver \<Rightarrow> bool" where
  "same_receiver rc rc' \<longleftrightarrow> rc_media_ssrc rc' = rc_media_ssrc rc \<and> rc_repair_ssrc rc' = rc_repair_ssrc rc \<and> rc_media_pt rc' = rc_media_pt rc \<and>
     rc_sources rc' = rc_sources rc \<and> rc_blocks rc' = rc_blocks rc"

lemma length_filter_nth: "length (filter P xs) = card {i. i < length xs \<and> P (xs ! i)}"
proof -
  have "length (filter P xs) = length (filter (\<lambda>i. P (xs ! i)) [0..<length xs])"
    using filter_map [of P "(!) xs" "[0..<length xs]"] by (simp add: map_nth comp_def)
  then show ?thesis by (simp add: length_filter_card)
qed

lemma lost_none: "card C = sn_k X \<Longrightarrow> C \<subseteq> {..<sn_k X} \<Longrightarrow> lost_packets X C [0..<sn_k X] = []"
  using card_subset_eq [of "{..<sn_k X}" C] by (auto simp: lost_packets_def filter_empty_conv)

lemma TryDecode_scene:
  assumes X: "scene_ok X" and c: "cached X t0 t C (rc_sources rc)" and b: "block_open X t0 t I b"
    and rc: "rc_media_ssrc rc = sn_ssrc X" "rc_media_pt rc = sn_pt X"
    and codec: "codec_ok ofc (sn_k X) (sn_r X) (sn_rows X) cache"
  shows "\<exists>ps b' rc' cache'. TryDecode ofc neon b (rc, cache) = Some (ps, b', rc', cache') \<and> same_receiver rc rc' \<and>
    codec_ok ofc (sn_k X) (sn_r X) (sn_rows X) cache' \<and>
    (if card C + card I < sn_k X then ps = [] \<and> b' = b
     else ps = lost_packets X C [0..<sn_k X] \<and> block_closed X t0 t b')"
proof -
  let ?k = "sn_k X" and ?f = "present_of X C"
  have bb: "bl_timestamp b = sn_ts X" "bl_base b = sn_base X" "bl_k b = ?k" "bl_r b = sn_r X" "bl_size b = sn_size X" "\<not> bl_done b"
    "I \<subseteq> {..<sn_r X}" "length (bl_present b) = sn_r X" "\<And>i. i < sn_r X \<Longrightarrow> bl_present b ! i \<longleftrightarrow> i \<in> I"
    "\<And>i. i < sn_r X \<Longrightarrow> bl_present b ! i \<Longrightarrow> bl_repairs b ! i = sn_repairs X ! i"
    using b by (auto simp: block_open_def)
  have C: "C \<subseteq> {..<?k}" using c by (simp add: cached_def)
  have found: "collect (rc_sources rc) b [0..<?k] = Some (Some (map ?f [0..<?k]))"
    by (rule collect_scene [OF X c bb(2,1,5)]) auto
  have "{i. i < ?k \<and> ?f i \<noteq> None} = C" using C by (auto simp: present_of_def)
  then have have': "length (filter (\<lambda>x. x \<noteq> None) (map ?f [0..<?k])) = card C"
    by (simp add: filter_map length_filter_card comp_def)
  have "{i. i < sn_r X \<and> bl_present b ! i} = I" using bb(7,9) by auto
  then have reps: "length (filter (\<lambda>x. x) (bl_present b)) = card I" by (simp add: length_filter_nth bb(8))
  have zip: "zip [0..<?k] (map ?f [0..<?k]) = map (\<lambda>i. (i, ?f i)) [0..<?k]" by (simp add: zip_map2 zip_same_conv_map)
  consider (all) "card C = ?k" | (few) "card C < ?k" "card C + card I < ?k" | (decode) "card C < ?k" "?k \<le> card C + card I"
    using card_mono [OF _ C] by force
  then show ?thesis
  proof cases
    case all
    then show ?thesis using bb found have' codec b lost_none [OF all C]
      by (auto simp: TryDecode_def Let_def same_receiver_def block_closed_def block_open_def)
  next
    case few
    then show ?thesis using bb found have' reps codec by (auto simp: TryDecode_def Let_def same_receiver_def)
  next
    case decode
    have sz: "0 < sn_size X" "sn_size X \<le> kMaxSymbolSize" "?k + sn_r X \<le> kMaxSymbols" "0 < ?k"
      using scene_size [OF X] by (auto simp: kMaxSymbolSize_def kMaxSymbols_def kFecMaxMediaPacket_def)
    obtain s0 where s0: "Decoder_Reset ofc ?k (sn_r X) (sn_size X) (rc_decoder rc) = (True, Some s0)" "scene_dec ofc X cache s0" "seen_set s0 = {}"
      using Reset_inv [of "sn_sources X" "sn_r X" "sn_size X" ofc "sn_rows X" cache "rc_decoder rc"] sz codec by auto
    obtain s1 c1 where s1: "feed_sources ofc neon (sn_size X) (map (\<lambda>i. (i, ?f i)) [0..<?k]) (Some s0, cache) = Some (Some s1, c1)"
        "scene_dec ofc X c1 s1" "seen_set s1 = C"
      using feed_sources_scene [OF X C decode(1) s0(2), of "[0..<?k]" neon] s0(3) C by (auto simp: Int_absorb1 atLeast0LessThan)
    obtain s2 c2 where s2: "feed_repairs ofc neon b [0..<sn_r X] (Some s1, c1) = Some (Some s2, c2)" "scene_dec ofc X c2 s2"
        "fs_complete s2 \<or> seen_set s2 = C \<union> (\<lambda>i. ?k + i) ` {i \<in> set [0..<sn_r X]. bl_present b ! i}"
      using feed_repairs_scene [OF X bb(3,5,10) s1(2), of "[0..<sn_r X]" neon] s1(3) by (auto simp: atLeast0LessThan)
    have I: "{i \<in> set [0..<sn_r X]. bl_present b ! i} = I" using bb(7,9) by auto
    have "card (C \<union> (\<lambda>i. ?k + i) ` I) = card C + card ((\<lambda>i. ?k + i) ` I)"
      by (rule card_Un_disjoint) (use C finite_subset [OF C] finite_subset [OF bb(7)] in auto)
    also have "card ((\<lambda>i. ?k + i) ` I) = card I" by (simp add: card_image)
    finally have "fs_complete s2 \<or> card (seen_set s2) = card C + card I" using s2(3) unfolding I by auto
    then have comp: "fs_complete s2" using scene_complete [OF s2(2)] decode(2) by auto
    then have "fs_symbols s2 ! i = packet_symbol (sn_size X) (sn_packets X ! i)" if "i < ?k" for i
      using s2(2) that by (simp add: dec_inv_def)
    then have res: "restore_packets (rc\<lparr>rc_decoder := Some s2\<rparr>) b (fs_symbols s2) (map (\<lambda>i. (i, ?f i)) [0..<?k]) =
        Some (Some (lost_packets X C [0..<?k]))"
      by (intro restore_scene [OF X]) (use rc bb in \<open>auto simp: atLeast0LessThan\<close>)
    have "codec_ok ofc ?k (sn_r X) (sn_rows X) c2" using s2(2) by (simp add: dec_inv_def)
    then show ?thesis using bb found have' reps decode zip s0(1) s1(1) s2(1) res comp b
      by (simp add: TryDecode_def Let_def Decoder_Complete_def Symbols_def same_receiver_def block_closed_def block_open_def)
  qed
qed

section \<open>The receiver\<close>

definition scene_rc :: "scene \<Rightarrow> fec_receiver \<Rightarrow> bool" where
  "scene_rc X rc \<longleftrightarrow> rc_media_ssrc rc = sn_ssrc X \<and> rc_media_pt rc = sn_pt X \<and> rc_repair_ssrc rc = sn_repair_ssrc X"

text \<open>
  Before the first repair packet there is no block; then the block of the scene is the only one. It is open while the
  packets and symbols do not suffice, and when it is closed all packets are cached.
\<close>

definition scene_blocks :: "scene \<Rightarrow> int \<Rightarrow> int \<Rightarrow> nat set \<Rightarrow> nat set \<Rightarrow> ((u32 \<times> u16) \<times> fec_block) list \<Rightarrow> bool" where
  "scene_blocks X t0 t C I bs \<longleftrightarrow> (bs = [] \<and> I = {}) \<or>
     (\<exists>b. bs = [((sn_ts X, sn_base X), b)] \<and>
       ((block_open X t0 t I b \<and> card C + card I < sn_k X) \<or> (block_closed X t0 t b \<and> C = {..<sn_k X})))"

definition scene_inv :: "openfec \<Rightarrow> scene \<Rightarrow> int \<Rightarrow> int \<Rightarrow> nat set \<Rightarrow> nat set \<Rightarrow> fec_receiver \<Rightarrow> rs_cache \<Rightarrow> bool" where
  "scene_inv ofc X t0 t C I rc cache \<longleftrightarrow> scene_rc X rc \<and> cached X t0 t C (rc_sources rc) \<and>
     codec_ok ofc (sn_k X) (sn_r X) (sn_rows X) cache \<and> scene_blocks X t0 t C I (rc_blocks rc)"

lemma cached_later: "cached X t0 t C src \<Longrightarrow> t \<le> t' \<Longrightarrow> cached X t0 t' C src"
  by (fastforce simp: cached_def)

lemma block_later: "block_open X t0 t I b \<Longrightarrow> t \<le> t' \<Longrightarrow> block_open X t0 t' I b" "block_closed X t0 t b \<Longrightarrow> t \<le> t' \<Longrightarrow> block_closed X t0 t' b"
  by (auto simp: block_open_def block_closed_def)

lemma scene_later: "scene_inv ofc X t0 t C I rc cache \<Longrightarrow> t \<le> t' \<Longrightarrow> scene_inv ofc X t0 t' C I rc cache"
  unfolding scene_inv_def scene_blocks_def using cached_later block_later by blast

lemma Expire_scene:
  assumes inv: "scene_inv ofc X t0 t C I rc cache" and now: "t \<le> now" "now < t0 + kFecWindowMs"
  shows "same_receiver rc (Expire now rc)"
proof -
  have "\<not> stale now (so_arrival (snd e))" if "e \<in> set (rc_sources rc)" for e
    using inv that now by (force simp: scene_inv_def cached_def stale_def)
  moreover have "\<not> stale now (bl_arrival (snd e))" if "e \<in> set (rc_blocks rc)" for e
    using inv that now by (auto simp: scene_inv_def scene_blocks_def block_open_def block_closed_def stale_def)
  ultimately show ?thesis by (auto simp: same_receiver_def Expire_def Let_def filter_id_conv)
qed

lemma same_scene: "same_receiver rc rc' \<Longrightarrow> scene_inv ofc X t0 t C I rc cache \<Longrightarrow> scene_inv ofc X t0 t C I rc' cache"
  by (simp add: same_receiver_def scene_inv_def scene_rc_def)

lemma cached_length: "scene_ok X \<Longrightarrow> cached X t0 t C src \<Longrightarrow> length src \<le> 16"
proof -
  assume X: "scene_ok X" and c: "cached X t0 t C src"
  have "length src = card (fst ` set src)"
    using c ordered_distinct [of src] by (metis cached_def distinct_card length_map set_map)
  also have "\<dots> \<le> card C" using c card_image_le [of C] finite_subset [of C "{..<sn_k X}"] by (auto simp: cached_def)
  also have "\<dots> \<le> sn_k X" using c card_mono [of "{..<sn_k X}" C] by (auto simp: cached_def)
  finally show ?thesis using scene_size(2) [OF X] by linarith
qed

text \<open>What caching packets of the scene changes: the sources only.\<close>

definition cached_more :: "scene \<Rightarrow> int \<Rightarrow> int \<Rightarrow> nat set \<Rightarrow> fec_receiver \<Rightarrow> fec_receiver \<Rightarrow> bool" where
  "cached_more X t0 now C rc rc' \<longleftrightarrow> cached X t0 now C (rc_sources rc') \<and> rc_blocks rc' = rc_blocks rc \<and> (scene_rc X rc \<longrightarrow> scene_rc X rc')"

lemma keys_omap_insert: "ordered xs \<Longrightarrow> fst ` set (omap_insert k v xs) = insert k (fst ` set xs)"
  unfolding set_omap_insert by force

lemma Cache_scene:
  assumes X: "scene_ok X" and c: "cached X t0 now C (rc_sources rc)" and i: "i < sn_k X" and t: "t0 \<le> now"
  shows "\<exists>rc'. Cache (sn_packets X ! i) now rc = Some rc' \<and> cached_more X t0 now (insert i C) rc rc'"
proof (cases "i \<in> C")
  case True
  then have "map_of (rc_sources rc) (sn_seq X i) \<noteq> None" using c by (auto simp: cached_def)
  then show ?thesis using True c scene_packet(3) [OF X i] by (auto simp: Cache_def cached_more_def insert_absorb)
next
  case False
  let ?e = "\<lparr>so_bytes = sn_packets X ! i, so_arrival = now\<rparr>"
  have o: "ordered (rc_sources rc)" using c by (simp add: cached_def)
  have none: "map_of (rc_sources rc) (sn_seq X i) = None" using cached_lookup [OF X c i] False by (simp add: present_of_def)
  have len: "\<not> 512 \<le> length (rc_sources rc)" using cached_length [OF X c] by simp
  have ne: "sn_seq X j \<noteq> sn_seq X i" if "j \<in> C" for j using that none c by (auto simp: cached_def)
  have "\<forall>e \<in> set (omap_insert (sn_seq X i) ?e (rc_sources rc)). t0 \<le> so_arrival (snd e) \<and> so_arrival (snd e) \<le> now"
    using c t unfolding set_omap_insert [OF o] by (auto simp: cached_def)
  then have "cached X t0 now (insert i C) (omap_insert (sn_seq X i) ?e (rc_sources rc))"
    using c i ordered_insert [OF o] map_of_omap_insert [OF o] keys_omap_insert [OF o] ne unfolding cached_def by simp
  then show ?thesis using none len scene_packet(3) [OF X i]
    by (auto simp: Cache_def Let_def cached_more_def scene_rc_def)
qed

lemma cache_all_scene:
  assumes X: "scene_ok X" and t: "t0 \<le> now"
  shows "cached X t0 now C (rc_sources rc) \<Longrightarrow> set js \<subseteq> {..<sn_k X} \<Longrightarrow>
    \<exists>rc'. cache_all now (map (\<lambda>i. sn_packets X ! i) js) rc = Some rc' \<and> cached_more X t0 now (C \<union> set js) rc rc'"
proof (induction js arbitrary: C rc)
  case Nil
  then show ?case by (simp add: cached_more_def)
next
  case (Cons i js)
  then obtain rc1 where 1: "Cache (sn_packets X ! i) now rc = Some rc1" "cached_more X t0 now (insert i C) rc rc1"
    using Cache_scene [OF X Cons.prems(1) _ t, of i] by auto
  then obtain rc2 where "cache_all now (map (\<lambda>i. sn_packets X ! i) js) rc1 = Some rc2" "cached_more X t0 now (insert i C \<union> set js) rc1 rc2"
    using Cons.IH [of "insert i C" rc1] Cons.prems(2) by (auto simp: cached_more_def)
  then show ?case using 1 by (auto simp: cached_more_def)
qed

text \<open>The packets that one arrival adds to the cache are the arrived one and the restored ones.\<close>

definition advanced :: "scene \<Rightarrow> nat set \<Rightarrow> nat set \<Rightarrow> symbols \<Rightarrow> bool" where
  "advanced X C C' ps \<longleftrightarrow> C \<subseteq> C' \<and> (\<forall>j \<in> C'. j \<in> C \<or> sn_packets X ! j \<in> set ps) \<and> set ps \<subseteq> set (sn_packets X)"

lemma open_block_step:
  assumes X: "scene_ok X" and c: "cached X t0 now C (rc_sources rc)" and b: "block_open X t0 now I b" and rc: "scene_rc X rc"
    and codec: "codec_ok ofc (sn_k X) (sn_r X) (sn_rows X) cache" and t: "t0 \<le> now"
  shows "\<exists>ps b' rc1 cache'. TryDecode ofc neon b (rc, cache) = Some (ps, b', rc1, cache') \<and> same_receiver rc rc1 \<and>
    (\<exists>rc' C'. cache_all now ps (rc1\<lparr>rc_blocks := [((sn_ts X, sn_base X), b')]\<rparr>) = Some rc' \<and>
      scene_inv ofc X t0 now C' I rc' cache' \<and> advanced X C C' ps)"
proof -
  let ?k = "sn_k X" and ?js = "filter (\<lambda>i. i \<notin> C) [0..<sn_k X]"
  have r: "rc_media_ssrc rc = sn_ssrc X" "rc_media_pt rc = sn_pt X" using rc by (simp_all add: scene_rc_def)
  obtain ps b' rc1 cache' where d: "TryDecode ofc neon b (rc, cache) = Some (ps, b', rc1, cache')" "same_receiver rc rc1"
      "codec_ok ofc ?k (sn_r X) (sn_rows X) cache'"
      "if card C + card I < ?k then ps = [] \<and> b' = b else ps = lost_packets X C [0..<?k] \<and> block_closed X t0 now b'"
    using TryDecode_scene [OF X c b r codec, of neon] by blast
  let ?rc = "rc1\<lparr>rc_blocks := [((sn_ts X, sn_base X), b')]\<rparr>"
  have rc1: "cached X t0 now C (rc_sources ?rc)" "scene_rc X ?rc" using c d(2) rc by (auto simp: same_receiver_def scene_rc_def)
  show ?thesis
  proof (cases "card C + card I < ?k")
    case True
    with d(4) have eq: "ps = []" "b' = b" by simp_all
    have "cache_all now ps ?rc = Some ?rc" "advanced X C C ps" by (simp_all add: eq advanced_def)
    moreover have "scene_inv ofc X t0 now C I ?rc cache'"
      unfolding scene_inv_def scene_blocks_def using rc1 d(3) b True by (simp add: eq)
    ultimately show ?thesis using d(1,2) by (intro exI conjI)
  next
    case False
    with d(4) have ps: "ps = map (\<lambda>i. sn_packets X ! i) ?js" "block_closed X t0 now b'" by (simp_all add: lost_packets_def)
    have C: "C \<union> set ?js = {..<?k}" using c by (auto simp: cached_def)
    obtain rc' where rc': "cache_all now ps ?rc = Some rc'" "cached_more X t0 now {..<?k} ?rc rc'"
      using cache_all_scene [OF X t rc1(1), of ?js] unfolding ps(1) C by auto
    then have "scene_inv ofc X t0 now {..<?k} I rc' cache'"
      using d(3) rc1(2) ps(2) by (simp add: cached_more_def scene_inv_def scene_blocks_def)
    moreover have "C \<subseteq> {..<?k}" using c by (simp add: cached_def)
    then have "advanced X C {..<?k} ps" unfolding ps(1) advanced_def by auto
    ultimately show ?thesis using d(1,2) rc'(1) by (intro exI conjI)
  qed
qed

lemma closed_block_step: "block_closed X t0 now b \<Longrightarrow> TryDecode ofc neon b st = Some ([], b, st)"
  by (cases st) (simp add: TryDecode_def block_closed_def)

lemma media_step:
  assumes X: "scene_ok X" and inv: "scene_inv ofc X t0 t C I rc cache" and i: "i < sn_k X"
    and now: "t0 \<le> now" "t \<le> now" "now < t0 + kFecWindowMs"
  shows "\<exists>ps rc' cache' C'. Receiver_AddPacket ofc neon (sn_packets X ! i) now (rc, cache) = Some (ps, rc', cache') \<and>
    scene_inv ofc X t0 now C' I rc' cache' \<and> advanced X (insert i C) C' ps"
proof -
  let ?p = "sn_packets X ! i" let ?rc = "Expire now rc"
  let ?rc0 = "?rc\<lparr>rc_stats := (rc_stats ?rc)\<lparr>st_source := st_source (rc_stats ?rc) + 1\<rparr>\<rparr>"
  have e: "scene_inv ofc X t0 now C I ?rc0 cache"
    using scene_later [OF same_scene [OF Expire_scene [OF inv now(2,3)] inv] now(2)] by (simp add: scene_inv_def scene_rc_def)
  obtain h m where p: "HeaderSize ?p = Some h" "h \<noteq> 0" "rd32 ?p 8 = Some (sn_ssrc X)" "rd8 ?p 1 = Some m" "m AND 127 = sn_pt X"
    using scene_packet(1) [OF X i] by (auto simp: media_packet_def)
  obtain rc1 where rc1: "Cache ?p now ?rc0 = Some rc1" "cached_more X t0 now (insert i C) ?rc0 rc1"
    using Cache_scene [OF X _ i now(1), of C ?rc0] e by (auto simp: scene_inv_def)
  have s1: "cached X t0 now (insert i C) (rc_sources rc1)" "scene_rc X rc1" "rc_blocks rc1 = rc_blocks ?rc0"
      "codec_ok ofc (sn_k X) (sn_r X) (sn_rows X) cache"
    using rc1(2) e by (auto simp: cached_more_def scene_inv_def)
  have add: "Receiver_AddPacket ofc neon ?p now (rc, cache) =
      do { (ps, bs, rc, cache) \<leftarrow> try_blocks ofc neon (rc_blocks rc1) (rc1, cache);
           rc \<leftarrow> cache_all now ps (rc\<lparr>rc_blocks := bs\<rparr>); Some (ps, rc, cache) }"
    using p scene_packet(2,6) [OF X i] e rc1(1)
    by (simp add: Receiver_AddPacket_def Let_def scene_inv_def scene_rc_def kFecMaxWirePacket_def kFecMaxMediaPacket_def)
  have le: "insert i C \<subseteq> {..<sn_k X}" using s1(1) by (simp add: cached_def)
  from e consider (none) "rc_blocks rc1 = []" "I = {}"
    | (opened) b where "rc_blocks rc1 = [((sn_ts X, sn_base X), b)]" "block_open X t0 now I b"
    | (closed) b where "rc_blocks rc1 = [((sn_ts X, sn_base X), b)]" "block_closed X t0 now b" "C = {..<sn_k X}"
    by (auto simp: scene_inv_def scene_blocks_def s1(3))
  then show ?thesis
  proof cases
    case none
    then have "Receiver_AddPacket ofc neon ?p now (rc, cache) = Some ([], rc1\<lparr>rc_blocks := []\<rparr>, cache)" by (simp add: add)
    moreover have "scene_inv ofc X t0 now (insert i C) I (rc1\<lparr>rc_blocks := []\<rparr>) cache"
      using s1 none by (simp add: scene_inv_def scene_blocks_def scene_rc_def)
    ultimately show ?thesis by (auto simp: advanced_def)
  next
    case opened
    obtain ps b' rc2 cache' rc' C' where d: "TryDecode ofc neon b (rc1, cache) = Some (ps, b', rc2, cache')"
        "cache_all now ps (rc2\<lparr>rc_blocks := [((sn_ts X, sn_base X), b')]\<rparr>) = Some rc'"
        "scene_inv ofc X t0 now C' I rc' cache'" "advanced X (insert i C) C' ps"
      using open_block_step [OF X s1(1) opened(2) s1(2,4) now(1), of neon] by blast
    then show ?thesis using opened(1) by (auto simp: add)
  next
    case closed
    then have "Receiver_AddPacket ofc neon ?p now (rc, cache) = Some ([], rc1, cache)"
      by (simp add: add closed_block_step)
    moreover have "scene_inv ofc X t0 now C I rc1 cache"
      using s1(1,2,4) closed le by (simp add: scene_inv_def scene_blocks_def insert_absorb)
    ultimately show ?thesis using closed le by (auto simp: advanced_def)
  qed
qed

lemma omap_insert_single: "omap_insert k v [(k, w)] = [(k, v)]"
  by simp

lemma block_open_new:
  assumes "block_open X t0 now I b" "j < sn_r X" "j \<notin> I"
  shows "block_open X t0 now (insert j I) (b\<lparr>bl_repairs := (bl_repairs b)[j := sn_repairs X ! j], bl_present := (bl_present b)[j := True]\<rparr>)"
  using assms by (auto simp: block_open_def nth_list_update)

text \<open>A new repair symbol of an open block.\<close>

lemma open_repair_step:
  assumes X: "scene_ok X" and j: "j < sn_r X" "j \<notin> I" and c: "cached X t0 now C (rc_sources rc)" and b: "block_open X t0 now I b"
    and rc: "scene_rc X rc" "find_block now (sn_ts X, sn_base X) h rc0 = rc" "rc_blocks rc = [((sn_ts X, sn_base X), b)]"
    and h: "h = \<lparr>fh_k = sn_k X, fh_r = sn_r X, fh_id = sn_k X + j, fh_size = sn_size X, fh_base = sn_base X\<rparr>"
    and codec: "codec_ok ofc (sn_k X) (sn_r X) (sn_rows X) cache" and t: "t0 \<le> now"
  shows "\<exists>ps rc' cache' C'. add_repair ofc neon now (sn_ts X) h (sn_repairs X ! j) (rc0, cache) = Some (ps, rc', cache') \<and>
    scene_inv ofc X t0 now C' (insert j I) rc' cache' \<and> advanced X C C' ps"
proof -
  let ?b = "b\<lparr>bl_repairs := (bl_repairs b)[j := sn_repairs X ! j], bl_present := (bl_present b)[j := True]\<rparr>"
  let ?rc = "rc\<lparr>rc_stats := (rc_stats rc)\<lparr>st_repair := st_repair (rc_stats rc) + 1\<rparr>\<rparr>"
  have bb: "bl_k b = sn_k X" "bl_r b = sn_r X" "bl_size b = sn_size X" "\<not> bl_done b" "\<not> bl_present b ! j"
    using b j by (auto simp: block_open_def)
  have r: "cached X t0 now C (rc_sources ?rc)" "scene_rc X ?rc" using c rc(1) by (simp_all add: scene_rc_def)
  obtain ps b' rc1 cache' rc' C' where d: "TryDecode ofc neon ?b (?rc, cache) = Some (ps, b', rc1, cache')" "same_receiver ?rc rc1"
      "cache_all now ps (rc1\<lparr>rc_blocks := [((sn_ts X, sn_base X), b')]\<rparr>) = Some rc'"
      "scene_inv ofc X t0 now C' (insert j I) rc' cache'" "advanced X C C' ps"
    using open_block_step [OF X r(1) block_open_new [OF b j] r(2) codec t, of neon] by blast
  have "rc_blocks rc1 = [((sn_ts X, sn_base X), b)]" using d(2) rc(3) by (simp add: same_receiver_def)
  then have "add_repair ofc neon now (sn_ts X) h (sn_repairs X ! j) (rc0, cache) = Some (ps, rc', cache')"
    using bb d(1,3) rc(2,3) by (simp add: add_repair_def Let_def h)
  then show ?thesis using d(4,5) by blast
qed

lemma repair_step:
  assumes X: "scene_ok X" and inv: "scene_inv ofc X t0 t C I rc cache" and j: "j < sn_r X"
    and now: "t0 \<le> now" "t \<le> now" "now < t0 + kFecWindowMs"
    and wire: "the (HeaderSize (last (sn_packets X))) + 16 + sn_size X \<le> kFecMaxWirePacket"
  shows "\<exists>ps rc' cache' C' I'. Receiver_AddPacket ofc neon (scene_repair X j) now (rc, cache) = Some (ps, rc', cache') \<and>
    scene_inv ofc X t0 now C' I' rc' cache' \<and> advanced X C C' ps \<and> (insert j I \<subseteq> I' \<or> C' = {..<sn_k X})"
proof -
  let ?rc = "Expire now rc" and ?key = "(sn_ts X, sn_base X)" and ?k = "sn_k X"
  let ?h = "\<lparr>fh_k = sn_k X, fh_r = sn_r X, fh_id = sn_k X + j, fh_size = sn_size X, fh_base = sn_base X\<rparr>"
  have e: "scene_inv ofc X t0 now C I ?rc cache"
    using scene_later [OF same_scene [OF Expire_scene [OF inv now(2,3)] inv] now(2)] .
  then have s: "cached X t0 now C (rc_sources ?rc)" "scene_rc X ?rc" "codec_ok ofc ?k (sn_r X) (sn_rows X) cache"
    by (auto simp: scene_inv_def)
  have ne: "sn_repair_ssrc X \<noteq> sn_ssrc X" using X by (simp add: scene_ok_def)
  have pt: "kRsFecPayloadType AND 127 = kRsFecPayloadType" by (simp add: kRsFecPayloadType_def)
  have add: "Receiver_AddPacket ofc neon (scene_repair X j) now (rc, cache) =
      add_repair ofc neon now (sn_ts X) ?h (sn_repairs X ! j) (?rc, cache)"
    by (rule scene_repair_read [OF X j wire])
      (use s(2) ne in \<open>simp add: Receiver_AddPacket_def Let_def scene_rc_def pt\<close>)
  define nb where "nb = \<lparr>bl_timestamp = sn_ts X, bl_base = sn_base X, bl_k = ?k, bl_r = sn_r X, bl_size = sn_size X, bl_arrival = now,
    bl_done = False, bl_repairs = replicate (sn_r X) [], bl_present = replicate (sn_r X) False\<rparr>"
  from e consider (none) "rc_blocks ?rc = []" "I = {}"
    | (opened) b where "rc_blocks ?rc = [(?key, b)]" "block_open X t0 now I b"  "card C + card I < ?k"
    | (closed) b where "rc_blocks ?rc = [(?key, b)]" "block_closed X t0 now b" "C = {..<?k}"
    by (auto simp: scene_inv_def scene_blocks_def)
  then show ?thesis
  proof cases
    case none
    let ?rcn = "?rc\<lparr>rc_blocks := [(?key, nb)]\<rparr>"
    have n: "j \<notin> {}" "cached X t0 now C (rc_sources ?rcn)" "block_open X t0 now {} nb" "scene_rc X ?rcn"
      using now(1) s by (simp_all add: nb_def block_open_def scene_rc_def)
    have f: "find_block now ?key ?h ?rc = ?rcn" using none(1) by (simp add: find_block_def Let_def nb_def)
    have bl: "rc_blocks ?rcn = [(?key, nb)]" by simp
    obtain ps rc' cache' C' where "add_repair ofc neon now (sn_ts X) ?h (sn_repairs X ! j) (?rc, cache) = Some (ps, rc', cache')"
        "scene_inv ofc X t0 now C' {j} rc' cache'" "advanced X C C' ps"
      using open_repair_step [OF X j n f bl refl s(3) now(1), of neon] by blast
    then show ?thesis unfolding add none(2) by blast
  next
    case opened
    have f: "find_block now ?key ?h ?rc = ?rc" using opened(1) by (simp add: find_block_def)
    show ?thesis
    proof (cases "j \<in> I")
      case True
      then have "bl_present b ! j" "bl_k b = ?k" "bl_r b = sn_r X" "bl_size b = sn_size X" using opened(2) j by (auto simp: block_open_def)
      then have "add_repair ofc neon now (sn_ts X) ?h (sn_repairs X ! j) (?rc, cache) = Some ([], ?rc, cache)"
        using opened(1) f by (simp add: add_repair_def Let_def)
      then show ?thesis using e True unfolding add by (auto simp: advanced_def)
    next
      case False
      obtain ps rc' cache' C' where "add_repair ofc neon now (sn_ts X) ?h (sn_repairs X ! j) (?rc, cache) = Some (ps, rc', cache')"
          "scene_inv ofc X t0 now C' (insert j I) rc' cache'" "advanced X C C' ps"
        using open_repair_step [OF X j False s(1) opened(2) s(2) f opened(1) refl s(3) now(1), of neon] by blast
      then show ?thesis unfolding add by blast
    qed
  next
    case closed
    then have "add_repair ofc neon now (sn_ts X) ?h (sn_repairs X ! j) (?rc, cache) = Some ([], ?rc, cache)"
      by (simp add: add_repair_def find_block_def Let_def block_closed_def)
    then show ?thesis using e closed(3) unfolding add by (auto simp: advanced_def)
  qed
qed

section \<open>A run of the receiver\<close>

lemma advanced_trans: "advanced X A B ps \<Longrightarrow> advanced X B C qs \<Longrightarrow> advanced X A C (ps @ qs)"
  by (auto simp: advanced_def)

lemma scene_closed_stays:
  assumes "scene_inv ofc X t0 t C I rc cache" "advanced X {..<sn_k X} C ps"
  shows "C = {..<sn_k X}"
  using assms by (auto simp: advanced_def scene_inv_def cached_def)

text \<open>Arrived packets of the scene are cached, or their repair symbols are, unless the block is already complete.\<close>

definition accounted :: "scene \<Rightarrow> nat set \<Rightarrow> nat set \<Rightarrow> bytes set \<Rightarrow> bool" where
  "accounted X C I A \<longleftrightarrow> C = {..<sn_k X} \<or> A \<subseteq> (\<lambda>i. sn_packets X ! i) ` C \<union> scene_repair X ` I"

lemma accounted_step:
  assumes "accounted X C I A" "C = {..<sn_k X} \<Longrightarrow> C' = {..<sn_k X}" "C \<subseteq> C'"
    "C' = {..<sn_k X} \<or> I \<subseteq> I' \<and> p \<in> (\<lambda>i. sn_packets X ! i) ` C' \<union> scene_repair X ` I'"
  shows "accounted X C' I' (insert p A)"
proof (cases "C' = {..<sn_k X}")
  case False
  then have "A \<subseteq> (\<lambda>i. sn_packets X ! i) ` C \<union> scene_repair X ` I" "I \<subseteq> I'"
      "p \<in> (\<lambda>i. sn_packets X ! i) ` C' \<union> scene_repair X ` I'" using assms by (auto simp: accounted_def)
  then show ?thesis using assms(3) image_mono unfolding accounted_def by blast
qed (simp add: accounted_def)

lemma run_scene:
  assumes X: "scene_ok X" and wire: "the (HeaderSize (last (sn_packets X))) + 16 + sn_size X \<le> kFecMaxWirePacket"
  shows "scene_inv ofc X t0 t C I rc cache \<Longrightarrow> accounted X C I A \<Longrightarrow> t0 \<le> t \<Longrightarrow>
    fst ` set xs \<subseteq> set (sn_packets X) \<union> scene_repair X ` {..<sn_r X} \<Longrightarrow> sorted (t # map snd xs) \<Longrightarrow>
    (\<forall>x \<in> set xs. snd x < t0 + kFecWindowMs) \<Longrightarrow>
    \<exists>ps rc' cache' t' C' I'. receiver_run ofc neon xs (rc, cache) = Some (ps, rc', cache') \<and> scene_inv ofc X t0 t' C' I' rc' cache' \<and>
      (\<forall>j \<in> C'. j \<in> C \<or> sn_packets X ! j \<in> fst ` set xs \<union> set ps) \<and> set ps \<subseteq> set (sn_packets X) \<and>
      accounted X C' I' (A \<union> fst ` set xs)"
proof (induction xs arbitrary: rc cache t C I A)
  case Nil
  then show ?case by (auto simp: advanced_def)
next
  case (Cons x xs)
  obtain p now where x: "x = (p, now)" by (cases x)
  have now: "t0 \<le> now" "t \<le> now" "now < t0 + kFecWindowMs" using Cons.prems x by auto
  have "p \<in> set (sn_packets X) \<union> scene_repair X ` {..<sn_r X}" using Cons.prems(4) x by simp
  then consider (media) i where "i < sn_k X" "p = sn_packets X ! i" | (repair) j where "j < sn_r X" "p = scene_repair X j"
    by (auto simp: in_set_conv_nth)
  then obtain ps rc1 c1 C1 I1 where 1: "Receiver_AddPacket ofc neon p now (rc, cache) = Some (ps, rc1, c1)"
      "scene_inv ofc X t0 now C1 I1 rc1 c1" "\<forall>j \<in> C1. j \<in> C \<or> sn_packets X ! j \<in> insert p (set ps)" "set ps \<subseteq> set (sn_packets X)"
      "accounted X C1 I1 (insert p A)"
  proof cases
    case media
    obtain ps rc1 c1 C1 where m: "Receiver_AddPacket ofc neon p now (rc, cache) = Some (ps, rc1, c1)" "scene_inv ofc X t0 now C1 I rc1 c1"
        "advanced X (insert i C) C1 ps"
      using media_step [OF X Cons.prems(1) media(1) now, of neon] media(2) by blast
    have "C1 = {..<sn_k X}" if "C = {..<sn_k X}"
      by (rule scene_closed_stays [OF m(2)]) (use m(3) that media(1) in \<open>auto simp: advanced_def\<close>)
    then have "accounted X C1 I (insert p A)"
      by (rule accounted_step [OF Cons.prems(2)]) (use m(3) media(2) in \<open>auto simp: advanced_def\<close>)
    moreover have "\<forall>j \<in> C1. j \<in> C \<or> sn_packets X ! j \<in> insert p (set ps)" using m(3) media(2) by (auto simp: advanced_def)
    ultimately show ?thesis using that [OF m(1,2)] m(3) by (simp add: advanced_def)
  next
    case repair
    obtain ps rc1 c1 C1 I1 where m: "Receiver_AddPacket ofc neon p now (rc, cache) = Some (ps, rc1, c1)" "scene_inv ofc X t0 now C1 I1 rc1 c1"
        "advanced X C C1 ps" "insert j I \<subseteq> I1 \<or> C1 = {..<sn_k X}"
      using repair_step [OF X Cons.prems(1) repair(1) now wire, of neon] repair(2) by blast
    have "C1 = {..<sn_k X}" if "C = {..<sn_k X}"
      by (rule scene_closed_stays [OF m(2)]) (use m(3) that in \<open>auto simp: advanced_def\<close>)
    then have "accounted X C1 I1 (insert p A)"
      by (rule accounted_step [OF Cons.prems(2)]) (use m(3,4) repair(2) in \<open>auto simp: advanced_def\<close>)
    moreover have "\<forall>j \<in> C1. j \<in> C \<or> sn_packets X ! j \<in> insert p (set ps)" using m(3) by (auto simp: advanced_def)
    ultimately show ?thesis using that [OF m(1,2)] m(3) by (simp add: advanced_def)
  qed
  have "fst ` set xs \<subseteq> set (sn_packets X) \<union> scene_repair X ` {..<sn_r X}" "sorted (now # map snd xs)" "\<forall>x \<in> set xs. snd x < t0 + kFecWindowMs"
    using Cons.prems(4-6) x by auto
  then obtain qs rc2 c2 t2 C2 I2 where 2: "receiver_run ofc neon xs (rc1, c1) = Some (qs, rc2, c2)" "scene_inv ofc X t0 t2 C2 I2 rc2 c2"
      "\<forall>j \<in> C2. j \<in> C1 \<or> sn_packets X ! j \<in> fst ` set xs \<union> set qs" "set qs \<subseteq> set (sn_packets X)" "accounted X C2 I2 (insert p A \<union> fst ` set xs)"
    using Cons.IH [OF 1(2,5) now(1)] by blast
  have "receiver_run ofc neon (x # xs) (rc, cache) = Some (ps @ qs, rc2, c2)" using 1(1) 2(1) by (simp add: x)
  moreover have "\<forall>j \<in> C2. j \<in> C \<or> sn_packets X ! j \<in> fst ` set (x # xs) \<union> set (ps @ qs)" using 1(3) 2(3) x by fastforce
  moreover have "set (ps @ qs) \<subseteq> set (sn_packets X)" using 1(4) 2(4) by simp
  moreover have "accounted X C2 I2 (A \<union> fst ` set (x # xs))" using 2(5) x by (simp add: Un_insert_right)
  ultimately show ?case using 2(2) by blast
qed

lemma those_length: "those xs = Some ys \<Longrightarrow> length ys = length xs"
  by (induction xs arbitrary: ys) (auto simp: bind_eq_Some_conv)

lemma Flush_repairs:
  assumes "Flush ofc neon D rssrc now (s, cache) = Some (out, s', cache')" "out \<noteq> []"
  obtains header n R c ssrc base where "sd_pending s \<noteq> []" "HeaderSize (last (sd_pending s)) = Some header"
    "header + 16 + symbol_size (sd_pending s) \<le> kFecMaxWirePacket" "0 < n" "n \<le> kFecMaxRepairs"
    "EncodeSymbols ofc neon cache (map (packet_symbol (symbol_size (sd_pending s))) (sd_pending s)) n = Some (Some R, c)"
    "rd32 (hd (sd_pending s)) 8 = Some ssrc" "rd16 (hd (sd_pending s)) 2 = Some base"
    "out = map (\<lambda>i. repair_packet (last (sd_pending s)) header rssrc (length (sd_pending s)) n i (symbol_size (sd_pending s)) ssrc base (R ! i)) [0..<length R]"
proof -
  let ?P = "sd_pending s"
  have p: "?P \<noteq> []" using assms by (auto simp: Flush_def)
  obtain header where h: "HeaderSize (last ?P) = Some header" using HeaderSize_total by blast
  let ?wire = "header + kFecHeaderSize + symbol_size ?P"
  let ?s = "s\<lparr>sd_pending := []\<rparr>"
  obtain n budget where a: "afford D (?wire + 64) now (repair_count D (length ?P) ?wire ?s) 0 (sd_budget ?s) = (n, budget)"
    by (cases "afford D (?wire + 64) now (repair_count D (length ?P) ?wire ?s) 0 (sd_budget ?s)")
  have "repair_count D (length ?P) ?wire ?s \<le> kFecMaxRepairs" unfolding repair_count_def Let_def by linarith
  then have n: "n \<le> kFecMaxRepairs" using afford_le [of D "?wire + 64" now "repair_count D (length ?P) ?wire ?s" 0 "sd_budget ?s"] a by simp
  show thesis
    using assms p h a n that unfolding Flush_def Let_def
    by (auto simp: kFecHeaderSize_def split: if_splits option.splits Option.bind_split_asm prod.splits)
qed

lemma EncodeSymbols_length:
  assumes "EncodeSymbols ofc neon cache S r = Some (Some R, c)"
  shows "length R = r"
  using assms those_length [of "map _ [0..<r]" R]
  by (auto simp: EncodeSymbols_def EncodeSmallRs_def Let_def bind_eq_Some_conv split: if_splits option.splits dest: those_length)

lemma enough_packets:
  assumes inv: "scene_inv ofc X t0 t C I rc cache" and acc: "accounted X C I A" and n: "sn_k X \<le> card A"
  shows "C = {..<sn_k X}"
proof (rule ccontr)
  assume ne: "C \<noteq> {..<sn_k X}"
  then have A: "A \<subseteq> (\<lambda>i. sn_packets X ! i) ` C \<union> scene_repair X ` I" using acc by (simp add: accounted_def)
  have C: "C \<subset> {..<sn_k X}" using inv ne by (auto simp: scene_inv_def cached_def)
  then have fin: "finite C" "card C < sn_k X" using psubset_card_mono [OF _ C] finite_subset [of C] by auto
  have I: "I = {} \<or> (I \<subseteq> {..<sn_r X} \<and> card C + card I < sn_k X)"
    using inv ne by (auto simp: scene_inv_def scene_blocks_def block_open_def)
  then have finI: "finite I" using finite_subset by auto
  have "card A \<le> card ((\<lambda>i. sn_packets X ! i) ` C \<union> scene_repair X ` I)" using A fin finI by (intro card_mono) auto
  also have "\<dots> \<le> card C + card I"
    using card_Un_le card_image_le [OF fin(1)] card_image_le [OF finI] by (meson add_mono order_trans)
  finally show False using I n fin(2) by auto
qed

section \<open>Sender and receiver\<close>

text \<open>
  C4: When the sender flushes a block of consecutive packets of a frame and emits repair packets, then a receiver that
  gets any of these packets, in any order and repeatedly, at least as many different ones as the block has media
  packets, within 150 ms, ends up with every media packet of the block: each is received or handed out by the
  receiver byte for byte, and nothing else is handed out. Any number of losses up to the number of repair packets
  is repaired. The generator rows are those of OpenFEC, whose code is MDS.
\<close>

theorem fec_block_recovered:
  assumes "frame_packets ssrc pt ts base (sd_pending s)" and "repair_ssrc \<noteq> ssrc"
    and "Flush ofc neon D repair_ssrc now (s, cache) = Some (out, s', cache')" and "out \<noteq> []"
    and "codec_ok ofc (length (sd_pending s)) (length out) rs cache" and "codec_ok ofc (length (sd_pending s)) (length out) rs rcache"
    and "fst ` set xs \<subseteq> set (sd_pending s) \<union> set out" and "length (sd_pending s) \<le> card (fst ` set xs)"
    and "sorted (map snd xs)" and "\<forall>x \<in> set xs. t0 \<le> snd x \<and> snd x < t0 + kFecWindowMs"
  shows "\<exists>ps rc rcache'. receiver_run ofc neon' xs (fec_receiver_init ssrc repair_ssrc pt, rcache) = Some (ps, rc, rcache') \<and>
    set ps \<subseteq> set (sd_pending s) \<and> set (sd_pending s) \<subseteq> fst ` set xs \<union> set ps"
proof -
  let ?P = "sd_pending s" let ?S = "map (packet_symbol (symbol_size ?P)) ?P"
  obtain header n R c hs hb where f: "?P \<noteq> []" "HeaderSize (last ?P) = Some header" "header + 16 + symbol_size ?P \<le> kFecMaxWirePacket"
      "0 < n" "n \<le> kFecMaxRepairs" "EncodeSymbols ofc neon cache ?S n = Some (Some R, c)" "rd32 (hd ?P) 8 = Some hs" "rd16 (hd ?P) 2 = Some hb"
      "out = map (\<lambda>i. repair_packet (last ?P) header repair_ssrc (length ?P) n i (symbol_size ?P) hs hb (R ! i)) [0..<length R]"
    using Flush_repairs [OF assms(3,4)] by blast
  have R: "length R = n" by (rule EncodeSymbols_length [OF f(6)])
  then have n: "length out = n" by (simp add: f(9))
  have first: "media_packet ssrc pt (?P ! 0) \<and> rd16 (?P ! 0) 2 = Some base" using assms(1) f(1) by (auto simp: frame_packets_def)
  then have hd: "hs = ssrc" "hb = base" using f(1,7,8) by (auto simp: hd_conv_nth media_packet_def)
  define X where "X = \<lparr>sn_ssrc = ssrc, sn_pt = pt, sn_repair_ssrc = repair_ssrc, sn_ts = ts, sn_base = base, sn_packets = ?P,
    sn_rows = rs, sn_repairs = R\<rparr>"
  have sz: "length p \<le> kFecMaxMediaPacket" "length p + 2 \<le> symbol_size ?P" "12 < length p" if "p \<in> set ?P" for p
    using that assms(1) symbol_size_ge [OF that] media_packet_length by (auto simp: in_set_conv_nth frame_packets_def media_packet_def)
  have S: "length (?S ! i) = symbol_size ?P" if "i < length ?S" for i using that sz by (simp add: length_packet_symbol)
  have "symbol_size ?P \<le> kFecMaxMediaPacket + 2" "0 < symbol_size ?P"
    using symbol_size_le [of ?P kFecMaxMediaPacket] sz f(1) hd_in_set [OF f(1)] by fastforce+
  moreover have "length ?P \<le> 16" using assms(1) by (simp add: frame_packets_def kFecMaxSources_def)
  ultimately have "(?S @ R) ! i = code_sym (symbol_size ?P) rs ?S i" if "i < length ?P + n" for i
    using EncodeSymbols_block [of ?S n "symbol_size ?P" ofc rs cache neon] S f(1,5,6) assms(5) that
    by (auto simp: n kMaxSymbols_def kMaxSymbolSize_def kFecMaxMediaPacket_def kFecMaxRepairs_def)
  then have sym: "R ! i = code_sym (symbol_size ?P) rs ?S (length ?P + i)" if "i < n" for i
    using that nth_append_length_plus [of ?S R i] by simp
  have X: "scene_ok X" using assms(1,2) f(4,5) R sym by (simp add: scene_ok_def X_def)
  have out: "set out = scene_repair X ` {..<sn_r X}" unfolding f(9) using f(2) R by (auto simp: X_def scene_repair_def hd)
  let ?rc = "fec_receiver_init ssrc repair_ssrc pt"
  have inv: "scene_inv ofc X t0 t0 {} {} ?rc rcache" "accounted X {} {} {}"
    using assms(6) n R by (auto simp: scene_inv_def scene_rc_def cached_def scene_blocks_def accounted_def fec_receiver_init_def X_def)
  have xs: "fst ` set xs \<subseteq> set (sn_packets X) \<union> scene_repair X ` {..<sn_r X}" "sorted (t0 # map snd xs)" "\<forall>x \<in> set xs. snd x < t0 + kFecWindowMs"
    using assms(7,9,10) unfolding out [symmetric] by (auto simp: X_def)
  have wire: "the (HeaderSize (last (sn_packets X))) + 16 + sn_size X \<le> kFecMaxWirePacket" using f(2,3) by (simp add: X_def)
  obtain ps rc' c' t' C I where r: "receiver_run ofc neon' xs (?rc, rcache) = Some (ps, rc', c')" "scene_inv ofc X t0 t' C I rc' c'"
      "\<forall>j \<in> C. sn_packets X ! j \<in> fst ` set xs \<union> set ps" "set ps \<subseteq> set (sn_packets X)" "accounted X C I (fst ` set xs)"
    using run_scene [OF X wire inv order_refl xs, of neon'] by auto
  have "C = {..<sn_k X}" by (rule enough_packets [OF r(2,5)]) (use assms(8) in \<open>simp add: X_def\<close>)
  then have "\<forall>j < length ?P. ?P ! j \<in> fst ` set xs \<union> set ps" using r(3) by (simp add: X_def)
  then have "set ?P \<subseteq> fst ` set xs \<union> set ps" by (metis in_set_conv_nth subsetI)
  then show ?thesis using r(1,4) by (auto simp: X_def)
qed

text \<open>Two packets of a frame with one repair packet, of which the first one is lost.\<close>

definition frame_first :: bytes where "frame_first = [0x80, 96, 0, 5, 0, 0, 0, 1, 0, 0, 0, 7, 1, 2]"
definition frame_second :: bytes where "frame_second = [0x80, 0xE0, 0, 6, 0, 0, 0, 1, 0, 0, 0, 7, 3]"

definition frame_sender :: "int fec_sender" where
  "frame_sender = (fec_sender_init milli_ops)\<lparr>sd_pending := [frame_first, frame_second], sd_credit := 4800000\<rparr>"

lemma frame_sender_packets: "frame_packets 7 96 1 5 (sd_pending frame_sender)"
proof -
  have "HeaderSize frame_first = Some 12" "HeaderSize frame_second = Some 12" by code_simp+
  moreover have "rd32 frame_first 8 = Some 7" "rd8 frame_first 1 = Some 96" "rd32 frame_first 4 = Some 1" "rd16 frame_first 2 = Some 5"
    "rd32 frame_second 8 = Some 7" "rd8 frame_second 1 = Some 0xE0" "rd32 frame_second 4 = Some 1" "rd16 frame_second 2 = Some 6"
    by code_simp+
  ultimately show ?thesis
    by (auto simp: frame_packets_def frame_sender_def media_packet_def less_Suc_eq kFecMaxSources_def kFecMaxMediaPacket_def
        frame_first_def frame_second_def)
qed

lemma frame_sender_flush:
  "\<exists>q s' cache'. Flush parity_openfec True milli_ops 99 0 (frame_sender, \<lambda>_. None) = Some ([q], s', cache') \<and> length q = 44"
proof -
  let ?P = "[frame_first, frame_second]" let ?S = "map (packet_symbol 16) ?P"
  have sz: "symbol_size ?P = 16" by code_simp
  have codec: "codec_ok parity_openfec 2 1 parity_rows (\<lambda>_. None)" unfolding codec_ok_def using parity_matrix parity_mds by blast
  have len: "length (?S ! i) = 16" if "i < length ?S" for i
    using that by (auto simp: less_Suc_eq packet_symbol_def frame_first_def frame_second_def)
  obtain R c where R: "EncodeSymbols parity_openfec True (\<lambda>_. None) ?S 1 = Some (Some R, c)" "length R = 1" "(?S @ R) ! 2 = code_sym 16 parity_rows ?S 2"
    using EncodeSymbols_block [of ?S 1 16 parity_openfec parity_rows "\<lambda>_. None" True] len codec
    by (auto simp: kMaxSymbols_def kMaxSymbolSize_def numeral_2_eq_2)
  have R0: "length (R ! 0) = 16" using R(3) code_sym_length [of ?S 16 parity_rows 2] len by (simp add: numeral_2_eq_2)
  have h: "HeaderSize (last ?P) = Some 12" "rd32 (hd ?P) 8 = Some 7" "rd16 (hd ?P) 2 = Some 5" by code_simp+
  have a: "fst (afford milli_ops 108 0 (repair_count milli_ops 2 44 (frame_sender\<lparr>sd_pending := []\<rparr>)) 0 (sd_budget frame_sender)) = 1"
    by code_simp
  have fields: "sd_pending frame_sender = ?P" "sd_first frame_sender = 0" "fc_window (sd_config frame_sender) = 150"
      "fc_window (sd_block_config frame_sender) = 150" by code_simp+
  obtain budget where a': "afford milli_ops 108 0 (repair_count milli_ops 2 44 (frame_sender\<lparr>sd_pending := []\<rparr>)) 0 (sd_budget frame_sender) = (1, budget)"
    using a by (cases "afford milli_ops 108 0 (repair_count milli_ops 2 44 (frame_sender\<lparr>sd_pending := []\<rparr>)) 0 (sd_budget frame_sender)") auto
  let ?q = "repair_packet frame_second 12 99 2 1 0 16 7 5 (R ! 0)"
  have "\<exists>s' cache'. Flush parity_openfec True milli_ops 99 0 (frame_sender, \<lambda>_. None) = Some ([?q], s', cache')"
    using h a' R(1,2) sz by (simp add: Flush_def Let_def fields kFecHeaderSize_def kFecMaxWirePacket_def numeral_2_eq_2)
  moreover have "length ?q = 44" using R0 repair_packet_prefix(1) [of 12 frame_second] by (simp add: frame_second_def)
  ultimately show ?thesis by blast
qed

theorem fec_block_recovered_witness:
  "\<exists>q s' cache' ps rc c. Flush parity_openfec True milli_ops 99 0 (frame_sender, \<lambda>_. None) = Some ([q], s', cache') \<and>
     receiver_run parity_openfec False [(q, 10), (frame_second, 20)] (fec_receiver_init 7 99 96, \<lambda>_. None) = Some (ps, rc, c) \<and>
     frame_first \<in> set ps"
proof -
  obtain q s' cache' where f: "Flush parity_openfec True milli_ops 99 0 (frame_sender, \<lambda>_. None) = Some ([q], s', cache')" "length q = 44"
    using frame_sender_flush by blast
  have p: "sd_pending frame_sender = [frame_first, frame_second]" by (simp add: frame_sender_def)
  have ne: "q \<noteq> frame_first" "q \<noteq> frame_second" "frame_first \<noteq> frame_second"
    using f(2) by (auto simp: frame_first_def frame_second_def)
  have codec: "codec_ok parity_openfec 2 1 parity_rows (\<lambda>_. None)" unfolding codec_ok_def using parity_matrix parity_mds by blast
  have ssrc: "(99 :: u32) \<noteq> 7" by simp
  have "\<exists>ps rc c. receiver_run parity_openfec False [(q, 10), (frame_second, 20)] (fec_receiver_init 7 99 96, \<lambda>_. None) = Some (ps, rc, c) \<and>
      set ps \<subseteq> set (sd_pending frame_sender) \<and> set (sd_pending frame_sender) \<subseteq> fst ` set [(q, 10 :: int), (frame_second, 20)] \<union> set ps"
    by (rule fec_block_recovered [OF frame_sender_packets ssrc f(1), where ?t0.0 = 0 and rs = parity_rows])
      (use codec ne in \<open>auto simp: p kFecWindowMs_def numeral_2_eq_2\<close>)
  then show ?thesis using f(1) ne p by auto
qed

end
