(* ===== verification/Fec_Adaptation.thy ===== *)
theory Fec_Adaptation
  imports Rtp_Fec
begin

text \<open>
  How much forward error correction a stream gets (\<open>fec/fec_adaptation_controller.cpp\<close>): the tracker of the
  transport feedback, the controller of the source ratio, the split of the bitrate, and the SDP predicates that
  enable the mechanism (\<open>fec/rtp_fec.cpp\<close>).

  \<^descr> Packets are kept by transport sequence number in key order; the maps of the snapshot by SSRC are functions,
  with the default 0 that \<open>operator[]\<close> inserts.
  \<^descr> The arithmetic on \<open>double\<close> is the parameter \<open>double_ops\<close>. Times and bitrates are integers: the products
  with 8 and 10 stay inside 64 bits for every bitrate below \<open>2 ^ 60\<close>.

  The lemmas show that the tracker stays within 16384 packets, that a snapshot is the count over the observation
  window of each stream, that repeated reports change nothing, and the hysteresis of the controller.
\<close>

section \<open>Feedback tracker\<close>

datatype fec_kind = KMedia | KRepair | KRtx | KOther

primrec kind_index :: "fec_kind \<Rightarrow> nat" where
  "kind_index KMedia = 0" | "kind_index KRepair = 1" | "kind_index KRtx = 2" | "kind_index KOther = 3"

record tracked =
  tp_ssrc :: u32
  tp_kind :: fec_kind
  tp_bytes :: nat
  tp_payload :: nat
  tp_sent :: int
  tp_first :: int
  tp_generation :: u64
  tp_committed :: bool
  tp_received :: bool

record fec_tracker =
  tk_packets :: "(int \<times> tracked) list"
  tk_generation :: u64

definition fec_tracker_init :: fec_tracker where
  "fec_tracker_init = \<lparr>tk_packets = [], tk_generation = 0\<rparr>"

definition kMaxPackets :: nat where "kMaxPackets = 16384"

fun prune_packets :: "int \<Rightarrow> (int \<times> tracked) list \<Rightarrow> (int \<times> tracked) list" where
  "prune_packets now [] = []"
| "prune_packets now ((i, p) # ps) =
     (if kMaxPackets < length ((i, p) # ps) \<or> now - tp_sent p > 5000 \<or> now < tp_sent p
      then prune_packets now ps else (i, p) # ps)"

definition Prune :: "int \<Rightarrow> fec_tracker \<Rightarrow> fec_tracker" where
  "Prune now t = t\<lparr>tk_packets := prune_packets now (tk_packets t)\<rparr>"

definition Register :: "int \<Rightarrow> u32 \<Rightarrow> fec_kind \<Rightarrow> nat \<Rightarrow> nat \<Rightarrow> int \<Rightarrow> fec_tracker \<Rightarrow> fec_tracker" where
  "Register i ssrc kind n payload now t =
     Prune now (t\<lparr>tk_packets := omap_insert i
       \<lparr>tp_ssrc = ssrc, tp_kind = kind, tp_bytes = n, tp_payload = min n payload, tp_sent = now, tp_first = -1,
        tp_generation = 0, tp_committed = False, tp_received = False\<rparr> (tk_packets t)\<rparr>)"

definition Commit :: "int \<Rightarrow> fec_tracker \<Rightarrow> fec_tracker" where
  "Commit i t = (case map_of (tk_packets t) i of
     None \<Rightarrow> t
   | Some p \<Rightarrow> t\<lparr>tk_packets := omap_insert i (p\<lparr>tp_committed := True\<rparr>) (tk_packets t)\<rparr>)"

definition Tracker_Remove :: "int \<Rightarrow> fec_tracker \<Rightarrow> fec_tracker" where
  "Tracker_Remove i t = t\<lparr>tk_packets := omap_erase i (tk_packets t)\<rparr>"

definition Feedback :: "int \<Rightarrow> bool \<Rightarrow> int \<Rightarrow> fec_tracker \<Rightarrow> fec_tracker" where
  "Feedback i received now t = (case map_of (tk_packets t) i of
     None \<Rightarrow> t
   | Some p \<Rightarrow>
       if tp_first p \<ge> 0 \<and> (\<not> received \<or> tp_received p) then t
       else
         let p = (if tp_first p < 0 then p\<lparr>tp_first := now\<rparr> else p);
             g = tk_generation t + 1
         in \<lparr>tk_packets = omap_insert i (p\<lparr>tp_received := (tp_received p \<or> received), tp_generation := g\<rparr>) (tk_packets t),
             tk_generation = g\<rparr>)"

definition Tracker_Reset :: "fec_tracker \<Rightarrow> fec_tracker" where
  "Tracker_Reset t = \<lparr>tk_packets = [], tk_generation = tk_generation t + 1\<rparr>"

record 'd fec_snapshot =
  fs_samples :: nat
  fs_lost :: nat
  fs_max_run :: nat
  fs_last :: int
  fs_generation :: u64
  fs_bps :: "int list"
  fs_fraction :: 'd

definition fec_snapshot_init :: "'d double_ops \<Rightarrow> 'd fec_snapshot" where
  "fec_snapshot_init D = \<lparr>fs_samples = 0, fs_lost = 0, fs_max_run = 0, fs_last = -1, fs_generation = 0,
     fs_bps = [0, 0, 0, 0], fs_fraction = d_const D 940\<rparr>"

definition loss_rate :: "'d double_ops \<Rightarrow> 'd fec_snapshot \<Rightarrow> 'd" where
  "loss_rate D f = (if fs_samples f \<noteq> 0 then d_div D (d_of_nat D (fs_lost f)) (d_of_nat D (fs_samples f)) else d_zero D)"

text \<open>The state of the loop over the packets: the result and the three maps of counters.\<close>

record 'd scan =
  sc_result :: "u32 \<rightharpoonup> 'd fec_snapshot"
  sc_runs :: "u32 \<Rightarrow> nat"
  sc_payloads :: "u32 \<Rightarrow> nat"
  sc_media :: "u32 \<Rightarrow> nat"

definition add_sent :: "int \<Rightarrow> tracked \<Rightarrow> 'd fec_snapshot \<Rightarrow> 'd fec_snapshot" where
  "add_sent now p f =
     (if now - tp_sent p < 1000 \<and> now \<ge> tp_sent p
      then let k = kind_index (tp_kind p) in f\<lparr>fs_bps := (fs_bps f)[k := fs_bps f ! k + int (tp_bytes p) * 8]\<rparr>
      else f)"

definition scan_packet :: "'d double_ops \<Rightarrow> int \<Rightarrow> int \<Rightarrow> tracked \<Rightarrow> 'd scan \<Rightarrow> 'd scan" where
  "scan_packet D now endt p sc =
     (if \<not> tp_committed p then sc
      else
        let ssrc = tp_ssrc p;
            f = (case sc_result sc ssrc of None \<Rightarrow> fec_snapshot_init D | Some f \<Rightarrow> f);
            f = add_sent now p f;
            sc = (if now - tp_sent p < 1000 \<and> now \<ge> tp_sent p \<and> tp_kind p = KMedia
                  then sc\<lparr>sc_payloads := (sc_payloads sc)(ssrc := sc_payloads sc ssrc + tp_payload p),
                          sc_media := (sc_media sc)(ssrc := sc_media sc ssrc + tp_bytes p)\<rparr> else sc) in
        if tp_kind p \<noteq> KMedia then sc\<lparr>sc_result := (sc_result sc)(ssrc \<mapsto> f)\<rparr>
        else
          let f = f\<lparr>fs_last := max (fs_last f) (tp_first p), fs_generation := max (fs_generation f) (tp_generation p)\<rparr> in
          if tp_first p < endt - 1000 \<or> tp_first p > endt \<or> tp_first p < 0
          then sc\<lparr>sc_result := (sc_result sc)(ssrc \<mapsto> f), sc_runs := (sc_runs sc)(ssrc := 0)\<rparr>
          else
            let f = f\<lparr>fs_samples := fs_samples f + 1\<rparr> in
            if \<not> tp_received p
            then let run = sc_runs sc ssrc + 1 in
              sc\<lparr>sc_result := (sc_result sc)(ssrc \<mapsto> f\<lparr>fs_lost := fs_lost f + 1, fs_max_run := max (fs_max_run f) run\<rparr>),
                 sc_runs := (sc_runs sc)(ssrc := run)\<rparr>
            else sc\<lparr>sc_result := (sc_result sc)(ssrc \<mapsto> f), sc_runs := (sc_runs sc)(ssrc := 0)\<rparr>)"

definition scan_init :: "'d scan" where
  "scan_init = \<lparr>sc_result = Map.empty, sc_runs = (\<lambda>_. 0), sc_payloads = (\<lambda>_. 0), sc_media = (\<lambda>_. 0)\<rparr>"

definition set_fraction :: "'d double_ops \<Rightarrow> 'd scan \<Rightarrow> u32 \<Rightarrow> 'd fec_snapshot \<Rightarrow> 'd fec_snapshot" where
  "set_fraction D sc ssrc f =
     (if sc_media sc ssrc \<noteq> 0
      then f\<lparr>fs_fraction := d_div D (d_of_nat D (sc_payloads sc ssrc)) (d_of_nat D (sc_media sc ssrc))\<rparr> else f)"

text \<open>The division by 4 truncates towards zero, as in C++.\<close>

definition grace :: "int \<Rightarrow> int" where
  "grace rtt = iclamp (if rtt < 0 then - ((- rtt) div 4) else rtt div 4) 20 100"

definition Snapshot :: "'d double_ops \<Rightarrow> int \<Rightarrow> int \<Rightarrow> fec_tracker \<Rightarrow> (u32 \<rightharpoonup> 'd fec_snapshot) \<times> fec_tracker" where
  "Snapshot D now rtt t =
     (let t = Prune now t;
          sc = fold (\<lambda>(i, p). scan_packet D now (now - grace rtt) p) (tk_packets t) scan_init
      in (\<lambda>ssrc. map_option (set_fraction D sc ssrc) (sc_result sc ssrc), t))"

section \<open>Controller\<close>

datatype fec_mode = ModeOff | ModeFixed | ModeAdaptive

primrec FecDecisionName :: "fec_decision \<Rightarrow> string" where
  "FecDecisionName DecOff = ''off''"
| "FecDecisionName DecFixed = ''fixed''"
| "FecDecisionName DecStartup = ''startup''"
| "FecDecisionName DecHealthy = ''healthy''"
| "FecDecisionName DecLoss = ''loss''"
| "FecDecisionName DecCongested = ''congested''"
| "FecDecisionName DecStale = ''stale''"
| "FecDecisionName DecInsufficient = ''insufficient-samples''"

record 'd fec_network =
  nw_feedback :: "'d fec_snapshot"
  nw_now :: int
  nw_rtt :: int
  nw_queue :: int
  nw_bps :: int
  nw_congested :: bool

record 'd fec_controller =
  ct_ratio :: 'd
  ct_candidate :: 'd
  ct_since :: int
  ct_last :: int
  ct_bitrate :: int
  ct_queue :: int
  ct_until :: int
  ct_generation :: u64
  ct_version :: u64
  ct_count :: nat
  ct_mode :: fec_mode
  ct_current :: "'d fec_config"

definition d_minus_one :: "'d double_ops \<Rightarrow> 'd" where
  "d_minus_one D = d_sub D (d_zero D) (d_of_nat D 1)"

definition fec_controller_init :: "'d double_ops \<Rightarrow> 'd fec_controller" where
  "fec_controller_init D = \<lparr>ct_ratio = d_const D 100, ct_candidate = d_minus_one D, ct_since = -1, ct_last = -1, ct_bitrate = 0,
     ct_queue = 0, ct_until = -1, ct_generation = 0, ct_version = 0, ct_count = 0, ct_mode = ModeAdaptive,
     ct_current = fec_config_init D\<rparr>"

definition urgent :: "'d fec_network \<Rightarrow> bool" where
  "urgent n \<longleftrightarrow> nw_congested n \<or> nw_queue n \<ge> 100 \<or> nw_bps n \<le> 0"

definition fresh :: "'d fec_network \<Rightarrow> bool" where
  "fresh n \<longleftrightarrow> fs_last (nw_feedback n) \<ge> 0 \<and> nw_now n \<ge> fs_last (nw_feedback n) \<and>
     nw_now n - fs_last (nw_feedback n) \<le> max 2000 (3 * iclamp (nw_rtt n) 0 2000)"

definition loss_band :: "'d double_ops \<Rightarrow> 'd \<Rightarrow> 'd" where
  "loss_band D p =
     (if d_less D p (d_const D 5) then d_zero D
      else if d_less D p (d_const D 15) then d_const D 50
      else if d_less D p (d_const D 30) then d_const D 100
      else if d_less D p (d_const D 50) then d_const D 150
      else if d_less D p (d_const D 80) then d_const D 200
      else d_const D 250)"

text \<open>The ratio for a measured loss; \<open>p >= 0.005\<close> is written with the order of the arithmetic.\<close>

definition loss_ratio :: "'d double_ops \<Rightarrow> 'd fec_network \<Rightarrow> 'd" where
  "loss_ratio D n =
     (let p = loss_rate D (nw_feedback n); desired = loss_band D p in
      if (d_less D (d_const D 5) p \<or> d_eq D p (d_const D 5)) \<and> (nw_rtt n \<ge> 100 \<or> fs_max_run (nw_feedback n) \<ge> 3)
      then d_min D (d_const D 250) (d_add D desired (d_const D 50)) else desired)"

definition decide :: "'d double_ops \<Rightarrow> fec_mode \<Rightarrow> 'd fec_network \<Rightarrow> 'd fec_controller \<Rightarrow> 'd \<times> fec_decision" where
  "decide D mode n c =
     (if mode = ModeOff then (d_zero D, DecOff)
      else if urgent n \<or> nw_now n < ct_until c
      then (if urgent n then d_zero D else d_min D (ct_ratio c) (d_const D 50), DecCongested)
      else if mode = ModeFixed then (d_const D 250, DecFixed)
      else if \<not> fresh n \<or> fs_samples (nw_feedback n) < 40
      then (d_min D (ct_ratio c) (d_const D 100), if \<not> fresh n then DecStale else DecInsufficient)
      else let desired = loss_ratio D n in
        (desired, if d_eq D desired (d_zero D) then DecHealthy else DecLoss))"

text \<open>The adjustment of the ratio with its hysteresis.\<close>

definition adjust :: "'d double_ops \<Rightarrow> bool \<Rightarrow> 'd \<Rightarrow> 'd fec_network \<Rightarrow> 'd fec_controller \<Rightarrow> 'd fec_controller" where
  "adjust D immediate desired n c =
     (if immediate then c\<lparr>ct_ratio := desired, ct_candidate := d_minus_one D, ct_count := 0\<rparr>
      else if \<not> d_eq D desired (ct_ratio c)
      then
        let c = (if \<not> d_eq D (ct_candidate c) desired
                 then c\<lparr>ct_candidate := desired, ct_since := nw_now n, ct_count := 0\<rparr> else c);
            c = (if fs_generation (nw_feedback n) \<noteq> ct_generation c then c\<lparr>ct_count := ct_count c + 1\<rparr> else c) in
        if (d_less D (ct_ratio c) desired \<and> ct_count c \<ge> 2) \<or>
           (d_less D desired (ct_ratio c) \<and> nw_now n - ct_since c \<ge> 3000 \<and> ct_count c \<ge> 2)
        then c\<lparr>ct_ratio := desired, ct_candidate := d_minus_one D\<rparr> else c
      else c\<lparr>ct_candidate := d_minus_one D, ct_count := 0\<rparr>)"

definition enter_mode :: "'d double_ops \<Rightarrow> fec_mode \<Rightarrow> 'd fec_network \<Rightarrow> 'd fec_controller \<Rightarrow> 'd fec_controller" where
  "enter_mode D mode n c =
     (if mode \<noteq> ct_mode c \<or> ct_last c \<ge> 0 \<and> nw_now n < ct_last c
      then (fec_controller_init D)\<lparr>ct_version := ct_version c, ct_mode := mode\<rparr> else c)"

definition observe_network :: "'d fec_network \<Rightarrow> 'd fec_controller \<Rightarrow> 'd fec_controller" where
  "observe_network n c =
     (let falling = ct_bitrate c > 0 \<and> nw_bps n < ct_bitrate c * 8 div 10;
          growing = nw_queue n \<ge> 40 \<and> nw_queue n > ct_queue c + 10;
          c = (if urgent n \<or> falling \<or> growing then c\<lparr>ct_until := nw_now n + 1000\<rparr> else c)
      in c\<lparr>ct_bitrate := nw_bps n, ct_queue := nw_queue n, ct_last := nw_now n\<rparr>)"

definition Update :: "'d double_ops \<Rightarrow> fec_mode \<Rightarrow> 'd fec_network \<Rightarrow> 'd fec_controller \<Rightarrow> 'd fec_config \<times> 'd fec_controller" where
  "Update D mode n c =
     (let c = enter_mode D mode n c in
      if \<not> urgent n \<and> ct_last c \<ge> 0 \<and> nw_now n - ct_last c < 200 then (ct_current c, c)
      else
        let c = observe_network n c; (desired, reason) = decide D mode n c;
            immediate = (mode \<noteq> ModeAdaptive \<or> \<not> fresh n \<or> fs_samples (nw_feedback n) < 40 \<or> reason = DecCongested);
            c = adjust D immediate desired n c;
            v = ct_version c + 1;
            cfg = (ct_current c)\<lparr>fc_version := v, fc_source_ratio := ct_ratio c, fc_keyframe_priority := (mode = ModeAdaptive),
                                 fc_reason := reason\<rparr>
        in (cfg, c\<lparr>ct_generation := fs_generation (nw_feedback n), ct_version := v, ct_current := cfg\<rparr>))"

definition Controller_Reset :: "'d double_ops \<Rightarrow> 'd fec_controller \<Rightarrow> 'd fec_controller" where
  "Controller_Reset D c = fec_controller_init D"

text \<open>The cast to \<open>int64_t\<close> truncates; its argument is never negative here.\<close>

definition AllocateFecBudget :: "'d double_ops \<Rightarrow> 'd fec_config \<Rightarrow> int \<Rightarrow> 'd \<Rightarrow> 'd fec_config" where
  "AllocateFecBudget D c bps fraction =
     (let bps = iclamp bps 0 1000000000;
          ratio = (if d_finite D (fc_source_ratio c) then d_clamp D (fc_source_ratio c) (d_zero D) (d_const D 250) else d_zero D);
          fraction = (if d_finite D fraction then d_clamp D fraction (d_const D 50) (d_of_nat D 1) else d_const D 940);
          media = int (d_trunc D (d_div D (d_of_nat D (nat bps)) (d_add D (d_of_nat D 1) ratio)))
      in c\<lparr>fc_source_ratio := ratio, fc_fec_bitrate := bps - media,
           fc_media_bitrate := int (d_trunc D (d_mul D (d_of_nat D (nat media)) fraction))\<rparr>)"

section \<open>Negotiation\<close>

text \<open>\<open>std::getline\<close> on a string stream until it fails, and the fields that \<open>operator>>\<close> reads.\<close>

function getlines :: "char \<Rightarrow> string \<Rightarrow> string list" where
  "getlines d xs = (if xs = [] then [] else takeWhile (\<lambda>c. c \<noteq> d) xs # getlines d (tl (dropWhile (\<lambda>c. c \<noteq> d) xs)))"
  by pat_completeness auto
termination
proof (relation "measure (\<lambda>(d, xs). length xs)", goal_cases)
  case (2 d xs)
  then show ?case using length_dropWhile_le [of "\<lambda>c. c \<noteq> d" xs] by (cases xs) auto
qed simp

declare getlines.simps [simp del]

definition blank :: "char \<Rightarrow> bool" where
  "blank c \<longleftrightarrow> c = CHR '' '' \<or> c = CHR 0x09 \<or> c = CHR 0x0A \<or> c = CHR 0x0B \<or> c = CHR 0x0C \<or> c = CHR 0x0D"

function stream_fields :: "string \<Rightarrow> string list" where
  "stream_fields xs = (let ys = dropWhile blank xs in
     if ys = [] then [] else takeWhile (\<lambda>c. \<not> blank c) ys # stream_fields (dropWhile (\<lambda>c. \<not> blank c) ys))"
  by pat_completeness auto
termination
proof (relation "measure length", goal_cases)
  case (2 xs ys)
  then have ys: "\<not> blank (hd ys)" "length ys \<le> length xs" "ys \<noteq> []"
    using hd_dropWhile [of blank xs] length_dropWhile_le [of blank xs] by auto
  then obtain c cs where "ys = c # cs" by (cases ys) auto
  then show ?case using ys length_dropWhile_le [of "\<lambda>c. \<not> blank c" cs] by simp
qed simp

declare stream_fields.simps [simp del]

definition starts_with :: "string \<Rightarrow> string \<Rightarrow> bool" where
  "starts_with pre xs \<longleftrightarrow> take (length pre) xs = pre"

definition kFecSdpAttribute :: string where "kFecSdpAttribute = ''a=x-minirtc-fec:rs-v1 122''"

definition chomp :: "string \<Rightarrow> string" where
  "chomp line = (if line \<noteq> [] \<and> last line = CHR 0x0D then butlast line else line)"

definition SupportsRsFec :: "string \<Rightarrow> bool" where
  "SupportsRsFec section =
     (let lines = map chomp (getlines (CHR 0x0A) section) in
      list_ex (\<lambda>line. line = kFecSdpAttribute) lines \<and>
      list_ex (\<lambda>line. starts_with ''m=video '' line \<and> list_ex (\<lambda>f. f = ''122'') (drop 3 (stream_fields line))) lines)"

definition trim :: "string \<Rightarrow> string" where
  "trim xs = (let b = (\<lambda>c. c = CHR '' '' \<or> c = CHR 0x09 \<or> c = CHR 0x0D) in rev (dropWhile b (rev (dropWhile b xs))))"

definition SupportsOpusFec :: "string \<Rightarrow> bool" where
  "SupportsOpusFec section =
     list_ex (\<lambda>line. starts_with ''a=fmtp:111 '' line \<and>
                list_ex (\<lambda>p. trim p = ''useinbandfec=1'') (getlines (CHR '';'') (drop 11 line)))
       (getlines (CHR 0x0A) section)"

section \<open>Bounds of the tracker\<close>

definition tracker_inv :: "fec_tracker \<Rightarrow> bool" where
  "tracker_inv t \<longleftrightarrow> ordered (tk_packets t) \<and> length (tk_packets t) \<le> kMaxPackets \<and>
     (\<forall>(i, p) \<in> set (tk_packets t). tp_payload p \<le> tp_bytes p)"

datatype tracker_op =
  OpRegister int u32 fec_kind nat nat int | OpCommit int | OpRemove int | OpFeedback int bool int | OpSnapshot int int | OpReset

primrec tracker_step :: "'d double_ops \<Rightarrow> tracker_op \<Rightarrow> fec_tracker \<Rightarrow> fec_tracker" where
  "tracker_step D (OpRegister i ssrc kind n payload now) t = Register i ssrc kind n payload now t"
| "tracker_step D (OpCommit i) t = Commit i t"
| "tracker_step D (OpRemove i) t = Tracker_Remove i t"
| "tracker_step D (OpFeedback i received now) t = Feedback i received now t"
| "tracker_step D (OpSnapshot now rtt) t = snd (Snapshot D now rtt t)"
| "tracker_step D OpReset t = Tracker_Reset t"

lemma prune_drop: "\<exists>n. prune_packets now xs = drop n xs"
proof (induction now xs rule: prune_packets.induct)
  case (2 now i p ps)
  show ?case
  proof (cases "kMaxPackets < length ((i, p) # ps) \<or> now - tp_sent p > 5000 \<or> now < tp_sent p")
    case True
    with 2 show ?thesis by (metis drop_Suc_Cons prune_packets.simps(2))
  qed (auto intro: exI [of _ 0])
qed simp

lemma prune_length: "length (prune_packets now xs) \<le> kMaxPackets"
  by (induction now xs rule: prune_packets.induct) auto

lemma prune_set: "set (prune_packets now xs) \<subseteq> set xs"
  using prune_drop [of now xs] by (auto dest: in_set_dropD)

lemma prune_ordered: "ordered xs \<Longrightarrow> ordered (prune_packets now xs)"
  using prune_drop [of now xs] by (auto simp: drop_map [symmetric] sorted_wrt_drop)

lemma tracker_inv_update:
  assumes "tracker_inv t" "map_of (tk_packets t) i = Some p" "tp_payload q = tp_payload p" "tp_bytes q = tp_bytes p"
  shows "tracker_inv (t\<lparr>tk_packets := omap_insert i q (tk_packets t), tk_generation := g\<rparr>)"
proof -
  have "(i, p) \<in> set (tk_packets t)" by (rule map_of_SomeD) (rule assms(2))
  with assms show ?thesis unfolding tracker_inv_def
    by (auto simp: ordered_insert set_omap_insert length_omap_update)
qed

lemma tracker_inv_prune:
  assumes "ordered (tk_packets t)" "\<forall>(i, p) \<in> set (tk_packets t). tp_payload p \<le> tp_bytes p"
  shows "tracker_inv (Prune now t)"
  unfolding tracker_inv_def Prune_def
  using assms prune_set [of now "tk_packets t"] by (auto simp: prune_ordered prune_length)

lemma tracker_inv_step: "tracker_inv t \<Longrightarrow> tracker_inv (tracker_step D a t)"
proof (cases a)
  case (OpRegister i ssrc kind n payload now)
  assume t: "tracker_inv t"
  then show ?thesis unfolding OpRegister tracker_step.simps Register_def
    by (intro tracker_inv_prune) (auto simp: tracker_inv_def ordered_insert set_omap_insert)
next
  case (OpCommit i)
  assume t: "tracker_inv t"
  then show ?thesis unfolding OpCommit tracker_step.simps Commit_def
    using tracker_inv_update [OF t, of i _ _ "tk_generation t"] by (auto split: option.split)
next
  case (OpRemove i)
  assume t: "tracker_inv t"
  have "length (omap_erase i (tk_packets t)) \<le> length (tk_packets t)" unfolding omap_erase_def by simp
  with t show ?thesis unfolding OpRemove tracker_step.simps Tracker_Remove_def tracker_inv_def
    by (auto simp: ordered_erase) (auto simp: omap_erase_def)
next
  case (OpFeedback i received now)
  assume t: "tracker_inv t"
  have eq: "\<lparr>tk_packets = xs, tk_generation = g\<rparr> = t\<lparr>tk_packets := xs, tk_generation := g\<rparr>" for xs g by simp
  show ?thesis unfolding OpFeedback tracker_step.simps Feedback_def Let_def eq
    using t tracker_inv_update [OF t, of i] by (auto split: option.split)
next
  case (OpSnapshot now rtt)
  assume t: "tracker_inv t"
  then show ?thesis unfolding OpSnapshot tracker_step.simps Snapshot_def Let_def snd_conv
    by (intro tracker_inv_prune) (auto simp: tracker_inv_def)
next
  case OpReset
  then show ?thesis by (simp add: Tracker_Reset_def tracker_inv_def)
qed

lemma tracker_inv_run: "tracker_inv t \<Longrightarrow> tracker_inv (fold (tracker_step D) ops t)"
  by (induction ops arbitrary: t) (auto simp: tracker_inv_step)

text \<open>
  Whatever is registered, committed, removed, reported and read, the tracker holds at most 16384 packets, in the
  order of their identifiers and with at most one entry each, and no payload is larger than its packet.
\<close>

theorem fec_tracker_bounded: "tracker_inv (fold (tracker_step D) ops fec_tracker_init)"
  by (rule tracker_inv_run) (simp add: tracker_inv_def fec_tracker_init_def)

text \<open>A repeated report of a loss, or of a packet already received, changes nothing.\<close>

lemma Feedback_repeated:
  assumes "ordered (tk_packets t)" "0 \<le> now"
  shows "Feedback i r now' (Feedback i r now t) = Feedback i r now t" "Feedback i False now' (Feedback i r now t) = Feedback i r now t"
  using assms by (auto simp: Feedback_def Let_def map_of_omap_insert split: option.split)

section \<open>Snapshots\<close>

text \<open>The longest block of consecutive losses, and the block at the end of a list.\<close>

definition longest_run :: "bool list \<Rightarrow> nat" where
  "longest_run xs = Max {n. \<exists>a b. xs = a @ replicate n True @ b}"

definition final_run :: "bool list \<Rightarrow> nat" where
  "final_run xs = length (takeWhile (\<lambda>x. x) (rev xs))"

lemma final_run_simps [simp]:
  "final_run [] = 0" "final_run (xs @ [x]) = (if x then Suc (final_run xs) else 0)"
  by (simp_all add: final_run_def)

lemma final_run_split: "\<exists>a. xs = a @ replicate (final_run xs) True"
proof (induction xs rule: rev_induct)
  case (snoc x xs)
  then obtain a where a: "xs = a @ replicate (final_run xs) True" by blast
  show ?case
  proof (cases x)
    case True
    then have x: "x = True" by simp
    then have run: "final_run (xs @ [x]) = Suc (final_run xs)" by simp
    have "xs @ [x] = a @ replicate (Suc (final_run xs)) True"
      by (subst a) (simp add: x replicate_append_same)
    then show ?thesis unfolding run by blast
  qed auto
qed simp

lemma final_run_greatest: "xs = a @ replicate n True \<Longrightarrow> n \<le> final_run xs"
  by (simp add: final_run_def takeWhile_append)

lemma runs_finite: "finite {n. \<exists>a b. xs = a @ replicate n True @ b}"
  by (rule finite_subset [of _ "{..length xs}"]) auto

lemma longest_run_le_iff: "longest_run xs \<le> m \<longleftrightarrow> (\<forall>n a b. xs = a @ replicate n True @ b \<longrightarrow> n \<le> m)"
proof -
  have "xs = [] @ replicate 0 True @ xs" by simp
  then have "{n. \<exists>a b. xs = a @ replicate n True @ b} \<noteq> {}" by blast
  then show ?thesis unfolding longest_run_def by (subst Max_le_iff [OF runs_finite]) auto
qed

lemma longest_run_Nil [simp]: "longest_run [] = 0"
  using longest_run_le_iff [of "[]" 0] by simp

lemma longest_run_snoc: "longest_run (xs @ [x]) = max (longest_run xs) (final_run (xs @ [x]))"
proof (rule antisym)
  have "n \<le> max (longest_run xs) (final_run (xs @ [x]))" if n: "xs @ [x] = a @ replicate n True @ b" for n a b
  proof (cases b rule: rev_cases)
    case Nil
    with n show ?thesis using final_run_greatest [of "xs @ [x]" a n] by simp
  next
    case (snoc b' y)
    with n have "xs = a @ replicate n True @ b'" by (metis append.assoc append1_eq_conv)
    then have "n \<le> longest_run xs" using longest_run_le_iff [of xs "longest_run xs"] by blast
    then show ?thesis by simp
  qed
  then show "longest_run (xs @ [x]) \<le> max (longest_run xs) (final_run (xs @ [x]))"
    unfolding longest_run_le_iff by blast
  have all: "xs @ [x] = a @ replicate n True @ b \<Longrightarrow> n \<le> longest_run (xs @ [x])" for n a b
    using longest_run_le_iff [of "xs @ [x]" "longest_run (xs @ [x])"] by blast
  have "longest_run xs \<le> longest_run (xs @ [x])"
    unfolding longest_run_le_iff [of xs] using all by (metis append.assoc)
  moreover have "final_run (xs @ [x]) \<le> longest_run (xs @ [x])"
    using final_run_split [of "xs @ [x]"] all [of _ _ "[]"] by (metis append_Nil2)
  ultimately show "max (longest_run xs) (final_run (xs @ [x])) \<le> longest_run (xs @ [x])" by simp
qed

definition committed_of :: "u32 \<Rightarrow> tracked list \<Rightarrow> tracked list" where
  "committed_of ssrc ps = filter (\<lambda>p. tp_committed p \<and> tp_ssrc p = ssrc) ps"

definition recent :: "int \<Rightarrow> tracked \<Rightarrow> bool" where
  "recent now p \<longleftrightarrow> tp_sent p \<le> now \<and> now < tp_sent p + 1000"

definition observed :: "int \<Rightarrow> tracked \<Rightarrow> bool" where
  "observed endt p \<longleftrightarrow> 0 \<le> tp_first p \<and> endt - 1000 \<le> tp_first p \<and> tp_first p \<le> endt"

definition lost_flags :: "int \<Rightarrow> tracked list \<Rightarrow> bool list" where
  "lost_flags endt ps = map (\<lambda>p. observed endt p \<and> \<not> tp_received p) ps"

definition media_of :: "tracked list \<Rightarrow> tracked list" where
  "media_of cs = filter (\<lambda>p. tp_kind p = KMedia) cs"

definition last_report :: "tracked list \<Rightarrow> int" where
  "last_report ms = Max (insert (-1) (tp_first ` set ms))"

definition last_generation :: "tracked list \<Rightarrow> u64" where
  "last_generation ms = Max (insert 0 (tp_generation ` set ms))"

definition stream_summary :: "'d double_ops \<Rightarrow> int \<Rightarrow> int \<Rightarrow> tracked list \<Rightarrow> 'd fec_snapshot" where
  "stream_summary D now endt cs =
     (let ms = media_of cs; ws = filter (observed endt) ms in
      \<lparr>fs_samples = length ws, fs_lost = length (filter (\<lambda>p. \<not> tp_received p) ws),
       fs_max_run = longest_run (lost_flags endt ms),
       fs_last = last_report ms, fs_generation = last_generation ms,
       fs_bps = map (\<lambda>k. 8 * int (sum_list (map tp_bytes (filter (\<lambda>p. recent now p \<and> tp_kind p = k) cs))))
                  [KMedia, KRepair, KRtx, KOther],
       fs_fraction = d_const D 940\<rparr>)"

definition snapshot_of :: "'d double_ops \<Rightarrow> int \<Rightarrow> int \<Rightarrow> tracked list \<Rightarrow> 'd fec_snapshot option" where
  "snapshot_of D now endt cs = (if cs = [] then None else Some (stream_summary D now endt cs))"

lemma Max_insert_snoc: "finite A \<Longrightarrow> Max (insert (z::'a::linorder) (insert x A)) = max (Max (insert z A)) x"
  by (subst insert_commute) (simp add: max.commute)

lemma last_snoc:
  "last_report (ms @ [p]) = max (last_report ms) (tp_first p)"
  "last_generation (ms @ [p]) = max (last_generation ms) (tp_generation p)"
  by (simp_all add: last_report_def last_generation_def Max_insert_snoc del: Max_insert)

text \<open>One packet changes the four maps at its own stream only, from the values there.\<close>

definition new_run :: "int \<Rightarrow> tracked \<Rightarrow> nat \<Rightarrow> nat" where
  "new_run endt p run = (if tp_kind p \<noteq> KMedia then run else if observed endt p \<and> \<not> tp_received p then Suc run else 0)"

definition new_snapshot :: "int \<Rightarrow> int \<Rightarrow> tracked \<Rightarrow> nat \<Rightarrow> 'd fec_snapshot \<Rightarrow> 'd fec_snapshot" where
  "new_snapshot now endt p run f =
     (let f = add_sent now p f; w = (if tp_kind p = KMedia \<and> observed endt p then 1 else 0);
          l = (if tp_kind p = KMedia \<and> observed endt p \<and> \<not> tp_received p then 1 else 0) in
      if tp_kind p \<noteq> KMedia then f
      else f\<lparr>fs_last := max (fs_last f) (tp_first p), fs_generation := max (fs_generation f) (tp_generation p),
             fs_samples := fs_samples f + w, fs_lost := fs_lost f + l,
             fs_max_run := (if l = 1 then max (fs_max_run f) (Suc run) else fs_max_run f)\<rparr>)"

lemma scan_packet_local:
  assumes "tp_committed p"
  shows "scan_packet D now endt p sc =
    (let s = tp_ssrc p; new = (\<lambda>g old. old + (if recent now p \<and> tp_kind p = KMedia then g p else 0));
         f = (case sc_result sc s of None \<Rightarrow> fec_snapshot_init D | Some f \<Rightarrow> f) in
     \<lparr>sc_result = (sc_result sc)(s \<mapsto> new_snapshot now endt p (sc_runs sc s) f),
      sc_runs = (sc_runs sc)(s := new_run endt p (sc_runs sc s)),
      sc_payloads = (sc_payloads sc)(s := new tp_payload (sc_payloads sc s)),
      sc_media = (sc_media sc)(s := new tp_bytes (sc_media sc s))\<rparr>)"
proof -
  have w: "(tp_first p < endt - 1000 \<or> tp_first p > endt \<or> tp_first p < 0) = (\<not> observed endt p)"
    by (auto simp: observed_def)
  have r: "(now - tp_sent p < 1000 \<and> now \<ge> tp_sent p \<and> X) = (recent now p \<and> X)" for X by (auto simp: recent_def)
  have r': "(now - tp_sent p < 1000 \<and> now \<ge> tp_sent p) = recent now p" by (auto simp: recent_def)
  show ?thesis
    by (cases sc; cases "recent now p"; cases "tp_kind p = KMedia"; cases "observed endt p"; cases "tp_received p")
      (simp_all add: assms scan_packet_def Let_def w r r' new_snapshot_def new_run_def)
qed

lemma stream_summary_Nil: "stream_summary D now endt [] = fec_snapshot_init D"
  by (simp add: stream_summary_def media_of_def lost_flags_def fec_snapshot_init_def last_report_def last_generation_def)

lemma stream_summary_snoc:
  "stream_summary D now endt (cs @ [p]) =
     new_snapshot now endt p (final_run (lost_flags endt (media_of cs))) (stream_summary D now endt cs)"
proof (cases "tp_kind p = KMedia")
  case True
  have ms: "media_of (cs @ [p]) = media_of cs @ [p]" by (simp add: True media_of_def)
  have flags: "lost_flags endt (media_of cs @ [p]) = lost_flags endt (media_of cs) @ [observed endt p \<and> \<not> tp_received p]"
    by (simp add: lost_flags_def)
  have r: "(now - tp_sent p < 1000 \<and> now \<ge> tp_sent p) = recent now p" by (auto simp: recent_def)
  show ?thesis
    by (cases "recent now p"; cases "observed endt p"; cases "tp_received p")
      (simp_all add: stream_summary_def Let_def ms flags longest_run_snoc last_snoc new_snapshot_def add_sent_def r True)
next
  case False
  have ms: "media_of (cs @ [p]) = media_of cs" by (simp add: False media_of_def)
  have r: "(now - tp_sent p < 1000 \<and> now \<ge> tp_sent p) = recent now p" by (auto simp: recent_def)
  show ?thesis using False
    by (cases "recent now p"; cases "tp_kind p") (simp_all add: stream_summary_def Let_def ms new_snapshot_def add_sent_def r)
qed

definition scan_ok :: "'d double_ops \<Rightarrow> int \<Rightarrow> int \<Rightarrow> u32 \<Rightarrow> tracked list \<Rightarrow> 'd scan \<Rightarrow> bool" where
  "scan_ok D now endt ssrc cs sc \<longleftrightarrow>
     sc_result sc ssrc = snapshot_of D now endt cs \<and>
     sc_runs sc ssrc = final_run (lost_flags endt (media_of cs)) \<and>
     sc_payloads sc ssrc = sum_list (map tp_payload (filter (recent now) (media_of cs))) \<and>
     sc_media sc ssrc = sum_list (map tp_bytes (filter (recent now) (media_of cs)))"

lemma scan_ok_other:
  assumes "scan_ok D now endt ssrc cs sc" "\<not> (tp_committed p \<and> tp_ssrc p = ssrc)"
  shows "scan_ok D now endt ssrc cs (scan_packet D now endt p sc)"
proof (cases "tp_committed p")
  case True
  with assms(2) have "tp_ssrc p \<noteq> ssrc" by simp
  with assms(1) show ?thesis unfolding scan_ok_def scan_packet_local [OF True] Let_def by simp
qed (simp add: scan_packet_def assms(1))

lemma scan_ok_same:
  assumes "scan_ok D now endt ssrc cs sc" "tp_committed p" "tp_ssrc p = ssrc"
  shows "scan_ok D now endt ssrc (cs @ [p]) (scan_packet D now endt p sc)"
proof -
  let ?f = "case snapshot_of D now endt cs of None \<Rightarrow> fec_snapshot_init D | Some f \<Rightarrow> f"
  have "?f = stream_summary D now endt cs" by (simp add: snapshot_of_def stream_summary_Nil)
  then have "snapshot_of D now endt (cs @ [p]) = Some (new_snapshot now endt p (final_run (lost_flags endt (media_of cs))) ?f)"
    by (simp add: snapshot_of_def stream_summary_snoc)
  moreover have "new_run endt p (final_run (lost_flags endt (media_of cs))) = final_run (lost_flags endt (media_of (cs @ [p])))"
    by (simp add: new_run_def lost_flags_def media_of_def)
  moreover have "sum_list (map g (filter (recent now) (media_of (cs @ [p])))) =
      sum_list (map g (filter (recent now) (media_of cs))) + (if recent now p \<and> tp_kind p = KMedia then g p else 0)"
    for g :: "tracked \<Rightarrow> nat"
    by (simp add: media_of_def)
  ultimately show ?thesis using assms(1) unfolding scan_ok_def scan_packet_local [OF assms(2)] Let_def
    by (simp add: assms(3))
qed

lemma scan_ok_all: "scan_ok D now endt ssrc (committed_of ssrc (map snd ps)) (fold (\<lambda>(i, p). scan_packet D now endt p) ps scan_init)"
proof (induction ps rule: rev_induct)
  case Nil
  show ?case by (simp add: scan_ok_def scan_init_def committed_of_def snapshot_of_def lost_flags_def media_of_def)
next
  case (snoc e ps)
  obtain i p where e: "e = (i, p)" by (cases e)
  show ?case using scan_ok_same [OF snoc] scan_ok_other [OF snoc]
    by (cases "tp_committed p \<and> tp_ssrc p = ssrc") (auto simp: e committed_of_def)
qed

text \<open>
  C10: A snapshot is exactly the statistics of each stream over the packets that are not pruned: it has an entry for
  every stream with a committed packet; samples and losses are counted over the media packets whose first report
  lies in the second before the grace period; the loss run is the longest run of consecutive losses
  among the media packets of the stream (a packet outside the window interrupts it); the rates are the bytes of
  the last second per kind; the payload fraction is that of the media bytes of the last second.
\<close>

theorem fec_snapshot_counts:
  "fst (Snapshot D now rtt t) ssrc =
     (let cs = committed_of ssrc (map snd (prune_packets now (tk_packets t))); ms = filter (recent now) (media_of cs) in
      if cs = [] then None
      else Some ((stream_summary D now (now - grace rtt) cs)\<lparr>fs_fraction :=
        (if sum_list (map tp_bytes ms) = 0 then d_const D 940
         else d_div D (d_of_nat D (sum_list (map tp_payload ms))) (d_of_nat D (sum_list (map tp_bytes ms))))\<rparr>))"
proof -
  let ?ps = "prune_packets now (tk_packets t)" and ?cs = "committed_of ssrc (map snd (prune_packets now (tk_packets t)))"
  let ?sc = "fold (\<lambda>(i, p). scan_packet D now (now - grace rtt) p) ?ps scan_init"
  have f: "(stream_summary D now endt cs)\<lparr>fs_fraction := d_const D 940\<rparr> = stream_summary D now endt cs" for endt cs
    by (simp add: stream_summary_def Let_def)
  have "fst (Snapshot D now rtt t) ssrc = map_option (set_fraction D ?sc ssrc) (sc_result ?sc ssrc)"
    by (simp add: Snapshot_def Prune_def Let_def)
  also have "\<dots> = map_option (set_fraction D ?sc ssrc) (snapshot_of D now (now - grace rtt) ?cs)"
    using scan_ok_all [of D now "now - grace rtt" ssrc ?ps] by (simp only: scan_ok_def)
  finally show ?thesis
    using scan_ok_all [of D now "now - grace rtt" ssrc ?ps]
    by (simp add: scan_ok_def snapshot_of_def set_fraction_def Let_def f del: sum_list_eq_0_iff)
qed

section \<open>Bitrate and negotiation\<close>

text \<open>
  The split of the bitrate never exceeds it, for every arithmetic in which truncated quotients by at least 1 and
  truncated products with at most 1 do not grow, and which orders the constants as they are.
\<close>

definition rounding_ok :: "'d double_ops \<Rightarrow> bool" where
  "rounding_ok D \<longleftrightarrow>
     (\<forall>n a. \<not> d_less D a (d_zero D) \<longrightarrow> d_trunc D (d_div D (d_of_nat D n) (d_add D (d_of_nat D 1) a)) \<le> n) \<and>
     (\<forall>n a. \<not> d_less D (d_of_nat D 1) a \<longrightarrow> d_trunc D (d_mul D (d_of_nat D n) a) \<le> n) \<and>
     \<not> d_less D (d_zero D) (d_zero D) \<and> \<not> d_less D (d_const D 250) (d_zero D) \<and>
     \<not> d_less D (d_of_nat D 1) (d_const D 50) \<and> \<not> d_less D (d_of_nat D 1) (d_of_nat D 1) \<and> \<not> d_less D (d_of_nat D 1) (d_const D 940)"

lemma fec_allocation_bounded:
  assumes "rounding_ok D"
  shows "0 \<le> fc_fec_bitrate (AllocateFecBudget D c bps fraction) \<and> 0 \<le> fc_media_bitrate (AllocateFecBudget D c bps fraction) \<and>
    fc_fec_bitrate (AllocateFecBudget D c bps fraction) + fc_media_bitrate (AllocateFecBudget D c bps fraction) \<le> iclamp bps 0 1000000000"
proof -
  let ?b = "iclamp bps 0 1000000000"
  let ?r = "if d_finite D (fc_source_ratio c) then d_clamp D (fc_source_ratio c) (d_zero D) (d_const D 250) else d_zero D"
  let ?f = "if d_finite D fraction then d_clamp D fraction (d_const D 50) (d_of_nat D 1) else d_const D 940"
  let ?m = "d_trunc D (d_div D (d_of_nat D (nat ?b)) (d_add D (d_of_nat D 1) ?r))"
  have b: "0 \<le> ?b" by (simp add: iclamp_def)
  have "\<not> d_less D ?r (d_zero D)" using assms by (auto simp: d_clamp_def rounding_ok_def)
  then have m: "?m \<le> nat ?b" using assms unfolding rounding_ok_def by blast
  have "\<not> d_less D (d_of_nat D 1) ?f" using assms by (auto simp: d_clamp_def rounding_ok_def)
  then have "d_trunc D (d_mul D (d_of_nat D ?m) ?f) \<le> ?m" using assms unfolding rounding_ok_def by blast
  then show ?thesis using m b by (simp add: AllocateFecBudget_def Let_def)
qed

lemma getlines_append: "d \<notin> set l \<Longrightarrow> getlines d (l @ d # rest) = l # getlines d rest"
proof -
  assume "d \<notin> set l"
  then have "takeWhile (\<lambda>c. c \<noteq> d) (l @ d # rest) = l" "dropWhile (\<lambda>c. c \<noteq> d) (l @ d # rest) = d # rest"
    by (induction l) auto
  then show ?thesis by (subst getlines.simps) simp
qed

lemma getlines_lines:
  "\<forall>l \<in> set ls. CHR 0x0A \<notin> set l \<Longrightarrow>
   getlines (CHR 0x0A) (concat (map (\<lambda>l. l @ [CHR 0x0D, CHR 0x0A]) ls)) = map (\<lambda>l. l @ [CHR 0x0D]) ls"
proof (induction ls)
  case (Cons l ls)
  then show ?case using getlines_append [of "CHR 0x0A" "l @ [CHR 0x0D]"] by simp
qed (simp add: getlines.simps)

text \<open>On a section of lines that end in CR LF the test finds the attribute and the payload type in the media line.\<close>

lemma SupportsRsFec_lines:
  assumes "\<forall>l \<in> set ls. CHR 0x0A \<notin> set l"
  shows "SupportsRsFec (concat (map (\<lambda>l. l @ [CHR 0x0D, CHR 0x0A]) ls)) \<longleftrightarrow>
    kFecSdpAttribute \<in> set ls \<and> (\<exists>l \<in> set ls. starts_with ''m=video '' l \<and> ''122'' \<in> set (drop 3 (stream_fields l)))"
  unfolding SupportsRsFec_def getlines_lines [OF assms] Let_def
  by (auto simp: list_ex_iff chomp_def)

section \<open>The controller\<close>

text \<open>The ratios that the controller can choose.\<close>

definition fec_ratios :: "'d double_ops \<Rightarrow> 'd list" where
  "fec_ratios D = (let base = d_zero D # map (d_const D) [50, 100, 150, 200, 250] in
     base @ map (\<lambda>x. d_min D (d_const D 250) (d_add D x (d_const D 50))) base)"

definition controller_inv :: "'d double_ops \<Rightarrow> 'd fec_controller \<Rightarrow> bool" where
  "controller_inv D c \<longleftrightarrow> ct_ratio c \<in> set (fec_ratios D) \<and> fc_source_ratio (ct_current c) \<in> set (fec_ratios D) \<and>
     (ct_mode c = ModeOff \<and> ct_last c \<ge> 0 \<longrightarrow> fc_source_ratio (ct_current c) = d_zero D)"

lemma d_min_cases: "d_min D a b = a \<or> d_min D a b = b"
  by (simp add: d_min_def)

lemma ratio_base: "d_zero D \<in> set (fec_ratios D)" "d_const D 50 \<in> set (fec_ratios D)" "d_const D 100 \<in> set (fec_ratios D)"
    "d_const D 250 \<in> set (fec_ratios D)"
  by (simp_all add: fec_ratios_def Let_def)

lemma loss_ratio_in: "loss_ratio D n \<in> set (fec_ratios D)"
  unfolding loss_ratio_def loss_band_def fec_ratios_def Let_def by simp

lemma d_min_in: "a \<in> A \<Longrightarrow> b \<in> A \<Longrightarrow> d_min D a b \<in> A"
  by (simp add: d_min_def)

lemma decide_in: "ct_ratio c \<in> set (fec_ratios D) \<Longrightarrow> fst (decide D mode n c) \<in> set (fec_ratios D)"
  by (simp add: decide_def Let_def ratio_base loss_ratio_in d_min_in)

lemma adjust_ratio: "ct_ratio (adjust D im desired n c) = ct_ratio c \<or> ct_ratio (adjust D im desired n c) = desired"
  by (simp add: adjust_def Let_def)

lemma observe_ratio [simp]: "ct_ratio (observe_network n c) = ct_ratio c" "ct_last (observe_network n c) = nw_now n"
    "ct_candidate (observe_network n c) = ct_candidate c" "ct_since (observe_network n c) = ct_since c"
    "ct_count (observe_network n c) = ct_count c" "ct_generation (observe_network n c) = ct_generation c"
    "ct_version (observe_network n c) = ct_version c" "ct_current (observe_network n c) = ct_current c"
  by (simp_all add: observe_network_def Let_def)

lemma adjust_frame [simp]: "ct_last (adjust D im desired n c) = ct_last c" "ct_version (adjust D im desired n c) = ct_version c"
    "ct_current (adjust D im desired n c) = ct_current c"
  by (simp_all add: adjust_def Let_def)

lemma adjust_since: "ct_since (adjust D im desired n c) = ct_since c \<or> ct_since (adjust D im desired n c) = nw_now n"
  by (simp add: adjust_def Let_def)

lemma controller_inv_init: "controller_inv D (fec_controller_init D)"
  by (simp add: controller_inv_def fec_controller_init_def fec_config_init_def ratio_base)

text \<open>An update that is not skipped.\<close>

definition decided :: "'d double_ops \<Rightarrow> fec_mode \<Rightarrow> 'd fec_network \<Rightarrow> 'd fec_controller \<Rightarrow> 'd fec_controller" where
  "decided D mode n c =
     (let c = observe_network n c; d = decide D mode n c in
      adjust D (mode \<noteq> ModeAdaptive \<or> \<not> fresh n \<or> fs_samples (nw_feedback n) < 40 \<or> snd d = DecCongested) (fst d) n c)"

definition publish :: "fec_mode \<Rightarrow> fec_decision \<Rightarrow> u64 \<Rightarrow> 'd fec_controller \<Rightarrow> 'd fec_config" where
  "publish mode reason v c = (ct_current c)\<lparr>fc_version := v, fc_source_ratio := ct_ratio c,
     fc_keyframe_priority := (mode = ModeAdaptive), fc_reason := reason\<rparr>"

definition skips :: "'d fec_network \<Rightarrow> 'd fec_controller \<Rightarrow> bool" where
  "skips n c \<longleftrightarrow> \<not> urgent n \<and> ct_last c \<ge> 0 \<and> nw_now n - ct_last c < 200"

lemma Update_eq:
  "Update D mode n c =
     (let e = enter_mode D mode n c; d = decided D mode n e; v = ct_version e + 1;
          cfg = publish mode (snd (decide D mode n (observe_network n e))) v d in
      if skips n e then (ct_current e, e)
      else (cfg, d\<lparr>ct_generation := fs_generation (nw_feedback n), ct_version := v, ct_current := cfg\<rparr>))"
  by (simp only: Update_def decided_def publish_def skips_def Let_def case_prod_unfold adjust_frame observe_ratio)

lemma enter_mode_inv: "controller_inv D c \<Longrightarrow> controller_inv D (enter_mode D mode n c) \<and> ct_mode (enter_mode D mode n c) = mode"
  using controller_inv_init [of D] by (auto simp: enter_mode_def controller_inv_def fec_controller_init_def)

lemma adjust_mode: "ct_mode (adjust D im desired n c) = ct_mode c"
  by (simp add: adjust_def Let_def)

lemma decided_mode: "ct_mode (decided D mode n c) = ct_mode c"
  by (simp add: decided_def Let_def adjust_mode observe_network_def)

lemma decided_ratio: "ct_ratio c \<in> set (fec_ratios D) \<Longrightarrow> ct_ratio (decided D mode n c) \<in> set (fec_ratios D)"
  using adjust_ratio decide_in [of "observe_network n c" D mode n] unfolding decided_def Let_def
  by (metis observe_ratio(1))

lemma adjust_immediate: "ct_ratio (adjust D True desired n c) = desired"
  by (simp add: adjust_def)

lemma decided_zero:
  assumes "mode = ModeOff \<or> urgent n"
  shows "ct_ratio (decided D mode n c) = d_zero D"
  using assms by (cases mode) (auto simp: decided_def Let_def decide_def adjust_immediate)

lemma Update_inv:
  assumes "Update D mode n c = (cfg, c')" "controller_inv D c"
  shows "controller_inv D c' \<and> fc_source_ratio cfg \<in> set (fec_ratios D) \<and>
    (mode = ModeOff \<or> urgent n \<longrightarrow> fc_source_ratio cfg = d_zero D)"
proof -
  let ?e = "enter_mode D mode n c"
  have e: "controller_inv D ?e" "ct_mode ?e = mode" using enter_mode_inv [OF assms(2)] by auto
  show ?thesis
  proof (cases "skips n ?e")
    case True
    with assms(1) have "cfg = ct_current ?e" "c' = ?e" by (auto simp: Update_eq Let_def)
    with e True show ?thesis by (auto simp: controller_inv_def skips_def)
  next
    case False
    have r: "ct_ratio (decided D mode n ?e) \<in> set (fec_ratios D)"
      by (rule decided_ratio) (use e in \<open>simp add: controller_inv_def\<close>)
    from False assms(1) have c: "fc_source_ratio cfg = ct_ratio (decided D mode n ?e)" "ct_ratio c' = ct_ratio (decided D mode n ?e)"
        "ct_current c' = cfg" "ct_mode c' = mode"
      by (auto simp: Update_eq Let_def publish_def decided_mode e)
    then show ?thesis using r decided_zero [of mode n D ?e] by (auto simp: controller_inv_def)
  qed
qed

fun run_updates :: "'d double_ops \<Rightarrow> (fec_mode \<times> 'd fec_network) list \<Rightarrow> 'd fec_controller \<Rightarrow> 'd fec_config list \<times> 'd fec_controller" where
  "run_updates D [] c = ([], c)"
| "run_updates D ((mode, n) # us) c =
     (let (cfg, c) = Update D mode n c; (cfgs, c) = run_updates D us c in (cfg # cfgs, c))"

text \<open>
  Whatever modes and network conditions a controller is updated with, each configuration that it returns has one of
  the ratios 0, 0.05, 0.10, 0.15, 0.20, 0.25 or one of these raised by 0.05 and cut at 0.25, and the ratio is 0 for
  every update in mode off and for every update under congestion (a congested link, a queue of 100 ms
  or no bandwidth). This holds for every arithmetic, so no rounding can break it.
\<close>

theorem fec_controller_ratios:
  "list_all2 (\<lambda>(mode, n) cfg. fc_source_ratio cfg \<in> set (fec_ratios D) \<and>
       (mode = ModeOff \<or> urgent n \<longrightarrow> fc_source_ratio cfg = d_zero D))
     us (fst (run_updates D us (fec_controller_init D)))"
proof -
  have "controller_inv D c \<Longrightarrow> list_all2 (\<lambda>(mode, n) cfg. fc_source_ratio cfg \<in> set (fec_ratios D) \<and>
       (mode = ModeOff \<or> urgent n \<longrightarrow> fc_source_ratio cfg = d_zero D)) us (fst (run_updates D us c))" for c
  proof (induction us arbitrary: c)
    case (Cons u us)
    obtain mode n where u: "u = (mode, n)" by (cases u)
    obtain cfg c' where up: "Update D mode n c = (cfg, c')" by (cases "Update D mode n c")
    show ?case using Cons.IH [of c'] Update_inv [OF up Cons.prems] by (simp add: u up case_prod_unfold Let_def)
  qed simp
  then show ?thesis using controller_inv_init by blast
qed

definition sample_network :: "int \<Rightarrow> nat \<Rightarrow> u64 \<Rightarrow> bool \<Rightarrow> int fec_network" where
  "sample_network now lost gen congested =
     \<lparr>nw_feedback = \<lparr>fs_samples = 100, fs_lost = lost, fs_max_run = 1, fs_last = now - 100, fs_generation = gen,
        fs_bps = [0, 0, 0, 0], fs_fraction = 940\<rparr>, nw_now = now, nw_rtt = 50, nw_queue = 0, nw_bps = 1000000,
      nw_congested = congested\<rparr>"

definition sample_updates :: "(fec_mode \<times> int fec_network) list" where
  "sample_updates = [(ModeAdaptive, sample_network 1000 4 1 False), (ModeAdaptive, sample_network 1300 4 2 False),
     (ModeAdaptive, sample_network 1600 4 3 True)]"

theorem fec_controller_ratios_witness:
  "list_all2 (\<lambda>(mode, n) cfg. fc_source_ratio cfg \<in> set (fec_ratios milli_ops) \<and>
       (mode = ModeOff \<or> urgent n \<longrightarrow> fc_source_ratio cfg = d_zero milli_ops))
     sample_updates (fst (run_updates milli_ops sample_updates (fec_controller_init milli_ops))) \<and>
   map fc_source_ratio (fst (run_updates milli_ops sample_updates (fec_controller_init milli_ops))) = [100, 150, 0] \<and>
   urgent (snd (sample_updates ! 2))"
  by (intro conjI, rule fec_controller_ratios, code_simp, code_simp)


definition sample_controller :: "int fec_controller" where
  "sample_controller = snd (Update milli_ops ModeAdaptive (sample_network 1000 4 1 False) (fec_controller_init milli_ops))"


end
