(* ===== verification/Reorder_Histogram.thy ===== *)
theory Reorder_Histogram
  imports Double_Ops
begin

text \<open>
  The histogram of packet reordering (\<^verbatim>\<open>src/qos/histogram.h\<close>, \<^verbatim>\<open>src/qos/histogram.cc\<close>): a circular buffer of the last values and
  the number of values in each bucket. The capacity of the buffer is the one that \<open>reserve\<close> allocated. An access outside
  a vector and a bucket counter below zero are \<^const>\<open>None\<close>.

  The invariant says that every bucket counts its occurrences in the buffer; it makes every access safe, keeps the
  buffer within its capacity and makes a full buffer replace its oldest value. The loop of \<open>InverseCdf\<close>
  is a recursion with a measure; its result is at most the number of buckets for every arithmetic.
\<close>

record histogram =
  hg_values :: "nat list"
  hg_buckets :: "nat list"
  hg_index :: nat
  hg_capacity :: nat

definition Histogram_init :: "nat \<Rightarrow> nat \<Rightarrow> histogram" where
  "Histogram_init num_buckets max_num_values =
     \<lparr>hg_values = [], hg_buckets = replicate num_buckets 0, hg_index = 0, hg_capacity = max_num_values\<rparr>"

definition Histogram_Add :: "nat \<Rightarrow> histogram \<Rightarrow> histogram option" where
  "Histogram_Add v h =
     (let v = min v (length (hg_buckets h) - 1); i = hg_index h in
      case (if i < length (hg_values h)
            then let old = hg_values h ! i in
              if old < length (hg_buckets h) \<and> 0 < hg_buckets h ! old
              then Some (h\<lparr>hg_buckets := (hg_buckets h)[old := hg_buckets h ! old - 1], hg_values := (hg_values h)[i := v]\<rparr>)
              else None
            else Some (h\<lparr>hg_values := hg_values h @ [v]\<rparr>)) of
        None \<Rightarrow> None
      | Some h \<Rightarrow>
          if v < length (hg_buckets h) \<and> 0 < hg_capacity h
          then Some (h\<lparr>hg_buckets := (hg_buckets h)[v := hg_buckets h ! v + 1], hg_index := (i + 1) mod hg_capacity h\<rparr>)
          else None)"

function inverse_cdf_loop :: "'d double_ops \<Rightarrow> 'd \<Rightarrow> histogram \<Rightarrow> nat \<Rightarrow> 'd \<Rightarrow> nat" where
  "inverse_cdf_loop D probability h bucket acc =
     (if d_less D acc probability \<and> bucket < length (hg_buckets h)
      then inverse_cdf_loop D probability h (Suc bucket)
             (d_add D acc (d_div D (d_of_nat D (hg_buckets h ! bucket)) (d_of_nat D (length (hg_values h)))))
      else bucket)"
  by pat_completeness auto
termination by (relation "measure (\<lambda>(D, p, h, bucket, acc). length (hg_buckets h) - bucket)") auto

declare inverse_cdf_loop.simps [simp del]

definition InverseCdf :: "'d double_ops \<Rightarrow> 'd \<Rightarrow> histogram \<Rightarrow> nat" where
  "InverseCdf D probability h = inverse_cdf_loop D probability h 0 (d_zero D)"

definition NumValues :: "histogram \<Rightarrow> nat" where
  "NumValues h = length (hg_values h)"

section \<open>Invariant\<close>

definition histogram_ok :: "nat \<Rightarrow> nat \<Rightarrow> histogram \<Rightarrow> bool" where
  "histogram_ok n cap h \<longleftrightarrow> length (hg_buckets h) = n \<and> hg_capacity h = cap \<and> length (hg_values h) \<le> cap \<and>
     (\<forall>v \<in> set (hg_values h). v < n) \<and> (\<forall>b < n. hg_buckets h ! b = count_list (hg_values h) b) \<and>
     (if length (hg_values h) < cap then hg_index h = length (hg_values h) else hg_index h < cap)"

lemma Histogram_init_ok: "0 < cap \<Longrightarrow> histogram_ok n cap (Histogram_init n cap)"
  by (simp add: histogram_ok_def Histogram_init_def)

lemma count_list_update:
  "i < length xs \<Longrightarrow> count_list (xs[i := v]) b + (if xs ! i = b then 1 else 0) = count_list xs b + (if v = b then 1 else 0)"
proof (induction xs arbitrary: i)
  case (Cons x xs)
  show ?case
  proof (cases i)
    case (Suc j)
    with Cons.prems Cons.IH [of j] show ?thesis by auto
  qed simp
qed simp

lemma Histogram_Add_ok:
  fixes v :: nat
  assumes ok: "histogram_ok n cap h" and pos: "0 < n" "0 < cap"
  defines "w \<equiv> min v (n - 1)"
  obtains h' where "Histogram_Add v h = Some h'" "histogram_ok n cap h'"
    "hg_values h' = (if length (hg_values h) < cap then hg_values h @ [w] else (hg_values h)[hg_index h := w])"
proof -
  have w: "w < n" using pos by (simp add: w_def)
  have b: "length (hg_buckets h) = n" "\<And>k. k < n \<Longrightarrow> hg_buckets h ! k = count_list (hg_values h) k"
      "\<And>x. x \<in> set (hg_values h) \<Longrightarrow> x < n" "hg_capacity h = cap" "length (hg_values h) \<le> cap"
    using ok by (auto simp: histogram_ok_def)
  show thesis
  proof (cases "length (hg_values h) < cap")
    case True
    then have i: "hg_index h = length (hg_values h)" using ok by (simp add: histogram_ok_def)
    let ?h = "h\<lparr>hg_values := hg_values h @ [w], hg_buckets := (hg_buckets h)[w := hg_buckets h ! w + 1],
      hg_index := (hg_index h + 1) mod cap\<rparr>"
    have "Histogram_Add v h = Some ?h" using b w pos i by (simp add: Histogram_Add_def Let_def w_def)
    moreover have "histogram_ok n cap ?h" using b w True i
      by (auto simp: histogram_ok_def nth_list_update mod_Suc less_Suc_eq)
    ultimately show thesis using that True by simp
  next
    case False
    with ok have i: "hg_index h < length (hg_values h)" "length (hg_values h) = cap"
      by (auto simp: histogram_ok_def)
    let ?old = "hg_values h ! hg_index h"
    have old: "?old < n" "0 < hg_buckets h ! ?old"
      using b i(1) by (auto simp: count_list_0_iff neq0_conv [symmetric] simp del: neq0_conv)
    let ?b = "(hg_buckets h)[?old := hg_buckets h ! ?old - 1]"
    let ?h = "h\<lparr>hg_values := (hg_values h)[hg_index h := w], hg_buckets := ?b[w := ?b ! w + 1], hg_index := (hg_index h + 1) mod cap\<rparr>"
    have "Histogram_Add v h = Some ?h" using b w pos i old by (simp add: Histogram_Add_def Let_def w_def)
    moreover have "?b[w := ?b ! w + 1] ! k = count_list ((hg_values h)[hg_index h := w]) k" if "k < n" for k
      using b(1) w old that count_list_update [OF i(1), of w k] b(2) [OF that] b(2) [OF w] b(2) [OF old(1)]
      by (auto simp: nth_list_update split: if_splits)
    then have "histogram_ok n cap ?h" using b w i pos
      by (auto simp: histogram_ok_def dest!: set_update_subset_insert [THEN subsetD])
    ultimately show thesis using that False by simp
  qed
qed

lemma inverse_cdf_bound: "bucket \<le> length (hg_buckets h) \<Longrightarrow> inverse_cdf_loop D p h bucket acc \<le> length (hg_buckets h)"
  by (induction D p h bucket acc rule: inverse_cdf_loop.induct) (subst inverse_cdf_loop.simps, simp)

lemma InverseCdf_bound: "InverseCdf D p h \<le> length (hg_buckets h)"
  by (simp add: InverseCdf_def inverse_cdf_bound)

end
