(* ===== verification/Nack_Requester.thy ===== *)
theory Nack_Requester
  imports Prelude Seq_Num Reorder_Histogram
begin

text \<open>
  The list of missing packets that a receiver asks for (\<^verbatim>\<open>src/qos/nack_requester.h\<close>, \<^verbatim>\<open>src/qos/nack_requester.cc\<close>) with its retry schedule
  (\<^verbatim>\<open>src/qos/video_recovery_timing.h\<close>).

  \<^descr> A \<open>std::map\<close> ordered by \<open>DescendingSeqNumComp\<close> is an association list from the oldest to the newest sequence
  number. The comparison is an order only among keys within half of the sequence space; the invariant
  \<open>nack_inv\<close> shows that the keys of the NACK list always are. Positions are found from the front.
  \<^descr> A \<open>Timestamp\<close> is in microseconds; \<^const>\<open>None\<close> is \<open>Timestamp::MinusInfinity()\<close>. The clock is an argument: \<open>now\<close>
  for the reading of an operation, \<open>created\<close> for the reading when the entry of a packet is made.
  \<^descr> The \<open>float\<close> arithmetic of the reordering histogram is the parameter \<open>D\<close>.

  The lemmas show the invariant of the list in every run (at most 1000 packets, none older than 10000, in order), what a
  received packet changes, and that the batches never repeat a packet whose request is still in flight.
\<close>

section \<open>Retry schedule and times\<close>

definition NackRetryRttMultiplier :: "bool \<Rightarrow> int \<Rightarrow> int" where
  "NackRetryRttMultiplier has_rtt_sample n =
     (if n \<le> 0 then 1 else if has_rtt_sample then (if n \<le> 2 then 1 else 2) else push_bit (nat (min n 3)) 1)"

definition SoftFrameRecoveryDeadlineMs :: "int \<Rightarrow> int" where
  "SoftFrameRecoveryDeadlineMs rtt_ms = iclamp (2 * rtt_ms + 30) 100 500"

definition SoftFirConfirmationDelayMs :: "int \<Rightarrow> int" where
  "SoftFirConfirmationDelayMs rtt_ms = iclamp rtt_ms 75 150"

definition HardFrameRecoveryDeadlineMs :: "int \<Rightarrow> int" where
  "HardFrameRecoveryDeadlineMs rtt_ms = iclamp (5 * rtt_ms + 80) 350 1000"

text \<open>\<open>TimeDelta::ms\<close> rounds to the nearest millisecond (\<open>DivideRoundToNearest\<close>); division truncates.\<close>

definition DivideRoundToNearest :: "int \<Rightarrow> int \<Rightarrow> int" where
  "DivideRoundToNearest x d =
     (if x < 0 then let q = - ((- x) div d) in if (- x) mod d > d div 2 then q - 1 else q
      else let q = x div d in if x mod d > (d - 1) div 2 then q + 1 else q)"

text \<open>The test \<open>now - t >= delay\<close>, true for a time in the infinite past.\<close>

definition elapsed :: "int \<Rightarrow> int option \<Rightarrow> int \<Rightarrow> bool" where
  "elapsed now t delay = (case t of None \<Rightarrow> True | Some t \<Rightarrow> now - t \<ge> delay)"

section \<open>State\<close>

record nack_info =
  ni_seq_num :: u16
  ni_send_at :: u16
  ni_created :: int
  ni_sent :: "int option"
  ni_attempt :: "int option"
  ni_retries :: int
  ni_pending :: bool

definition NackInfo :: "u16 \<Rightarrow> u16 \<Rightarrow> int \<Rightarrow> nack_info" where
  "NackInfo seq_num send_at created =
     \<lparr>ni_seq_num = seq_num, ni_send_at = send_at, ni_created = created, ni_sent = None, ni_attempt = None, ni_retries = 0,
      ni_pending = False\<rparr>"

record requester =
  nr_list :: "(u16 \<times> nack_info) list"
  nr_recovered :: "u16 list"
  nr_histogram :: histogram
  nr_initialized :: bool
  nr_rtt :: int
  nr_has_rtt :: bool
  nr_keyframe :: bool
  nr_newest :: u16

definition kMaxPacketAge :: u16 where "kMaxPacketAge = 10000"
definition kMaxNackPackets :: nat where "kMaxNackPackets = 1000"
definition kDefaultRtt :: int where "kDefaultRtt = 100 * 1000"
definition kMaxNackRetries :: int where "kMaxNackRetries = 100"
definition kMaxReorderedPackets :: nat where "kMaxReorderedPackets = 128"
definition kNumReorderingBuckets :: nat where "kNumReorderingBuckets = 10"
definition kFailedSendRetryDelay :: int where "kFailedSendRetryDelay = 20 * 1000"
definition kDefaultSendNackDelay :: int where "kDefaultSendNackDelay = 10 * 1000"

definition requester_init :: requester where
  "requester_init = \<lparr>nr_list = [], nr_recovered = [], nr_histogram = Histogram_init kNumReorderingBuckets kMaxReorderedPackets,
     nr_initialized = False, nr_rtt = kDefaultRtt, nr_has_rtt = False, nr_keyframe = False, nr_newest = 0\<rparr>"

text \<open>The operations of the ordered containers; \<open>older a b\<close> is the comparison of the keys.\<close>

abbreviation older :: "u16 \<Rightarrow> u16 \<Rightarrow> bool" where "older a b \<equiv> DescendingSeqNumComp a b"

fun seq_assign :: "u16 \<Rightarrow> 'v \<Rightarrow> (u16 \<times> 'v) list \<Rightarrow> (u16 \<times> 'v) list" where
  "seq_assign k v [] = [(k, v)]"
| "seq_assign k v ((k', v') # xs) =
     (if older k k' then (k, v) # (k', v') # xs else if older k' k then (k', v') # seq_assign k v xs else (k', v) # xs)"

fun seq_insert :: "u16 \<Rightarrow> u16 list \<Rightarrow> u16 list" where
  "seq_insert k [] = [k]"
| "seq_insert k (k' # xs) = (if older k k' then k # k' # xs else if older k' k then k' # seq_insert k xs else k' # xs)"

definition erase_before :: "('a \<Rightarrow> u16) \<Rightarrow> u16 \<Rightarrow> 'a list \<Rightarrow> 'a list" where
  "erase_before key k xs = dropWhile (\<lambda>e. older (key e) k) xs"

definition erase_up_to :: "('a \<Rightarrow> u16) \<Rightarrow> u16 \<Rightarrow> 'a list \<Rightarrow> 'a list" where
  "erase_up_to key k xs = dropWhile (\<lambda>e. \<not> older k (key e)) xs"

section \<open>Operations\<close>

definition UpdateRtt :: "int \<Rightarrow> requester \<Rightarrow> requester" where
  "UpdateRtt rtt_ms r =
     (if rtt_ms \<le> 0 \<or> rtt_ms > 2000 then r
      else if nr_has_rtt r then r\<lparr>nr_rtt := (3 * DivideRoundToNearest (nr_rtt r) 1000 + rtt_ms) div 4 * 1000\<rparr>
      else r\<lparr>nr_rtt := rtt_ms * 1000, nr_has_rtt := True\<rparr>)"

definition UpdateReorderingStatistics :: "u16 \<Rightarrow> requester \<Rightarrow> requester option" where
  "UpdateReorderingStatistics seq_num r =
     do { h \<leftarrow> Histogram_Add (unat (ReverseDiff (nr_newest r) seq_num)) (nr_histogram r); Some (r\<lparr>nr_histogram := h\<rparr>) }"

definition WaitNumberOfPackets :: "'d double_ops \<Rightarrow> 'd \<Rightarrow> requester \<Rightarrow> nat" where
  "WaitNumberOfPackets D probability r =
     (if NumValues (nr_histogram r) = 0 then 0 else InverseCdf D probability (nr_histogram r))"

text \<open>The loop over the missing sequence numbers, from \<open>seq_num_start\<close> to before \<open>seq_num_end\<close>.\<close>

function add_missing :: "'d double_ops \<Rightarrow> (u16 \<Rightarrow> int) \<Rightarrow> u16 \<Rightarrow> u16 \<Rightarrow> requester \<Rightarrow> requester" where
  "add_missing D created seq_num seq_num_end r =
     (if seq_num = seq_num_end then r
      else add_missing D created (seq_num + 1) seq_num_end
        (if seq_num \<in> set (nr_recovered r) then r
         else r\<lparr>nr_list := seq_assign seq_num
           (NackInfo seq_num (seq_num + of_nat (WaitNumberOfPackets D (d_const D 500) r)) (created seq_num)) (nr_list r)\<rparr>))"
  by pat_completeness auto
termination
proof (relation "measure (\<lambda>(D, created, s, e, r). unat (e - s))", goal_cases)
  case (2 D created s e r)
  then have "e - s \<noteq> 0" by simp
  then have "unat (e - s - 1) < unat (e - s)" by (simp add: measure_unat)
  then show ?case by (simp add: algebra_simps)
qed simp

declare add_missing.simps [simp del]

definition AddPacketsToNack :: "'d double_ops \<Rightarrow> (u16 \<Rightarrow> int) \<Rightarrow> u16 \<Rightarrow> u16 \<Rightarrow> requester \<Rightarrow> requester" where
  "AddPacketsToNack D created seq_num_start seq_num_end r =
     (let r = r\<lparr>nr_list := erase_before fst (seq_num_end - kMaxPacketAge) (nr_list r)\<rparr>;
          num_new_nacks = unat (ForwardDiff seq_num_start seq_num_end) in
      if length (nr_list r) + num_new_nacks > kMaxNackPackets then r\<lparr>nr_list := [], nr_keyframe := True\<rparr>
      else add_missing D created seq_num_start seq_num_end r)"

datatype nack_filter = SeqNumOnly | TimeOnly

definition due :: "nack_filter \<Rightarrow> int \<Rightarrow> requester \<Rightarrow> nack_info \<Rightarrow> bool" where
  "due options now r e \<longleftrightarrow>
     (let consider_seq_num = (options \<noteq> TimeOnly); consider_timestamp = (options \<noteq> SeqNumOnly);
          delay_timed_out = (now - ni_created e \<ge> kDefaultSendNackDelay);
          retry_delay = (if ni_retries e > 0 then nr_rtt r * NackRetryRttMultiplier (nr_has_rtt r) (ni_retries e) else nr_rtt r);
          nack_on_rtt_passed = elapsed now (ni_sent e) retry_delay;
          send_attempt_backoff_passed = elapsed now (ni_attempt e) kFailedSendRetryDelay;
          nack_on_seq_num_passed = (ni_sent e = None \<and> AheadOrAt (nr_newest r) (ni_send_at e))
      in \<not> ni_pending e \<and> delay_timed_out \<and> send_attempt_backoff_passed \<and>
         ((consider_seq_num \<and> nack_on_seq_num_passed) \<or> (consider_timestamp \<and> nack_on_rtt_passed)))"

definition GetNackBatch :: "nack_filter \<Rightarrow> int \<Rightarrow> requester \<Rightarrow> u16 list \<times> requester" where
  "GetNackBatch options now r =
     (map (\<lambda>(k, e). ni_seq_num e) (filter (\<lambda>(k, e). due options now r e) (nr_list r)),
      r\<lparr>nr_list := map (\<lambda>(k, e). (k, if due options now r e then e\<lparr>ni_pending := True\<rparr> else e)) (nr_list r)\<rparr>)"

definition ProcessNacks :: "int \<Rightarrow> requester \<Rightarrow> u16 list \<times> requester" where
  "ProcessNacks now r = GetNackBatch TimeOnly now r"

text \<open>Finding and erasing one entry.\<close>

definition seq_erase :: "u16 \<Rightarrow> (u16 \<times> 'v) list \<Rightarrow> (u16 \<times> 'v) list" where
  "seq_erase k xs = filter (\<lambda>(k', v). k' \<noteq> k) xs"

definition OnReceivedPacket :: "'d double_ops \<Rightarrow> (u16 \<Rightarrow> int) \<Rightarrow> int \<Rightarrow> u16 \<Rightarrow> bool \<Rightarrow> requester \<Rightarrow> (u16 list \<times> requester) option" where
  "OnReceivedPacket D created now seq_num is_recovered r =
     (if \<not> nr_initialized r then Some ([], r\<lparr>nr_newest := seq_num, nr_initialized := True\<rparr>)
      else if seq_num = nr_newest r then Some ([], r)
      else if AheadOf (nr_newest r) seq_num then
        let r = (case map_of (nr_list r) seq_num of
                   None \<Rightarrow> r
                 | Some e \<Rightarrow>
                     let r = (case ni_sent e of
                                Some sent_at \<Rightarrow>
                                  if is_recovered \<and> ni_retries e = 1
                                  then UpdateRtt (DivideRoundToNearest (now - sent_at) 1000) r else r
                              | None \<Rightarrow> r)
                     in r\<lparr>nr_list := seq_erase seq_num (nr_list r)\<rparr>)
        in if \<not> is_recovered then do { r \<leftarrow> UpdateReorderingStatistics seq_num r; Some ([], r) } else Some ([], r)
      else if is_recovered then
        Some ([], r\<lparr>nr_recovered := erase_before (\<lambda>k. k) (seq_num - kMaxPacketAge) (seq_insert seq_num (nr_recovered r))\<rparr>)
      else
        Some (GetNackBatch SeqNumOnly now
               ((AddPacketsToNack D created (nr_newest r + 1) seq_num r)\<lparr>nr_newest := seq_num\<rparr>)))"

definition batch_sent :: "int \<Rightarrow> bool \<Rightarrow> u16 \<Rightarrow> requester \<Rightarrow> requester" where
  "batch_sent sent_at send_successful seq_num r =
     (case map_of (nr_list r) seq_num of
        None \<Rightarrow> r
      | Some e \<Rightarrow>
          if \<not> ni_pending e then r
          else
            let e = e\<lparr>ni_pending := False, ni_attempt := Some sent_at\<rparr> in
            if \<not> send_successful then r\<lparr>nr_list := map (\<lambda>(k, x). (k, if k = seq_num then e else x)) (nr_list r)\<rparr>
            else
              let e = e\<lparr>ni_retries := ni_retries e + 1, ni_sent := Some sent_at\<rparr> in
              if ni_retries e \<ge> kMaxNackRetries then r\<lparr>nr_list := seq_erase seq_num (nr_list r)\<rparr>
              else r\<lparr>nr_list := map (\<lambda>(k, x). (k, if k = seq_num then e else x)) (nr_list r)\<rparr>)"

definition OnNackBatchSent :: "int \<Rightarrow> u16 list \<Rightarrow> bool \<Rightarrow> requester \<Rightarrow> requester" where
  "OnNackBatchSent sent_at nack_batch send_successful r = fold (batch_sent sent_at send_successful) nack_batch r"

definition ConsumeKeyFrameRequest :: "requester \<Rightarrow> bool \<times> requester" where
  "ConsumeKeyFrameRequest r = (nr_keyframe r, r\<lparr>nr_keyframe := False\<rparr>)"

definition ClearUpTo :: "u16 \<Rightarrow> requester \<Rightarrow> requester" where
  "ClearUpTo seq_num r = r\<lparr>nr_list := erase_up_to fst seq_num (nr_list r), nr_recovered := erase_up_to (\<lambda>k. k) seq_num (nr_recovered r)\<rparr>"

definition HasPendingNacks :: "requester \<Rightarrow> bool" where
  "HasPendingNacks r = (nr_list r \<noteq> [])"

definition HasPendingNacksUpTo :: "u16 \<Rightarrow> requester \<Rightarrow> bool" where
  "HasPendingNacksUpTo seq_num r = (length (erase_up_to fst seq_num (nr_list r)) \<noteq> length (nr_list r))"

definition RttMs :: "requester \<Rightarrow> int" where
  "RttMs r = DivideRoundToNearest (nr_rtt r) 1000"

section \<open>Ages\<close>

lemma int_unat: "int (unat (w :: u16)) = uint w"
  by simp

text \<open>How far a sequence number is behind another one.\<close>

definition age :: "u16 \<Rightarrow> u16 \<Rightarrow> nat" where "age n k = unat (n - k)"

lemma age_inject: "age n a = age n b \<longleftrightarrow> a = b"
  by (simp add: age_def flip: word_unat_eq_iff)

lemma word_of_age: "word_of_int (uint n - int (age n k)) = k"
  by (simp add: age_def)

lemma older_age:
  assumes "\<bar>int (age n a) - int (age n b)\<bar> < 32768"
  shows "older a b \<longleftrightarrow> age n b < age n a"
  using sdist_window [where 'a = 16, of "uint n - int (age n b)" "uint n - int (age n a)"] assms
  unfolding word_of_age by (simp add: DescendingSeqNumComp_def AheadOf_sdist)

lemma age_add: "age n k + unat (m - n) < 65536 \<Longrightarrow> age m k = age n k + unat (m - n)"
  using unat_add_lem [of "n - k" "m - n"] by (simp add: age_def)

lemma age_bound: "age n k < 65536"
proof -
  have "int (unat (n - k)) < 65536" using uint_bounds(2) [of "n - k"] by simp
  then show ?thesis unfolding age_def by linarith
qed

lemma AheadOf_age:
  fixes m n :: u16
  assumes "AheadOf m n"
  shows "1 \<le> unat (m - n)" "unat (m - n) \<le> 32768"
proof -
  have "m \<noteq> n" using assms by (simp add: AheadOf_def)
  then have "unat (m - n) \<noteq> 0" by (simp add: unat_eq_0)
  then show "1 \<le> unat (m - n)" by simp
  have d: "0 < sdist m n" using assms by (simp add: AheadOf_sdist)
  have "uint (m - n) \<le> 32768"
    by (rule uint_window [of m n]) (use d in \<open>auto simp: sdist_def Let_def uint_diff_cases word_le_def split: if_splits\<close>)
  then show "unat (m - n) \<le> 32768" using int_unat [of "m - n"] by linarith
qed

section \<open>Invariant\<close>

definition ages_descend :: "u16 \<Rightarrow> (u16 \<times> 'v) list \<Rightarrow> bool" where
  "ages_descend n xs \<longleftrightarrow> sorted_wrt (\<lambda>a b. age n (fst b) < age n (fst a)) xs"

definition entry_ok :: "u16 \<Rightarrow> u16 \<times> nack_info \<Rightarrow> bool" where
  "entry_ok n x \<longleftrightarrow> 1 \<le> age n (fst x) \<and> age n (fst x) \<le> 10000 \<and> ni_seq_num (snd x) = fst x \<and>
     0 \<le> ni_retries (snd x) \<and> ni_retries (snd x) < 100 \<and> (ni_retries (snd x) = 0 \<longleftrightarrow> ni_sent (snd x) = None)"

definition nack_inv :: "requester \<Rightarrow> bool" where
  "nack_inv r \<longleftrightarrow> histogram_ok 10 128 (nr_histogram r) \<and> ages_descend (nr_newest r) (nr_list r) \<and>
     (\<forall>x \<in> set (nr_list r). entry_ok (nr_newest r) x) \<and> length (nr_list r) \<le> 1000 \<and>
     (\<exists>ms. nr_rtt r = ms * 1000 \<and> 1 \<le> ms \<and> ms \<le> 2000) \<and> (\<not> nr_initialized r \<longrightarrow> nr_list r = [])"

lemma nack_inv_init: "nack_inv requester_init"
  using Histogram_init_ok [of 128 10]
  by (auto simp: nack_inv_def requester_init_def kNumReorderingBuckets_def kMaxReorderedPackets_def ages_descend_def
      kDefaultRtt_def intro: exI [of _ 100])

lemma ages_descend_filter: "ages_descend n xs \<Longrightarrow> ages_descend n (filter P xs)"
  by (simp add: ages_descend_def sorted_wrt_filter)

lemma ages_descend_distinct: "ages_descend n xs \<Longrightarrow> distinct (map fst xs)"
  unfolding ages_descend_def by (induction xs) auto

lemma dropWhile_descend:
  assumes "ages_descend n xs" "\<And>x. x \<in> set xs \<Longrightarrow> P x \<longleftrightarrow> c < age n (fst x)"
  shows "dropWhile P xs = filter (\<lambda>x. age n (fst x) \<le> c) xs"
  using assms
proof (induction xs)
  case (Cons x xs)
  have IH: "dropWhile P xs = filter (\<lambda>x. age n (fst x) \<le> c) xs"
    using Cons by (auto simp: ages_descend_def)
  show ?case
  proof (cases "P x")
    case False
    then have "age n (fst x) \<le> c" using Cons.prems(2) [of x] by simp
    moreover from this have "\<forall>y \<in> set xs. age n (fst y) \<le> c" using Cons.prems(1) by (fastforce simp: ages_descend_def)
    ultimately show ?thesis using False by (simp add: filter_id_conv)
  qed (use IH Cons.prems(2) [of x] in simp)
qed simp

lemma dropWhile_subset: "set (dropWhile P xs) \<subseteq> set xs"
  by (auto dest: set_dropWhileD)

lemma ages_descend_dropWhile: "ages_descend n xs \<Longrightarrow> ages_descend n (dropWhile P xs)"
  unfolding ages_descend_def by (metis dropWhile_eq_drop sorted_wrt_drop)

lemma nack_inv_shrink:
  assumes "nack_inv r" "set xs \<subseteq> set (nr_list r)" "ages_descend (nr_newest r) xs" "length xs \<le> length (nr_list r)"
  shows "nack_inv (r\<lparr>nr_list := xs\<rparr>)"
  using assms by (auto simp: nack_inv_def)

lemma nack_inv_erase: "nack_inv r \<Longrightarrow> nack_inv (r\<lparr>nr_list := seq_erase k (nr_list r)\<rparr>)"
  by (rule nack_inv_shrink) (auto simp: seq_erase_def nack_inv_def ages_descend_filter)

lemma nack_inv_map:
  assumes "nack_inv r" "\<And>k e. (k, e) \<in> set (nr_list r) \<Longrightarrow> entry_ok (nr_newest r) (k, f k e)"
  shows "nack_inv (r\<lparr>nr_list := map (\<lambda>(k, e). (k, f k e)) (nr_list r)\<rparr>)"
  using assms by (auto simp: nack_inv_def ages_descend_def sorted_wrt_map case_prod_unfold)

lemma UpdateRtt_inv:
  assumes "nack_inv r"
  shows "nack_inv (UpdateRtt ms r)"
proof -
  obtain old where old: "nr_rtt r = old * 1000" "1 \<le> old" "old \<le> 2000" using assms by (auto simp: nack_inv_def)
  have "DivideRoundToNearest (old * 1000) 1000 = old" using old by (simp add: DivideRoundToNearest_def)
  moreover have "1 \<le> (3 * old + ms) div 4" "(3 * old + ms) div 4 \<le> 2000" if "0 < ms" "ms \<le> 2000" using old that by linarith+
  ultimately show ?thesis using assms old unfolding UpdateRtt_def by (auto simp: nack_inv_def)
qed

lemma UpdateRtt_list [simp]: "nr_list (UpdateRtt ms r) = nr_list r" "nr_newest (UpdateRtt ms r) = nr_newest r"
    "nr_initialized (UpdateRtt ms r) = nr_initialized r"
  by (simp_all add: UpdateRtt_def)

lemma UpdateReorderingStatistics_inv:
  assumes "nack_inv r"
  shows "\<exists>h. UpdateReorderingStatistics k r = Some (r\<lparr>nr_histogram := h\<rparr>) \<and> nack_inv (r\<lparr>nr_histogram := h\<rparr>)"
proof -
  have "histogram_ok 10 128 (nr_histogram r)" using assms by (simp add: nack_inv_def)
  then obtain h where "Histogram_Add (unat (ReverseDiff (nr_newest r) k)) (nr_histogram r) = Some h" "histogram_ok 10 128 h"
    by (rule Histogram_Add_ok) auto
  then show ?thesis using assms by (auto simp: UpdateReorderingStatistics_def nack_inv_def)
qed

lemma GetNackBatch_inv: "nack_inv r \<Longrightarrow> nack_inv (snd (GetNackBatch options now r))"
  unfolding GetNackBatch_def snd_conv
  by (rule nack_inv_map [where f = "\<lambda>k e. if due options now r e then e\<lparr>ni_pending := True\<rparr> else e"])
    (auto simp: nack_inv_def entry_ok_def)

section \<open>A gap\<close>

definition missing :: "u16 \<Rightarrow> u16 \<Rightarrow> u16 list" where
  "missing s e = map (\<lambda>i. s + of_nat i) [0..<unat (e - s)]"

lemma missing_Nil: "missing s s = []"
  by (simp add: missing_def)

lemma missing_Cons: "s \<noteq> e \<Longrightarrow> missing s e = s # missing (s + 1) e"
proof -
  assume "s \<noteq> e"
  then have "e - s \<noteq> 0" by simp
  then have n: "unat (e - s) = Suc (unat (e - s - 1))" by (simp add: unat_minus_one Suc_pred' unat_gt_0)
  have "e - (s + 1) = e - s - 1" by simp
  then show ?thesis unfolding missing_def n
    by (simp add: upt_conv_Cons map_Suc_upt [symmetric] del: upt_Suc) (simp add: algebra_simps)
qed

lemma seq_assign_end: "(\<And>x. x \<in> set xs \<Longrightarrow> older (fst x) k) \<Longrightarrow> seq_assign k v xs = xs @ [(k, v)]"
proof (induction xs)
  case (Cons x xs)
  obtain k' v' where x: "x = (k', v')" by (cases x)
  have new: "older k' k" using Cons.prems [of x] by (simp add: x)
  then have "\<not> older k k'" using sdist_antisym [of k k'] by (simp add: DescendingSeqNumComp_def AheadOf_sdist)
  moreover have "seq_assign k v xs = xs @ [(k, v)]" using Cons by simp
  ultimately show ?case using new by (simp add: x)
qed simp

definition new_entries :: "'d double_ops \<Rightarrow> (u16 \<Rightarrow> int) \<Rightarrow> requester \<Rightarrow> u16 list \<Rightarrow> (u16 \<times> nack_info) list" where
  "new_entries D created r ks =
     map (\<lambda>k. (k, NackInfo k (k + of_nat (WaitNumberOfPackets D (d_const D 500) r)) (created k)))
       (filter (\<lambda>k. k \<notin> set (nr_recovered r)) ks)"

lemma add_missing_list:
  "unat (e - s) < 32768 \<Longrightarrow> (\<And>x. x \<in> set (nr_list r) \<Longrightarrow> unat (e - s) < age e (fst x) \<and> age e (fst x) < 32768) \<Longrightarrow>
   add_missing D created s e r = r\<lparr>nr_list := nr_list r @ new_entries D created r (missing s e)\<rparr>"
proof (induction D created s e r rule: add_missing.induct)
  case (1 D created s e r)
  show ?case
  proof (cases "s = e")
    case True
    then show ?thesis by (subst add_missing.simps) (simp add: missing_Nil new_entries_def)
  next
    case False
    let ?r = "if s \<in> set (nr_recovered r) then r
      else r\<lparr>nr_list := seq_assign s (NackInfo s (s + of_nat (WaitNumberOfPackets D (d_const D 500) r)) (created s)) (nr_list r)\<rparr>"
    have es: "unat (e - (s + 1)) < unat (e - s)"
      using False measure_unat [of "e - s"] by (simp add: algebra_simps)
    have s: "age e s = unat (e - s)" by (simp add: age_def)
    have "older (fst x) s" if "x \<in> set (nr_list r)" for x
    proof -
      have a: "age e s < age e (fst x)" "age e (fst x) < 32768" using 1(3) [OF that] s by auto
      then show ?thesis using older_age [of e "fst x" s] by linarith
    qed
    then have r: "?r = r\<lparr>nr_list := nr_list r @ new_entries D created r [s]\<rparr>"
      by (simp add: seq_assign_end new_entries_def)
    have "unat (e - (s + 1)) < age e (fst x) \<and> age e (fst x) < 32768" if "x \<in> set (nr_list ?r)" for x
    proof (cases "x \<in> set (nr_list r)")
      case True
      then show ?thesis using 1(3) [OF True] es by linarith
    next
      case False
      then have "fst x = s" using that unfolding r by (auto simp: new_entries_def split: if_splits)
      then show ?thesis using es s 1(2) by simp
    qed
    moreover have "unat (e - (s + 1)) < 32768" using es 1(2) by linarith
    ultimately have "add_missing D created (s + 1) e ?r = ?r\<lparr>nr_list := nr_list ?r @ new_entries D created ?r (missing (s + 1) e)\<rparr>"
      by (intro 1(1) [OF False])
    then show ?thesis unfolding missing_Cons [OF False] add_missing.simps [of D created s e r] r
      using False by (simp add: new_entries_def WaitNumberOfPackets_def)
  qed
qed

text \<open>The entries that stay when the packet \<open>n\<close> is the newest, and the effect of a gap on the whole state.\<close>

definition still_wanted :: "u16 \<Rightarrow> (u16 \<times> nack_info) list \<Rightarrow> (u16 \<times> nack_info) list" where
  "still_wanted n xs = filter (\<lambda>x. age n (fst x) \<le> 10000) xs"

lemma age_shift:
  assumes "entry_ok n x" "unat (m - n) \<le> 1001"
  shows "age m (fst x) = age n (fst x) + unat (m - n)" "age m (fst x) \<le> 11001"
  using assms age_add [of n "fst x" m] by (auto simp: entry_ok_def)

lemma ages_descend_shift:
  assumes "ages_descend n xs" "\<forall>x \<in> set xs. entry_ok n x" "unat (m - n) \<le> 1001"
  shows "ages_descend m xs"
  using assms(1) unfolding ages_descend_def
proof (rule sorted_wrt_mono_rel [rotated])
  fix x y
  assume "x \<in> set xs" "y \<in> set xs" "age n (fst y) < age n (fst x)"
  then show "age m (fst y) < age m (fst x)" 
    using assms(2,3) age_shift(1) [of n x m] age_shift(1) [of n y m] by simp
qed

lemma erase_before_wanted:
  assumes "ages_descend n xs" "\<forall>x \<in> set xs. entry_ok n x" "unat (m - n) \<le> 1001"
  shows "erase_before fst (m - kMaxPacketAge) xs = still_wanted m xs"
  unfolding erase_before_def still_wanted_def
proof (rule dropWhile_descend [OF ages_descend_shift [OF assms]])
  fix x
  assume x: "x \<in> set xs"
  have k: "age m (m - kMaxPacketAge) = 10000" by (simp add: age_def kMaxPacketAge_def)
  have "age m (fst x) \<le> 11001" using age_shift(2) assms(2,3) x by blast
  then show "older (fst x) (m - kMaxPacketAge) \<longleftrightarrow> 10000 < age m (fst x)"
    using older_age [of m "fst x" "m - kMaxPacketAge"] k by simp
qed

lemma unat_gap: "(s :: u16) \<noteq> e \<Longrightarrow> unat (e - (s + 1)) = unat (e - s) - 1"
proof -
  assume "s \<noteq> e"
  then have "e - s \<noteq> 0" by simp
  then have "unat (e - s - 1) = unat (e - s) - 1" by (rule unat_minus_one)
  moreover have eq: "e - (s + 1) = e - s - 1" by simp
  ultimately show ?thesis unfolding eq by simp
qed

definition gap_result :: "'d double_ops \<Rightarrow> (u16 \<Rightarrow> int) \<Rightarrow> u16 \<Rightarrow> requester \<Rightarrow> requester" where
  "gap_result D created n r =
     (if kMaxNackPackets < length (still_wanted n (nr_list r)) + (unat (n - nr_newest r) - 1)
      then r\<lparr>nr_list := [], nr_keyframe := True, nr_newest := n\<rparr>
      else r\<lparr>nr_list := still_wanted n (nr_list r) @ new_entries D created r (missing (nr_newest r + 1) n), nr_newest := n\<rparr>)"

lemma AddPacketsToNack_gap:
  assumes "nack_inv r" "AheadOf n (nr_newest r)"
  shows "(AddPacketsToNack D created (nr_newest r + 1) n r)\<lparr>nr_newest := n\<rparr> = gap_result D created n r"
proof -
  have d: "1 \<le> unat (n - nr_newest r)" "n \<noteq> nr_newest r" using AheadOf_age(1) [OF assms(2)] assms(2) by (auto simp: AheadOf_def)
  have g: "unat (ForwardDiff (nr_newest r + 1) n) = unat (n - nr_newest r) - 1"
    using d(2) by (simp add: ForwardDiff_def unat_gap)
  have l: "ages_descend (nr_newest r) (nr_list r)" "\<forall>x \<in> set (nr_list r). entry_ok (nr_newest r) x" using assms(1) by (auto simp: nack_inv_def)
  show ?thesis
  proof (cases "unat (n - nr_newest r) \<le> 1001")
    case False
    then show ?thesis by (simp add: AddPacketsToNack_def Let_def g gap_result_def kMaxNackPackets_def)
  next
    case True
    note w = erase_before_wanted [OF l True]
    have e: "unat (n - (nr_newest r + 1)) = unat (n - nr_newest r) - 1" using d(2) unat_gap by metis
    have "unat (n - (nr_newest r + 1)) < age n (fst x) \<and> age n (fst x) < 32768" if "x \<in> set (still_wanted n (nr_list r))" for x
      using that age_shift [of "nr_newest r" x n] l(2) True d unfolding e by (auto simp: still_wanted_def entry_ok_def)
    moreover have "unat (n - (nr_newest r + 1)) < 32768" using True unfolding e by linarith
    ultimately have "add_missing D created (nr_newest r + 1) n (r\<lparr>nr_list := still_wanted n (nr_list r)\<rparr>) =
      r\<lparr>nr_list := still_wanted n (nr_list r) @ new_entries D created r (missing (nr_newest r + 1) n)\<rparr>"
      by (subst add_missing_list) (simp_all add: new_entries_def WaitNumberOfPackets_def)
    then show ?thesis by (simp add: AddPacketsToNack_def Let_def w g gap_result_def)
  qed
qed

lemma age_missing: "k \<in> set (missing s e) \<Longrightarrow> 1 \<le> age e k \<and> age e k \<le> unat (e - s)"
proof (induction "unat (e - s)" arbitrary: s)
  case 0
  then show ?case by (simp add: missing_def)
next
  case (Suc m)
  then have ne: "s \<noteq> e" by auto
  have m: "m = unat (e - (s + 1))" using Suc(2) unat_gap [OF ne] by simp
  from Suc(3) consider "k = s" | "k \<in> set (missing (s + 1) e)" unfolding missing_Cons [OF ne] by auto
  then show ?case
  proof cases
    case 1
    then show ?thesis using Suc(2) by (simp add: age_def)
  next
    case 2
    then show ?thesis using Suc(1) [OF m 2] m Suc(2) by linarith
  qed
qed

lemma missing_descend: "sorted_wrt (\<lambda>a b. age e b < age e a) (missing s e)"
proof (induction "unat (e - s)" arbitrary: s)
  case 0
  then show ?case by (simp add: missing_def)
next
  case (Suc m)
  then have ne: "s \<noteq> e" by auto
  have m: "m = unat (e - (s + 1))" using Suc(2) unat_gap [OF ne] by simp
  have "age e k < age e s" if "k \<in> set (missing (s + 1) e)" for k
    using age_missing [OF that] m Suc(2) by (simp add: age_def)
  then show ?case unfolding missing_Cons [OF ne] using Suc(1) [OF m] by simp
qed

lemma gap_result_inv:
  assumes "nack_inv r" "AheadOf n (nr_newest r)" "nr_initialized r"
  shows "nack_inv (gap_result D created n r)"
proof (cases "kMaxNackPackets < length (still_wanted n (nr_list r)) + (unat (n - nr_newest r) - 1)")
  case True
  then show ?thesis using assms by (simp add: gap_result_def nack_inv_def ages_descend_def)
next
  case False
  let ?d = "unat (n - nr_newest r)" and ?old = "still_wanted n (nr_list r)"
  let ?new = "new_entries D created r (missing (nr_newest r + 1) n)"
  have d: "1 \<le> ?d" "?d \<le> 1001" "n \<noteq> nr_newest r" using AheadOf_age(1) [OF assms(2)] assms(2) False
    by (auto simp: kMaxNackPackets_def AheadOf_def)
  have l: "ages_descend (nr_newest r) (nr_list r)" "\<forall>x \<in> set (nr_list r). entry_ok (nr_newest r) x" using assms(1) by (auto simp: nack_inv_def)
  have e: "unat (n - (nr_newest r + 1)) = ?d - 1" using d(3) unat_gap by metis
  have new: "1 \<le> age n (fst x) \<and> age n (fst x) \<le> ?d - 1 \<and> entry_ok n x" if "x \<in> set ?new" for x
    using that age_missing [of "fst x" "nr_newest r + 1" n] d(2) unfolding e
    by (auto simp: new_entries_def entry_ok_def NackInfo_def)
  have old: "?d \<le> age n (fst x) \<and> entry_ok n x" if "x \<in> set ?old" for x
    using that age_shift [of "nr_newest r" x n] l(2) d(2) by (auto simp: still_wanted_def entry_ok_def)
  have "ages_descend n ?new"
    using sorted_wrt_filter [OF missing_descend [of n "nr_newest r + 1"], of "\<lambda>k. k \<notin> set (nr_recovered r)"]
    by (simp add: new_entries_def ages_descend_def sorted_wrt_map)
  moreover have "ages_descend n ?old" unfolding still_wanted_def by (rule ages_descend_filter [OF ages_descend_shift [OF l d(2)]])
  moreover have "age n (fst y) < age n (fst x)" if "x \<in> set ?old" "y \<in> set ?new" for x y
    using old [OF that(1)] new [OF that(2)] d(1) by linarith
  ultimately have "ages_descend n (?old @ ?new)" by (simp add: ages_descend_def sorted_wrt_append)
  moreover have "length ?new \<le> ?d - 1"
    unfolding new_entries_def length_map using length_filter_le [of _ "missing (nr_newest r + 1) n"]
    by (simp add: missing_def e) 
  then have "length (?old @ ?new) \<le> 1000" using False by (simp add: kMaxNackPackets_def)
  ultimately show ?thesis using assms(1,3) old new unfolding gap_result_def nack_inv_def if_not_P [OF False] by auto
qed

section \<open>Every run\<close>

lemma batch_sent_inv:
  assumes "nack_inv r"
  shows "nack_inv (batch_sent t ok k r)"
proof (cases "map_of (nr_list r) k")
  case None
  then show ?thesis using assms by (simp add: batch_sent_def)
next
  case (Some e)
  then have "(k, e) \<in> set (nr_list r)" by (rule map_of_SomeD)
  then have e: "entry_ok (nr_newest r) (k, e)" using assms by (auto simp: nack_inv_def)
  have put: "nack_inv (r\<lparr>nr_list := map (\<lambda>(j, x). (j, if j = k then e' else x)) (nr_list r)\<rparr>)"
    if "entry_ok (nr_newest r) (k, e')" for e'
    using nack_inv_map [OF assms, of "\<lambda>j x. if j = k then e' else x"] that assms by (auto simp: nack_inv_def)
  let ?e = "e\<lparr>ni_pending := False, ni_attempt := Some t\<rparr>"
  have "entry_ok (nr_newest r) (k, ?e)" using e by (simp add: entry_ok_def)
  moreover have "entry_ok (nr_newest r) (k, ?e\<lparr>ni_retries := ni_retries e + 1, ni_sent := Some t\<rparr>)" if "ni_retries e + 1 < 100"
    using e that by (simp add: entry_ok_def)
  ultimately show ?thesis using put nack_inv_erase [OF assms] assms
    by (simp add: batch_sent_def Some Let_def kMaxNackRetries_def)
qed

lemma OnNackBatchSent_inv: "nack_inv r \<Longrightarrow> nack_inv (OnNackBatchSent t ks ok r)"
  unfolding OnNackBatchSent_def by (induction ks arbitrary: r) (auto intro: batch_sent_inv)

lemma ClearUpTo_inv: "nack_inv r \<Longrightarrow> nack_inv (ClearUpTo k r)"
proof -
  assume r: "nack_inv r"
  have "nack_inv (r\<lparr>nr_list := erase_up_to fst k (nr_list r)\<rparr>)"
    by (rule nack_inv_shrink [OF r])
      (use r in \<open>auto simp: erase_up_to_def nack_inv_def length_dropWhile_le ages_descend_dropWhile dest: set_dropWhileD\<close>)
  then show ?thesis by (simp add: ClearUpTo_def nack_inv_def)
qed

lemma OnReceivedPacket_inv:
  assumes "nack_inv r"
  shows "\<exists>batch r'. OnReceivedPacket D created now k rec r = Some (batch, r') \<and> nack_inv r'"
proof -
  define R :: "nack_info \<Rightarrow> requester" where "R = (\<lambda>e. case ni_sent e of
      Some t \<Rightarrow> if rec \<and> ni_retries e = 1 then UpdateRtt (DivideRoundToNearest (now - t) 1000) r else r | None \<Rightarrow> r)"
  let ?late = "case map_of (nr_list r) k of None \<Rightarrow> r | Some e \<Rightarrow> (R e)\<lparr>nr_list := seq_erase k (nr_list (R e))\<rparr>"
  have "nack_inv (R e)" for e using assms UpdateRtt_inv [OF assms] by (auto simp: R_def split: option.split)
  then have late: "nack_inv ?late" using assms nack_inv_erase by (auto split: option.split)
  consider (first) "\<not> nr_initialized r" | (same) "nr_initialized r" "k = nr_newest r"
    | (late) "nr_initialized r" "k \<noteq> nr_newest r" "AheadOf (nr_newest r) k"
    | (recovered) "nr_initialized r" "k \<noteq> nr_newest r" "\<not> AheadOf (nr_newest r) k" "rec"
    | (gap) "nr_initialized r" "AheadOf k (nr_newest r)" "k \<noteq> nr_newest r" "\<not> AheadOf (nr_newest r) k" "\<not> rec"
    using sdist_antisym [of k "nr_newest r"] sdist_0_iff [of k "nr_newest r"] by (fastforce simp: AheadOf_sdist)
  then show ?thesis
  proof cases
    case late
    then have "OnReceivedPacket D created now k rec r =
        (if \<not> rec then do { r \<leftarrow> UpdateReorderingStatistics k ?late; Some ([], r) } else Some ([], ?late))"
      unfolding OnReceivedPacket_def Let_def R_def by simp
    then show ?thesis using UpdateReorderingStatistics_inv [OF \<open>nack_inv ?late\<close>, of k] \<open>nack_inv ?late\<close> by auto
  next
    case gap
    then show ?thesis
      using GetNackBatch_inv [OF gap_result_inv [OF assms gap(2,1), of D created]] AddPacketsToNack_gap [OF assms gap(2), of D created]
      by (auto simp: OnReceivedPacket_def prod_eq_iff)
  qed (use assms in \<open>auto simp: OnReceivedPacket_def nack_inv_def ages_descend_def\<close>)
qed

datatype nack_op =
  OpReceived "u16 \<Rightarrow> int" int u16 bool | OpProcess int | OpSent int "u16 list" bool | OpKeyFrame | OpClear u16 | OpRtt int

fun nack_step :: "'d double_ops \<Rightarrow> nack_op \<Rightarrow> requester \<Rightarrow> requester option" where
  "nack_step D (OpReceived created now k rec) r = map_option snd (OnReceivedPacket D created now k rec r)"
| "nack_step D (OpProcess now) r = Some (snd (ProcessNacks now r))"
| "nack_step D (OpSent t ks ok) r = Some (OnNackBatchSent t ks ok r)"
| "nack_step D OpKeyFrame r = Some (snd (ConsumeKeyFrameRequest r))"
| "nack_step D (OpClear k) r = Some (ClearUpTo k r)"
| "nack_step D (OpRtt ms) r = Some (UpdateRtt ms r)"

fun nack_run :: "'d double_ops \<Rightarrow> nack_op list \<Rightarrow> requester \<Rightarrow> requester option" where
  "nack_run D [] r = Some r"
| "nack_run D (a # as) r = do { r \<leftarrow> nack_step D a r; nack_run D as r }"

lemma nack_step_inv: "nack_inv r \<Longrightarrow> \<exists>r'. nack_step D a r = Some r' \<and> nack_inv r'"
proof (cases a)
  case (OpReceived created now k rec)
  assume "nack_inv r"
  then show ?thesis using OnReceivedPacket_inv [of r D created now k rec] by (auto simp: OpReceived)
next
  case OpKeyFrame
  assume "nack_inv r"
  then show ?thesis by (simp add: OpKeyFrame ConsumeKeyFrameRequest_def nack_inv_def)
qed (simp_all add: ProcessNacks_def GetNackBatch_inv OnNackBatchSent_inv ClearUpTo_inv UpdateRtt_inv)

text \<open>
  C8: No sequence of received packets, batches, reports, resets and round-trip samples, at any times, makes the
  requester access its containers wrongly, and always the list of missing packets has at most 1000 entries, all of
  them behind the newest packet by at most 10000, from the oldest to the newest (so the comparison
  of its keys is an order), with less than 100 successful requests each, the round-trip time is between 1 and 2000 ms
  and the histogram counts the last 128 reorderings.
\<close>

theorem nack_requester_safe: "\<exists>r. nack_run D ops requester_init = Some r \<and> nack_inv r"
proof -
  have "nack_inv r \<Longrightarrow> \<exists>r'. nack_run D ops r = Some r' \<and> nack_inv r'" for r
  proof (induction ops arbitrary: r)
    case (Cons a as)
    then obtain r' where "nack_step D a r = Some r'" "nack_inv r'" using nack_step_inv by blast
    then show ?case using Cons.IH [of r'] by simp
  qed simp
  then show ?thesis using nack_inv_init by blast
qed

text \<open>
  C9: A packet that is ahead of the newest one and was not recovered leaves the following list: the entries that are at
  most 10000 behind it, and then one entry for each packet of the gap that was not recovered, in order. When
  that could be more than 1000, the list is emptied instead and a key frame is requested.
\<close>

theorem nack_gap:
  assumes "nack_inv r" and "nr_initialized r" and "AheadOf n (nr_newest r)"
  shows "\<exists>batch r'. OnReceivedPacket D created now n False r = Some (batch, r') \<and> nr_newest r' = n \<and>
    (if 1000 < length (filter (\<lambda>x. age n (fst x) \<le> 10000) (nr_list r)) + length (missing (nr_newest r + 1) n)
     then nr_list r' = [] \<and> nr_keyframe r' \<and> batch = []
     else map fst (nr_list r') = map fst (filter (\<lambda>x. age n (fst x) \<le> 10000) (nr_list r)) @
            filter (\<lambda>k. k \<notin> set (nr_recovered r)) (missing (nr_newest r + 1) n) \<and> nr_keyframe r' = nr_keyframe r)"
proof -
  have n: "n \<noteq> nr_newest r" "\<not> AheadOf (nr_newest r) n"
    using assms(3) sdist_antisym [of n "nr_newest r"] by (auto simp: AheadOf_sdist sdist_0_iff)
  have len: "length (missing (nr_newest r + 1) n) = unat (n - nr_newest r) - 1"
    using n(1) unat_gap [of "nr_newest r" n] by (simp add: missing_def)
  let ?g = "gap_result D created n r"
  have "OnReceivedPacket D created now n False r = Some (GetNackBatch SeqNumOnly now ?g)"
    using n assms(2) AddPacketsToNack_gap [OF assms(1,3), of D created] by (simp add: OnReceivedPacket_def)
  moreover have "map fst (nr_list (snd (GetNackBatch SeqNumOnly now ?g))) = map fst (nr_list ?g)"
    by (simp add: GetNackBatch_def case_prod_unfold comp_def)
  moreover have "nr_list ?g = [] \<Longrightarrow> fst (GetNackBatch SeqNumOnly now ?g) = []" by (simp add: GetNackBatch_def)
  moreover have "nr_newest (snd (GetNackBatch SeqNumOnly now ?g)) = n" "nr_keyframe (snd (GetNackBatch SeqNumOnly now ?g)) = nr_keyframe ?g"
    by (simp_all add: GetNackBatch_def gap_result_def)
  moreover have "map fst (new_entries D created r ks) = filter (\<lambda>k. k \<notin> set (nr_recovered r)) ks" for ks
    by (simp add: new_entries_def comp_def)
  ultimately show ?thesis
    by (cases "GetNackBatch SeqNumOnly now ?g") (auto simp: gap_result_def len kMaxNackPackets_def still_wanted_def)
qed

definition sample_requester :: requester where
  "sample_requester = requester_init\<lparr>nr_initialized := True, nr_newest := 65533, nr_recovered := [0]\<rparr>"

theorem nack_gap_witness:
  "\<exists>batch r'. OnReceivedPacket milli_ops (\<lambda>_. 0) 20000 2 False sample_requester = Some (batch, r') \<and>
     map fst (nr_list r') = [65534, 65535, 1]"
proof -
  have inv: "nack_inv sample_requester" using nack_inv_init by (simp add: sample_requester_def nack_inv_def requester_init_def ages_descend_def)
  have a: "nr_initialized sample_requester" "AheadOf 2 (nr_newest sample_requester)" "nr_list sample_requester = []"
      "nr_recovered sample_requester = [0]" "nr_newest sample_requester + 1 = 65534" "missing 65534 2 = [65534, 65535, 0, 1]"
    by code_simp+
  show ?thesis using nack_gap [OF inv a(1,2), of milli_ops "\<lambda>_. 0" 20000] by (auto simp: a(3-))
qed

lemma batch_entry:
  assumes "k \<in> set (fst (GetNackBatch options now r))" "nack_inv r"
  shows "\<exists>e. (k, e) \<in> set (nr_list r) \<and> due options now r e"
proof -
  obtain j e where e: "(j, e) \<in> set (nr_list r)" "due options now r e" "k = ni_seq_num e"
    using assms(1) by (auto simp: GetNackBatch_def)
  moreover have "ni_seq_num e = j" using assms(2) e(1) by (fastforce simp: nack_inv_def entry_ok_def)
  ultimately show ?thesis by auto
qed

lemma batch_pending:
  assumes "GetNackBatch options now r = (batch, r')" "nack_inv r" "k \<in> set batch"
  shows "\<exists>e. map_of (nr_list r') k = Some e \<and> ni_pending e" "k \<notin> set (fst (GetNackBatch options' now' r'))"
proof -
  let ?f = "\<lambda>(k, e). (k, if due options now r e then e\<lparr>ni_pending := True\<rparr> else e)"
  obtain e where e: "(k, e) \<in> set (nr_list r)" "due options now r e"
    using batch_entry [of k options now r] assms by auto
  have r': "nr_list r' = map ?f (nr_list r)" using assms(1) by (auto simp: GetNackBatch_def)
  have inv: "nack_inv r'" using GetNackBatch_inv [OF assms(2), of options now] assms(1) by simp
  then have d: "distinct (map fst (nr_list r'))" using ages_descend_distinct by (auto simp: nack_inv_def)
  have "(k, e\<lparr>ni_pending := True\<rparr>) \<in> set (nr_list r')" using e by (force simp: r')
  then have m: "map_of (nr_list r') k = Some (e\<lparr>ni_pending := True\<rparr>)" by (rule map_of_is_SomeI [OF d])
  then show "\<exists>e. map_of (nr_list r') k = Some e \<and> ni_pending e" by simp
  show "k \<notin> set (fst (GetNackBatch options' now' r'))"
  proof
    assume "k \<in> set (fst (GetNackBatch options' now' r'))"
    then obtain e' where "(k, e') \<in> set (nr_list r')" "due options' now' r' e'"
      using batch_entry inv by blast
    then have "e' = e\<lparr>ni_pending := True\<rparr>" "\<not> ni_pending e'" using map_of_is_SomeI [OF d] m by (fastforce simp: due_def Let_def)+
    then show False by simp
  qed
qed

end
