(* ===== verification/Spec2Isabelle.thy ===== *)
theory Spec2Isabelle
  imports Byte_IO Seq_Num Rtcp_Reports Rtcp_Nack Rtcp_Fir Receiver_Rtt Packet_Queue Punch_Protocol Nat_Traversal
  Punch_Config Punch_Plan Punch_Scheduler Punch_Negotiation Rtp_Fec_Recovery Fec_Adaptation Nack_Requester
begin

text \<open>
  \<^bold>\<open>A verification development for MiniRTC.\<close>

  MiniRTC is a peer-to-peer media library in C++. Media frames become RTP packets, wait in a priority queue
  for the pacer, are protected by forward error correction, travel over an ICE connection (with UDP hole
  punching where plain ICE fails) and are controlled by RTCP feedback. This development models the parts
  that carry protocol state, byte formats and arithmetic, as executable HOL functions, and proves what makes
  them correct. All paths below are relative to \<^verbatim>\<open>src/src/\<close>.

  \<^bold>\<open>Conventions.\<close>
  \<^item> Machine integers are words of their C++ width (\<open>u8\<close> to \<open>u64\<close>, signed readings by \<open>sint\<close>), so wrap-around is
    that of the code. Clocks and durations that the code keeps in 64-bit milliseconds or microseconds are \<open>int\<close>;
    the values that occur are far below the width. Sizes and indices are \<open>nat\<close>.
  \<^item> A buffer is a list of bytes. A read or write outside a buffer, an access through an end iterator, a shift
    by too many bits, in short undefined behaviour, is \<open>None\<close> of the option monad. A theorem that a function
    returns \<open>Some\<close> is therefore a memory-safety theorem. Rejection by the code is a value inside it: \<open>Some None\<close>,
    a \<open>False\<close>, or the constructor the source returns.
  \<^item> Objects are records, methods are functions from the state to the new state and the result; calls to
    outside (sending, callbacks, hooks) are recorded effects.
  \<^item> Code that is not in the repository is a parameter of the definitions that use it: SHA-256 and HMAC, the
    JSON parser and printer, the random source, the hooks of the negotiation, the answers of OpenFEC, double
    arithmetic (\<open>double_ops\<close>). What a theorem needs of a parameter is a named hypothesis of it, and its witness
    instantiates the parameter by a concrete function.
  \<^item> Loops are structural recursion where the source walks a container, and functions with a termination proof
    by a measure where it does not (the block loops of the Reed-Solomon code, the pivot search, the packing of
    NACK items, the fragmenting of RTCP packets, the parsing of extended reports, port sampling, purging). No
    definition uses fuel and every one is total; the random source is read with the bound the source has.

  \<^bold>\<open>Theories.\<close>
  \<^item> \<open>Prelude\<close>: integer types, checked buffers, fields of bytes, the option-monad rules and list lemmas.
  \<^item> \<open>Byte_IO\<close> (\<^verbatim>\<open>common/byte_io.h\<close>): readers and writers; every width and byte count round trips.
  \<^item> \<open>Seq_Num\<close> (\<^verbatim>\<open>common/rtc_base/numerics/\<close>, \<^verbatim>\<open>common/sequence_number_compare.h\<close>): wrap-around differences and
    order, the unwrapper; a counter is reconstructed exactly when its jumps stay below half the range.
  \<^item> \<open>Wire_Codec\<close>: the locale \<open>item_codec\<close>, the contract between a packet with a run of fixed-size items and the
    code of one item. It is interpreted by report blocks, NACK items, FIR entries and DLRR entries.
  \<^item> \<open>Rtcp_Header\<close>, \<open>Rtcp_Reports\<close>, \<open>Rtcp_Nack\<close>, \<open>Rtcp_Fir\<close>, \<open>Receiver_Rtt\<close> (\<^verbatim>\<open>rtcp/\<close>): parsers never read outside
    the datagram, builders and parsers are inverse, a list of lost packets of any length is fragmented over
    buffers and recovered, round-trip samples are bounded and at most one per probe.
  \<^item> \<open>Packet_Queue\<close> (\<^verbatim>\<open>qos/prioritized_packet_queue.cc\<close>): the whole class over a heap of stream queues, with the
    invariant of its counters and schedules, safety of every sequence of operations, and what \<open>Push\<close> and \<open>Pop\<close> do.
  \<^item> \<open>Punch_Protocol\<close>, \<open>Nat_Traversal\<close>, \<open>Punch_Config\<close>, \<open>Punch_Plan\<close>, \<open>Punch_Scheduler\<close>, \<open>Punch_Negotiation\<close> (\<^verbatim>\<open>ice/punch_*.cpp\<close>,
    \<^verbatim>\<open>ice/nat_traversal.h\<close>): the authenticated packet format and its replay window (a refinement of a bounded map),
    analysis of NAT mappings and port prediction, the configuration, the plan two peers agree on, token buckets
    and probe budgets (locale \<open>rate_limited\<close>, interpreted by the bucket, the probe budget of a connection and the
    budget of the process), and the negotiation state machine with its limits in every run.
  \<^item> \<open>Gf256\<close>, \<open>Rs_Small\<close>, \<open>Fec_Codec\<close>, \<open>Rtp_Fec\<close> (\<^verbatim>\<open>fec/\<close>): the field of 256 elements as the tables compute it (locale
    \<open>byte_field\<close>), the vectorised loops, Gauss-Jordan decoding, the block codec and the FEC sender and receiver.
    Any k of the n symbols of a block restore it; arbitrary packets cannot make the receiver leave its buffers
    or outgrow its caches.
  \<^item> \<open>Rtp_Fec_Sender\<close>, \<open>Rtp_Fec_Recovery\<close>: the sender in every run, and the composition of the two ends. A block that the
    sender flushes is recovered by the receiver, byte for byte, from any packets of the block in any order, as soon
    as as many different ones arrived as the block has media packets.
  \<^item> \<open>Fec_Adaptation\<close> (\<^verbatim>\<open>fec/fec_adaptation_controller.cpp\<close>): the tracker of sent packets and its snapshot, which equals a
    reference summary of each stream, the controller that chooses the share of repair packets and changes it only
    on the grounds the code names, the split of the bitrate and the SDP predicates.
  \<^item> \<open>Reorder_Histogram\<close>, \<open>Nack_Requester\<close> (\<^verbatim>\<open>qos/histogram.cc\<close>, \<^verbatim>\<open>qos/nack_requester.cc\<close>): the list of missing packets with its
    retry schedule, the invariant of every run, and which sequence numbers a gap adds.
  \<^item> \<open>Ordered_Map\<close>, \<open>Double_Ops\<close>: maps ordered by their key as lists, and the operations on doubles as a parameter
    (\<open>milli_ops\<close>, thousandths in \<open>int\<close>, is the instance of the witnesses).

  \<^bold>\<open>Hypotheses on parameters.\<close> The generator rows that OpenFEC answers must have the maximum-distance property
  (\<open>mds\<close>, \<open>codec_ok\<close>): every square submatrix that a set of losses selects is invertible. The authentication tag
  must have its fixed length, and the JSON parser must invert the printer on the objects that are sent.

  \<^bold>\<open>Not modelled.\<close> Threads, locks, sockets, libnice, OpenSSL, libsrtp, websocket and codec wrappers
  (\<^verbatim>\<open>transport/\<close>, \<^verbatim>\<open>pc/\<close>, \<^verbatim>\<open>ws/\<close>, \<^verbatim>\<open>media/\<close>, \<^verbatim>\<open>srtp/\<close>, \<^verbatim>\<open>ice/ice_agent.cpp\<close>) are glue around libraries whose code is not
  in the repository. The bandwidth estimators of \<^verbatim>\<open>qos/\<close> (all of that directory but the packet queue, the NACK
  requester and its histogram) are filters over floating point numbers. Log lines are
  omitted throughout, as are allocation failures.
\<close>

end
